(* ===== verification/Prelude.thy ===== *)
theory Prelude
  imports Complex_Main "HOL-Library.Word" "HOL-Library.AList" "HOL-Library.Multiset"
    "HOL-Library.List_Lexorder" "HOL-Library.Char_ord"
begin

text \<open>
  The vocabulary the component theories share: the parts of the Go language and of its
  standard library that Portkeeper uses (byte strings, \<^verbatim>\<open>strings.Split\<close>,
  \<^verbatim>\<open>strings.Trim\<close>, \<^verbatim>\<open>strings.Fields\<close>, \<^verbatim>\<open>strconv.Itoa\<close>, maps, times and
  durations), the generic lemmas about them, and the development's simplification
  collections.

  A Go string is a list of bytes (\<^typ>\<open>char\<close> is a byte). A Go map is an association
  list with distinct keys: the list order stands for the iteration order, which Go leaves
  unspecified, so a result that is the same for every permutation of the list does not
  depend on it. A time is its number of nanoseconds since the zero time; a duration is an
  \<^verbatim>\<open>int64\<close> number of nanoseconds.
\<close>

named_theorems go_string "lemmas on the modelled string functions"
named_theorems go_map "lemmas on association lists that stand for Go maps"

type_synonym int32 = "32 word"
type_synonym int64 = "64 word"
type_synonym time = int
type_synonym duration = int
type_synonym ('k, 'v) gomap = "('k \<times> 'v) list"

section \<open>Strings\<close>

text \<open>\<^verbatim>\<open>strings.Split(s, sep)\<close> for a one-byte separator: never the empty list.\<close>

fun split_on :: "char \<Rightarrow> string \<Rightarrow> string list" where
  "split_on c [] = [[]]"
| "split_on c (x # xs) =
     (if x = c then [] # split_on c xs
      else (case split_on c xs of [] \<Rightarrow> [[x]] | p # ps \<Rightarrow> (x # p) # ps))"

text \<open>\<^verbatim>\<open>strings.Join(parts, sep)\<close> for a one-byte separator.\<close>

fun join_on :: "char \<Rightarrow> string list \<Rightarrow> string" where
  "join_on c [] = []"
| "join_on c [p] = p"
| "join_on c (p # q # ps) = p @ c # join_on c (q # ps)"

text \<open>\<^verbatim>\<open>strings.Trim(s, cutset)\<close> for a cutset of one byte.\<close>

definition trim_char :: "char \<Rightarrow> string \<Rightarrow> string" where
  "trim_char c s = rev (dropWhile (\<lambda>x. x = c) (rev (dropWhile (\<lambda>x. x = c) s)))"

lemma split_on_ne [go_string, simp]: "split_on c s \<noteq> []"
  by (cases s) (auto split: list.splits)

lemma join_split [go_string]: "join_on c (split_on c s) = s"
proof (induction s)
  case (Cons x xs)
  obtain p ps where p: "split_on c xs = p # ps"
    by (metis neq_Nil_conv split_on_ne)
  with Cons show ?case by (cases ps) auto
qed simp

lemma split_no_sep [go_string]: "p \<in> set (split_on c s) \<Longrightarrow> c \<notin> set p"
  by (induction s arbitrary: p) (auto split: if_splits list.splits)

lemma split_on_plain [go_string]: "c \<notin> set s \<Longrightarrow> split_on c s = [s]"
  by (induction s) auto

lemma split_on_append [go_string]:
  "c \<notin> set p \<Longrightarrow> split_on c (p @ c # s) = p # split_on c s"
  by (induction p) auto

lemma split_join [go_string]:
  "ps \<noteq> [] \<Longrightarrow> \<forall>p \<in> set ps. c \<notin> set p \<Longrightarrow> split_on c (join_on c ps) = ps"
proof (induction c ps rule: join_on.induct)
  case (3 c p q ps)
  then show ?case by (simp add: split_on_append)
qed (auto simp: split_on_plain)

lemma split_on_inj: "split_on c s = split_on c t \<Longrightarrow> s = t"
  by (metis join_split)

lemma join_on_Cons_ne: "ps \<noteq> [] \<Longrightarrow> join_on c (p # ps) = p @ c # join_on c ps"
  by (cases ps) auto

lemma append_sep_inj:
  "c \<notin> set p \<Longrightarrow> c \<notin> set q \<Longrightarrow> p @ c # s = q @ c # t \<longleftrightarrow> p = q \<and> s = t"
proof (induction p arbitrary: q)
  case Nil
  then show ?case by (cases q) auto
next
  case (Cons x p)
  then show ?case by (cases q) auto
qed

lemma trim_char_id:
  "s \<noteq> [] \<Longrightarrow> hd s \<noteq> c \<Longrightarrow> last s \<noteq> c \<Longrightarrow> trim_char c s = s"
proof -
  assume s: "s \<noteq> []" "hd s \<noteq> c" "last s \<noteq> c"
  then have "dropWhile (\<lambda>x. x = c) s = s" by (simp only: dropWhile_eq_self_iff simp_thms)
  moreover have "dropWhile (\<lambda>x. x = c) (rev s) = rev s"
    using s by (simp only: dropWhile_eq_self_iff hd_rev simp_thms)
  ultimately show ?thesis by (simp only: trim_char_def rev_rev_ident)
qed

lemma trim_char_Cons [simp]: "trim_char c (c # s) = trim_char c s"
  by (simp add: trim_char_def)

lemma trim_char_decomp: "\<exists>i j. s = replicate i c @ trim_char c s @ replicate j c"
proof -
  have drop: "\<exists>i. t = replicate i c @ dropWhile (\<lambda>x. x = c) t" for t
    by (induction t) (auto intro: exI[of _ 0] exI[of _ "Suc i" for i])
  obtain i where i: "s = replicate i c @ dropWhile (\<lambda>x. x = c) s" using drop by blast
  obtain j where "rev (dropWhile (\<lambda>x. x = c) s)
      = replicate j c @ dropWhile (\<lambda>x. x = c) (rev (dropWhile (\<lambda>x. x = c) s))" using drop by blast
  then have "dropWhile (\<lambda>x. x = c) s = trim_char c s @ replicate j c"
    unfolding trim_char_def by (metis rev_append rev_replicate rev_rev_ident)
  with i show ?thesis by metis
qed

lemma trim_char_pad:
  assumes "m \<noteq> []" and "hd m \<noteq> c" and "last m \<noteq> c"
  shows "trim_char c (replicate i c @ m @ replicate j c) = m"
proof -
  have drop: "dropWhile (\<lambda>x. x = c) (replicate k c @ t) = dropWhile (\<lambda>x. x = c) t" for k t
    by (induction k) auto
  have "dropWhile (\<lambda>x. x = c) (m @ replicate j c) = m @ replicate j c"
    using assms by (cases m) auto
  moreover have "dropWhile (\<lambda>x. x = c) (rev m) = rev m"
    using assms by (simp only: dropWhile_eq_self_iff hd_rev simp_thms)
  ultimately show ?thesis by (simp add: trim_char_def drop)
qed

text \<open>
  \<^verbatim>\<open>strings.Fields\<close> and \<^verbatim>\<open>strings.TrimSpace\<close> treat as space what
  \<^verbatim>\<open>unicode.IsSpace\<close> accepts. \<open>space_width s\<close> is the number of bytes of the space
  rune at the start of \<open>s\<close> in UTF-8, 0 when \<open>s\<close> does not start with one. No continuation
  byte starts a rune, so looking for these byte sequences byte by byte finds exactly the
  space runes that Go's rune-by-rune decoding finds.
\<close>

definition ascii_space :: "char \<Rightarrow> bool" where
  "ascii_space c \<longleftrightarrow> (of_char c :: nat) \<in> {9, 10, 11, 12, 13, 32}"

fun space_width :: "string \<Rightarrow> nat" where
  "space_width [] = 0"
| "space_width (a # s) =
     (if ascii_space a then 1
      else (case s of
          [] \<Rightarrow> 0
        | b # t \<Rightarrow>
            (let x = (of_char a :: nat); y = (of_char b :: nat) in
             if x = 194 \<and> (y = 133 \<or> y = 160) then 2
             else (case t of
                 [] \<Rightarrow> 0
               | d # _ \<Rightarrow>
                   (let z = (of_char d :: nat) in
                    if (x = 225 \<and> y = 154 \<and> z = 128)
                      \<or> (x = 226 \<and> y = 128 \<and> (128 \<le> z \<and> z \<le> 138 \<or> z = 168 \<or> z = 169 \<or> z = 175))
                      \<or> (x = 226 \<and> y = 129 \<and> z = 159)
                      \<or> (x = 227 \<and> y = 128 \<and> z = 128)
                    then 3 else 0)))))"

text \<open>\<^verbatim>\<open>strings.Fields(s)\<close>: \<open>acc\<close> is the field being read, reversed.\<close>

function fields_from :: "string \<Rightarrow> string \<Rightarrow> string list" where
  "fields_from acc [] = (if acc = [] then [] else [rev acc])"
| "fields_from acc (a # s) =
     (let w = space_width (a # s) in
      if w = 0 then fields_from (a # acc) s
      else (if acc = [] then [] else [rev acc]) @ fields_from [] (drop w (a # s)))"
  by pat_completeness auto
termination
  by (relation "measure (\<lambda>(acc, s). length s)") auto

definition go_fields :: "string \<Rightarrow> string list" where
  "go_fields s = fields_from [] s"

lemma fields_from_ne: "p \<in> set (fields_from acc s) \<Longrightarrow> p \<noteq> []"
  by (induction acc s rule: fields_from.induct) (auto simp: Let_def split: if_splits)

lemma go_fields_ne [go_string]: "p \<in> set (go_fields s) \<Longrightarrow> p \<noteq> []"
  unfolding go_fields_def by (rule fields_from_ne)

text \<open>
  \<^verbatim>\<open>strings.TrimSpace\<close>. \<open>space_suffix s\<close> is the width of the space rune that ends
  \<open>s\<close>, 0 when there is none.
\<close>

function trim_left :: "string \<Rightarrow> string" where
  "trim_left s = (if space_width s = 0 then s else trim_left (drop (space_width s) s))"
  by pat_completeness auto
termination
proof (relation "measure length")
  fix s
  assume "space_width s \<noteq> 0"
  then show "(drop (space_width s) s, s) \<in> measure length" by (cases s) auto
qed simp

definition space_suffix :: "string \<Rightarrow> nat" where
  "space_suffix s =
     (let w = (\<lambda>k. k \<le> length s \<and> space_width (drop (length s - k) s) = k) in
      if w 1 then 1 else if w 2 then 2 else if w 3 then 3 else 0)"

function trim_right :: "string \<Rightarrow> string" where
  "trim_right s = (if s = [] \<or> space_suffix s = 0 then s
     else trim_right (take (length s - space_suffix s) s))"
  by pat_completeness auto
termination
  by (relation "measure length") auto

declare trim_left.simps [simp del] trim_right.simps [simp del]

definition go_trim_space :: "string \<Rightarrow> string" where
  "go_trim_space s = trim_right (trim_left s)"

text \<open>\<^verbatim>\<open>strings.EqualFold(s, t)\<close> for a \<open>t\<close> none of whose letters folds outside ASCII.\<close>

definition lower_byte :: "char \<Rightarrow> char" where
  "lower_byte c = (let n = (of_char c :: nat) in if 65 \<le> n \<and> n \<le> 90 then char_of (n + 32) else c)"

definition equal_fold :: "string \<Rightarrow> string \<Rightarrow> bool" where
  "equal_fold s t \<longleftrightarrow> map lower_byte s = map lower_byte t"

text \<open>\<^verbatim>\<open>strconv.Itoa\<close> and the \<^verbatim>\<open>%d\<close> verb.\<close>

definition digit :: "nat \<Rightarrow> char" where
  "digit d = char_of (48 + d)"

fun nat_digits :: "nat \<Rightarrow> string" where
  "nat_digits n = (if n < 10 then [digit n] else nat_digits (n div 10) @ [digit (n mod 10)])"

declare nat_digits.simps [simp del]

definition itoa :: "int \<Rightarrow> string" where
  "itoa i = (if i < 0 then CHR ''-'' # nat_digits (nat (- i)) else nat_digits (nat i))"

text \<open>The value of a hexadecimal digit.\<close>

definition hex_value :: "char \<Rightarrow> nat option" where
  "hex_value c =
     (let n = (of_char c :: nat) in
      if 48 \<le> n \<and> n \<le> 57 then Some (n - 48)
      else if 97 \<le> n \<and> n \<le> 102 then Some (n - 87)
      else if 65 \<le> n \<and> n \<le> 70 then Some (n - 55) else None)"

section \<open>Errors\<close>

text \<open>
  The error values the gateway tells apart with \<^verbatim>\<open>errors.Is\<close>; every other error is
  \<open>ErrOther\<close> with its message.
\<close>

datatype go_error =
    ErrServerNotFound
  | ErrAmbiguousServer
  | ErrUnauthenticated
  | ErrAuthenticationUnavailable
  | ErrOther string

section \<open>Maps\<close>

abbreviation gomap_ok :: "('k, 'v) gomap \<Rightarrow> bool" where
  "gomap_ok m \<equiv> distinct (map fst m)"

abbreviation gomap_keys :: "('k, 'v) gomap \<Rightarrow> 'k set" where
  "gomap_keys m \<equiv> fst ` set m"

lemma gomap_ok_update [go_map, simp]: "gomap_ok m \<Longrightarrow> gomap_ok (AList.update k v m)"
  by (rule distinct_update)

lemma gomap_ok_filter [go_map, simp]: "gomap_ok m \<Longrightarrow> gomap_ok (filter P m)"
  by (rule distinct_map_filter)

lemma gomap_keys_update [go_map, simp]: "gomap_keys (AList.update k v m) = insert k (gomap_keys m)"
  by (induction m) auto

lemma length_update_present [go_map]:
  "k \<in> gomap_keys m \<Longrightarrow> length (AList.update k v m) = length m"
  by (induction m) auto

lemma length_update_absent [go_map]:
  "k \<notin> gomap_keys m \<Longrightarrow> length (AList.update k v m) = Suc (length m)"
  by (induction m) auto

lemma set_update_absent [go_map]:
  "k \<notin> gomap_keys m \<Longrightarrow> set (AList.update k v m) = insert (k, v) (set m)"
  by (induction m) auto

lemma set_update_sub [go_map]: "set (AList.update k v m) \<subseteq> insert (k, v) (set m)"
  by (induction m) auto

lemma map_of_in_set [go_map]: "gomap_ok m \<Longrightarrow> map_of m k = Some v \<longleftrightarrow> (k, v) \<in> set m"
  by (rule map_of_eq_Some_iff)

lemma map_of_filter_ok [go_map]:
  "gomap_ok m \<Longrightarrow> map_of (filter P m) k =
     (case map_of m k of None \<Rightarrow> None | Some v \<Rightarrow> if P (k, v) then Some v else None)"
proof (induction m)
  case (Cons a m)
  obtain k' v' where a: "a = (k', v')" by (cases a)
  have "k' = k \<Longrightarrow> map_of (filter P m) k = None"
    using Cons.prems a by (auto simp: map_of_eq_None_iff)
  with Cons a show ?case by (auto split: option.splits)
qed simp

lemma length_gomap_card: "gomap_ok m \<Longrightarrow> length m = card (gomap_keys m)"
  by (metis distinct_card length_map set_map)

lemma map_of_perm:
  assumes "gomap_ok m" and "mset m' = mset m"
  shows "map_of m' = map_of m"
proof -
  have "mset (map fst m') = mset (map fst m)" using assms(2) by simp
  with assms(1) have ok': "gomap_ok m'"
    by (metis mset_eq_imp_distinct_iff)
  have "set m' = set m" using assms(2) by (metis set_mset_mset)
  then show ?thesis using assms(1) ok'
    by (metis map_of_inject_set)
qed

section \<open>Times and durations\<close>

definition max_duration :: duration where "max_duration = 2 ^ 63 - 1"
definition min_duration :: duration where "min_duration = - (2 ^ 63)"

text \<open>\<^verbatim>\<open>t.Sub(u)\<close> saturates at the ends of \<^verbatim>\<open>int64\<close>.\<close>

definition time_sub :: "time \<Rightarrow> time \<Rightarrow> duration" where
  "time_sub t u = max min_duration (min max_duration (t - u))"

definition second :: duration where "second = 1000000000"

lemma time_sub_le: "min_duration \<le> t - u \<Longrightarrow> time_sub t u \<le> t - u"
  by (simp add: time_sub_def)

lemma time_sub_le': "u \<le> t \<Longrightarrow> time_sub t u \<le> t - u"
  by (rule time_sub_le) (simp add: min_duration_def)

lemma time_sub_nonneg: "u \<le> t \<Longrightarrow> 0 \<le> time_sub t u"
  by (simp add: time_sub_def max_duration_def)

lemma time_sub_self [simp]: "time_sub t t = 0"
  by (simp add: time_sub_def max_duration_def min_duration_def)

lemma time_sub_mono: "s \<le> t \<Longrightarrow> time_sub s u \<le> time_sub t u"
  unfolding time_sub_def by (intro max.mono min.mono) auto

lemma time_sub_small:
  "d < max_duration \<Longrightarrow> min_duration \<le> d \<Longrightarrow> time_sub t u \<le> d \<longleftrightarrow> t - u \<le> d"
  by (auto simp: time_sub_def min_le_iff_disj)

text \<open>Go's integer division truncates towards zero.\<close>

definition quot_trunc :: "int \<Rightarrow> int \<Rightarrow> int" where
  "quot_trunc a b = sgn a * sgn b * (\<bar>a\<bar> div \<bar>b\<bar>)"

lemma quot_trunc_nonneg: "0 \<le> a \<Longrightarrow> 0 < b \<Longrightarrow> quot_trunc a b = a div b"
  by (cases "a = 0") (auto simp: quot_trunc_def)

lemma second_pos [simp]: "0 < second"
  by (simp add: second_def)

lemma second_nonneg [simp]: "0 \<le> second"
  by (simp add: second_def)

end
