(* ===== verification/Http.thy ===== *)
theory Http
  imports Prelude
begin

text \<open>
  What the gateway uses of \<^verbatim>\<open>net/http\<close>: header maps with canonical keys, the request,
  the response writer and \<^verbatim>\<open>http.Error\<close>.
\<close>

section \<open>Headers\<close>

type_synonym header = "(string, string list) gomap"

text \<open>\<^verbatim>\<open>http.CanonicalHeaderKey\<close>: a key with a byte that is not a token byte is kept.\<close>

definition token_byte :: "char \<Rightarrow> bool" where
  "token_byte c \<longleftrightarrow>
     (let n = (of_char c :: nat) in
      (48 \<le> n \<and> n \<le> 57) \<or> (65 \<le> n \<and> n \<le> 90) \<or> (97 \<le> n \<and> n \<le> 122)
      \<or> n \<in> {33, 35, 36, 37, 38, 39, 42, 43, 45, 46, 94, 95, 96, 124, 126})"

fun canonical_from :: "bool \<Rightarrow> string \<Rightarrow> string" where
  "canonical_from upper [] = []"
| "canonical_from upper (c # s) =
     (let n = (of_char c :: nat);
          c' = (if upper \<and> 97 \<le> n \<and> n \<le> 122 then char_of (n - 32)
                else if \<not> upper \<and> 65 \<le> n \<and> n \<le> 90 then char_of (n + 32) else c)
      in c' # canonical_from (c' = CHR ''-'') s)"

definition canonical_key :: "string \<Rightarrow> string" where
  "canonical_key k = (if list_all token_byte k then canonical_from True k else k)"

definition header_values :: "header \<Rightarrow> string \<Rightarrow> string list" where
  "header_values h k = (case map_of h (canonical_key k) of None \<Rightarrow> [] | Some vs \<Rightarrow> vs)"

definition header_get :: "header \<Rightarrow> string \<Rightarrow> string" where
  "header_get h k = (case header_values h k of [] \<Rightarrow> [] | v # _ \<Rightarrow> v)"

definition header_set :: "string \<Rightarrow> string \<Rightarrow> header \<Rightarrow> header" where
  "header_set k v h = AList.update (canonical_key k) [v] h"

definition header_del :: "string \<Rightarrow> header \<Rightarrow> header" where
  "header_del k h = AList.delete (canonical_key k) h"

text \<open>The keys the gateway uses, as they are stored.\<close>

lemma canonical_keys [simp]:
  "canonical_key ''Authorization'' = ''Authorization''"
  "canonical_key ''Proxy-Authorization'' = ''Proxy-Authorization''"
  "canonical_key ''X-Agent-ID'' = ''X-Agent-Id''"
  "canonical_key ''WWW-Authenticate'' = ''Www-Authenticate''"
  "canonical_key ''Retry-After'' = ''Retry-After''"
  "canonical_key ''Content-Length'' = ''Content-Length''"
  "canonical_key ''Content-Type'' = ''Content-Type''"
  "canonical_key ''X-Content-Type-Options'' = ''X-Content-Type-Options''"
  "canonical_key ''X-Forwarded-For'' = ''X-Forwarded-For''"
  "canonical_key ''X-Forwarded-Host'' = ''X-Forwarded-Host''"
  "canonical_key ''X-Forwarded-Proto'' = ''X-Forwarded-Proto''"
  by code_simp+

lemma header_values_set [simp]:
  "header_values (header_set k v h) k' =
     (if canonical_key k = canonical_key k' then [v] else header_values h k')"
  by (simp add: header_values_def header_set_def update_conv)

lemma header_values_del [simp]:
  "header_values (header_del k h) k' =
     (if canonical_key k = canonical_key k' then [] else header_values h k')"
  by (simp add: header_values_def header_del_def delete_conv)

lemma header_keys_set [simp]:
  "gomap_keys (header_set k v h) = insert (canonical_key k) (gomap_keys h)"
  by (simp add: header_set_def)

lemma header_keys_del [simp]: "gomap_keys (header_del k h) = gomap_keys h - {canonical_key k}"
  by (auto simp: header_del_def AList.delete_eq)

section \<open>Requests and responses\<close>

text \<open>
  \<open>r_client_ip\<close> is the host part of \<^verbatim>\<open>RemoteAddr\<close> when it splits; \<open>r_has_body\<close> is
  \<^verbatim>\<open>req.Body != nil && req.Body != http.NoBody\<close>. Query and body bytes pass through the
  gateway unread and are not part of the model.
\<close>

record request =
  r_path :: string
  r_header :: header
  r_host :: string
  r_client_ip :: "string option"
  r_tls :: bool
  r_proto_major :: int
  r_has_body :: bool

text \<open>
  \<open>w_codes\<close> lists the codes passed to \<^verbatim>\<open>WriteHeader\<close> of the underlying writer, in
  order; \<open>w_body\<close> is what was written.
\<close>

record response_writer =
  w_header :: header
  w_codes :: "int list"
  w_body :: string

definition fresh_writer :: response_writer where
  "fresh_writer = \<lparr>w_header = [], w_codes = [], w_body = []\<rparr>"

record statusCapturingWriter =
  rec_writer :: response_writer
  rec_status :: int

definition new_recorder :: "response_writer \<Rightarrow> statusCapturingWriter" where
  "new_recorder w = \<lparr>rec_writer = w, rec_status = 200\<rparr>"

definition WriteHeader :: "int \<Rightarrow> statusCapturingWriter \<Rightarrow> statusCapturingWriter" where
  "WriteHeader code w =
     (let w1 = (if 200 \<le> code then w\<lparr>rec_status := code\<rparr> else w) in
      w1\<lparr>rec_writer := (rec_writer w1)\<lparr>w_codes := w_codes (rec_writer w1) @ [code]\<rparr>\<rparr>)"

definition rec_header_map :: "(header \<Rightarrow> header) \<Rightarrow> statusCapturingWriter \<Rightarrow> statusCapturingWriter" where
  "rec_header_map f w = w\<lparr>rec_writer := (rec_writer w)\<lparr>w_header := f (w_header (rec_writer w))\<rparr>\<rparr>"

definition rec_write :: "string \<Rightarrow> statusCapturingWriter \<Rightarrow> statusCapturingWriter" where
  "rec_write s w = w\<lparr>rec_writer := (rec_writer w)\<lparr>w_body := w_body (rec_writer w) @ s\<rparr>\<rparr>"

text \<open>What \<^verbatim>\<open>http.ResponseController\<close> reaches through the recorder: the writer of the server.\<close>

definition Unwrap :: "statusCapturingWriter \<Rightarrow> response_writer" where
  "Unwrap w = rec_writer w"

lemma Unwrap_new [simp]: "Unwrap (new_recorder w) = w"
  by (simp add: Unwrap_def new_recorder_def)

text \<open>\<^verbatim>\<open>http.Error(recorder, message, code)\<close>.\<close>

definition http_Error :: "string \<Rightarrow> int \<Rightarrow> statusCapturingWriter \<Rightarrow> statusCapturingWriter" where
  "http_Error msg code w =
     rec_write (msg @ [CHR 0x0A])
       (WriteHeader code
         (rec_header_map
           (header_set ''X-Content-Type-Options'' ''nosniff''
             \<circ> header_set ''Content-Type'' ''text/plain; charset=utf-8''
             \<circ> header_del ''Content-Length'') w))"

definition set_response_header :: "string \<Rightarrow> string \<Rightarrow> statusCapturingWriter \<Rightarrow> statusCapturingWriter" where
  "set_response_header k v = rec_header_map (header_set k v)"

lemmas recorder_defs =
  WriteHeader_def rec_header_map_def rec_write_def http_Error_def set_response_header_def
  new_recorder_def fresh_writer_def

text \<open>The recorded status is the last final code written, 200 when there was none.\<close>

lemma rec_status_fold:
  "rec_status (fold WriteHeader codes w) =
     (case filter (\<lambda>c. 200 \<le> c) codes of [] \<Rightarrow> rec_status w | _ \<Rightarrow> last (filter (\<lambda>c. 200 \<le> c) codes))"
  by (induction codes arbitrary: w) (auto simp: WriteHeader_def Let_def split: list.splits)

lemma w_codes_fold: "w_codes (rec_writer (fold WriteHeader codes w)) = w_codes (rec_writer w) @ codes"
  by (induction codes arbitrary: w) (auto simp: WriteHeader_def Let_def)

lemma http_Error_status: "200 \<le> code \<Longrightarrow> rec_status (http_Error msg code w) = code"
  by (simp add: recorder_defs)

lemma http_Error_codes: "w_codes (rec_writer (http_Error msg code w)) = w_codes (rec_writer w) @ [code]"
  by (simp add: recorder_defs Let_def)

lemma set_response_header_status [simp]:
  "rec_status (set_response_header k v w) = rec_status w"
  "w_codes (rec_writer (set_response_header k v w)) = w_codes (rec_writer w)"
  by (simp_all add: recorder_defs)

end
