(* ===== verification/Api.thy ===== *)
theory Api
  imports Prelude
begin

text \<open>
  The \<^verbatim>\<open>MCPServer\<close> API types (\<^verbatim>\<open>api/v1alpha1\<close>) and the readiness predicate that the
  controller and the gateway share. \<^verbatim>\<open>meta.FindStatusCondition\<close> belongs to apimachinery
  and is the parameter \<open>find_cond\<close>; what its documentation promises is
  \<open>finds_conditions\<close>.
\<close>

section \<open>The API types\<close>

record ServiceAccountReference =
  sa_namespace :: string
  sa_name :: string

record MCPServerSpec =
  spec_image :: string
  spec_port :: int32
  spec_tools :: "string list"
  spec_allowed :: "ServiceAccountReference list"
  spec_auth_type :: string
  spec_auth_secret_ref :: string

text \<open>\<^verbatim>\<open>metav1.Condition\<close>; a status is one of the strings True, False, Unknown.\<close>

record Condition =
  cond_type :: string
  cond_status :: string
  cond_observed :: int64
  cond_reason :: string
  cond_message :: string

record MCPServerStatus =
  st_phase :: string
  st_observed :: int64
  st_conditions :: "Condition list"

text \<open>The metadata the code reads, then spec and status.\<close>

record MCPServer =
  m_namespace :: string
  m_name :: string
  m_uid :: string
  m_generation :: int64
  m_deletion :: "time option"
  m_spec :: MCPServerSpec
  m_status :: MCPServerStatus

definition MCPServerReady :: string where
  "MCPServerReady = ''Ready''"

definition ConditionTrue :: string where "ConditionTrue = ''True''"
definition ConditionFalse :: string where "ConditionFalse = ''False''"

text \<open>\<^verbatim>\<open>(*metav1.Time).IsZero\<close>: a nil pointer or the zero time.\<close>

definition time_is_zero :: "time option \<Rightarrow> bool" where
  "time_is_zero d \<longleftrightarrow> (case d of None \<Rightarrow> True | Some t \<Rightarrow> t = 0)"

section \<open>Readiness\<close>

type_synonym condition_finder = "Condition list \<Rightarrow> string \<Rightarrow> Condition option"

text \<open>The receiver may be nil.\<close>

definition IsReady :: "condition_finder \<Rightarrow> MCPServer option \<Rightarrow> bool" where
  "IsReady find_cond m0 =
     (case m0 of
        None \<Rightarrow> False
      | Some m \<Rightarrow>
          if \<not> time_is_zero (m_deletion m) \<or> st_observed (m_status m) \<noteq> m_generation m then False
          else (case find_cond (st_conditions (m_status m)) MCPServerReady of
              None \<Rightarrow> False
            | Some c \<Rightarrow> cond_status c = ConditionTrue \<and> cond_observed c = m_generation m))"

text \<open>\<^verbatim>\<open>FindStatusCondition\<close> finds the condition of the given type, nil when there is none.\<close>

definition finds_conditions :: "condition_finder \<Rightarrow> bool" where
  "finds_conditions find_cond \<longleftrightarrow>
     (\<forall>cs t. case find_cond cs t of
        None \<Rightarrow> \<forall>c \<in> set cs. cond_type c \<noteq> t
      | Some c \<Rightarrow> c \<in> set cs \<and> cond_type c = t)"

text \<open>A finder that keeps the promise: the first condition of the type.\<close>

definition first_condition :: condition_finder where
  "first_condition cs t = List.find (\<lambda>c. cond_type c = t) cs"

lemma finds_first_condition: "finds_conditions first_condition"
  unfolding finds_conditions_def first_condition_def
  by (auto split: option.splits simp: find_Some_iff find_None_iff)

lemma finds_SomeD:
  "finds_conditions f \<Longrightarrow> f cs t = Some c \<Longrightarrow> c \<in> set cs \<and> cond_type c = t"
  unfolding finds_conditions_def by (drule spec [of _ cs], drule spec [of _ t]) simp

lemma finds_None_iff:
  "finds_conditions f \<Longrightarrow> f cs t = None \<longleftrightarrow> (\<forall>c \<in> set cs. cond_type c \<noteq> t)"
  unfolding finds_conditions_def by (drule spec [of _ cs], drule spec [of _ t]) (auto split: option.splits)

text \<open>
  With one condition per type the finder has no choice, so readiness is a statement about
  the object alone.
\<close>

definition current_ready :: "MCPServer \<Rightarrow> bool" where
  "current_ready m \<longleftrightarrow>
     time_is_zero (m_deletion m) \<and> st_observed (m_status m) = m_generation m \<and>
     (\<exists>c \<in> set (st_conditions (m_status m)). cond_type c = MCPServerReady \<and>
        cond_status c = ConditionTrue \<and> cond_observed c = m_generation m)"

lemma finds_unique:
  assumes "finds_conditions f" and "distinct (map cond_type cs)" and "c \<in> set cs"
  shows "f cs (cond_type c) = Some c"
proof (cases "f cs (cond_type c)")
  case None
  then show ?thesis using assms finds_None_iff by blast
next
  case (Some d)
  with assms finds_SomeD[OF assms(1) Some] have "d = c"
    by (metis distinct_map inj_on_def)
  with Some show ?thesis by simp
qed

lemma IsReady_sound:
  "finds_conditions f \<Longrightarrow> IsReady f (Some m) \<Longrightarrow> current_ready m"
  by (auto simp: IsReady_def current_ready_def split: if_splits option.splits dest!: finds_SomeD)

lemma IsReady_complete:
  assumes "finds_conditions f" and "distinct (map cond_type (st_conditions (m_status m)))"
    and "current_ready m"
  shows "IsReady f (Some m)"
proof -
  obtain c where "c \<in> set (st_conditions (m_status m))" and "cond_type c = MCPServerReady"
    and "cond_status c = ConditionTrue" and "cond_observed c = m_generation m"
    using assms(3) by (auto simp: current_ready_def)
  moreover from this have "f (st_conditions (m_status m)) MCPServerReady = Some c"
    using finds_unique[OF assms(1,2)] by metis
  ultimately show ?thesis using assms(3) by (simp add: IsReady_def current_ready_def)
qed

text \<open>
  A server is ready exactly when it is not being deleted, the controller has observed its
  current generation, and its Ready condition is true for that generation: a condition of an
  older generation, or one of another type, does not count.
\<close>

theorem IsReady_iff_current:
  assumes "finds_conditions f" and "distinct (map cond_type (st_conditions (m_status m)))"
  shows "IsReady f (Some m) \<longleftrightarrow> current_ready m"
  using IsReady_sound[OF assms(1)] IsReady_complete[OF assms] by blast

definition sample_condition :: Condition where
  "sample_condition = \<lparr>cond_type = ''Ready'', cond_status = ''True'', cond_observed = 2,
     cond_reason = ''Available'', cond_message = []\<rparr>"

definition sample_server :: MCPServer where
  "sample_server = \<lparr>m_namespace = ''team'', m_name = ''tools'', m_uid = ''u'', m_generation = 2,
     m_deletion = None,
     m_spec = \<lparr>spec_image = ''img'', spec_port = 8080, spec_tools = [''mcp''],
       spec_allowed = [\<lparr>sa_namespace = ''team'', sa_name = ''agent''\<rparr>], spec_auth_type = [],
       spec_auth_secret_ref = []\<rparr>,
     m_status = \<lparr>st_phase = ''Running'', st_observed = 2, st_conditions = [sample_condition]\<rparr>\<rparr>"

lemma sample_current: "current_ready sample_server"
  by (simp add: current_ready_def sample_server_def sample_condition_def time_is_zero_def
      MCPServerReady_def ConditionTrue_def)

theorem IsReady_iff_current_witness:
  "IsReady first_condition (Some sample_server)
   \<and> \<not> IsReady first_condition (Some (sample_server\<lparr>m_generation := 3\<rparr>))"
  using IsReady_iff_current[OF finds_first_condition, of sample_server]
    IsReady_iff_current[OF finds_first_condition, of "sample_server\<lparr>m_generation := 3\<rparr>"]
    sample_current
  by (simp add: sample_server_def current_ready_def)

end
