(* ===== verification/Registry.thy ===== *)
theory Registry
  imports Api
begin

text \<open>
  The gateway's live view of the \<^verbatim>\<open>MCPServer\<close> objects
  (\<^verbatim>\<open>internal/gateway/registry.go\<close>): the snapshot of backends, the polling that replaces
  it, and the resolution of a route to a backend. The Kubernetes list call is an input of
  \<open>refresh\<close>: the error it returned or the items.

  The locale \<open>server_directory\<close> is the interface the router uses: what \<open>Resolve\<close>
  answers, in terms of the entries of the snapshot.
\<close>

section \<open>Namespaced names\<close>

text \<open>\<^verbatim>\<open>types.NamespacedName\<close>, ordered by namespace and then by name.\<close>

datatype NamespacedName = NamespacedName (nn_namespace: string) (nn_name: string)

instantiation NamespacedName :: linorder
begin

definition less_eq_NamespacedName :: "NamespacedName \<Rightarrow> NamespacedName \<Rightarrow> bool" where
  "less_eq_NamespacedName a b \<longleftrightarrow>
     nn_namespace a < nn_namespace b \<or> nn_namespace a = nn_namespace b \<and> nn_name a \<le> nn_name b"

definition less_NamespacedName :: "NamespacedName \<Rightarrow> NamespacedName \<Rightarrow> bool" where
  "less_NamespacedName a b \<longleftrightarrow>
     nn_namespace a < nn_namespace b \<or> nn_namespace a = nn_namespace b \<and> nn_name a < nn_name b"

instance
  by standard
    (auto simp: less_eq_NamespacedName_def less_NamespacedName_def NamespacedName.expand)

end

section \<open>Backends\<close>

record Backend =
  b_namespace :: string
  b_name :: string
  b_address :: string
  b_ready :: bool
  b_allowed :: "ServiceAccountReference list"
  b_observed :: time

definition zero_Backend :: Backend where
  "zero_Backend = \<lparr>b_namespace = [], b_name = [], b_address = [], b_ready = False,
     b_allowed = [], b_observed = 0\<rparr>"

definition policyMaxAge :: duration where
  "policyMaxAge = 15 * second"

definition sa_username :: "ServiceAccountReference \<Rightarrow> string" where
  "sa_username a = ''system:serviceaccount:'' @ sa_namespace a @ '':'' @ sa_name a"

fun allows_loop :: "ServiceAccountReference list \<Rightarrow> string \<Rightarrow> bool" where
  "allows_loop [] agentID = False"
| "allows_loop (a # as) agentID = (if agentID = sa_username a then True else allows_loop as agentID)"

definition allows :: "Backend \<Rightarrow> string \<Rightarrow> bool" where
  "allows b agentID = allows_loop (b_allowed b) agentID"

lemma allows_iff: "allows b p \<longleftrightarrow> (\<exists>a \<in> set (b_allowed b). p = sa_username a)"
proof -
  have "allows_loop as p \<longleftrightarrow> (\<exists>a \<in> set as. p = sa_username a)" for as
    by (induction as) auto
  then show ?thesis by (simp add: allows_def)
qed

section \<open>The registry\<close>

record Registry =
  backends :: "(NamespacedName, Backend) gomap"
  synced :: bool

definition NewRegistry :: Registry where
  "NewRegistry = \<lparr>backends = [], synced = False\<rparr>"

definition backend_address :: "string \<Rightarrow> MCPServer \<Rightarrow> string" where
  "backend_address hostOverride item =
     (let port = itoa (sint (spec_port (m_spec item))) in
      if hostOverride \<noteq> [] then hostOverride @ '':'' @ port
      else m_name item @ ''-svc.'' @ m_namespace item @ ''.svc.cluster.local:'' @ port)"

definition item_key :: "MCPServer \<Rightarrow> NamespacedName" where
  "item_key item = NamespacedName (m_namespace item) (m_name item)"

definition item_backend :: "condition_finder \<Rightarrow> string \<Rightarrow> time \<Rightarrow> MCPServer \<Rightarrow> Backend" where
  "item_backend find_cond hostOverride observedAt item =
     \<lparr>b_namespace = m_namespace item, b_name = m_name item,
      b_address = backend_address hostOverride item,
      b_ready = IsReady find_cond (Some item),
      b_allowed = spec_allowed (m_spec item), b_observed = observedAt\<rparr>"

fun next_backends ::
  "condition_finder \<Rightarrow> string \<Rightarrow> time \<Rightarrow> MCPServer list \<Rightarrow> (NamespacedName, Backend) gomap
     \<Rightarrow> (NamespacedName, Backend) gomap" where
  "next_backends f host t [] m = m"
| "next_backends f host t (item # items) m =
     next_backends f host t items (AList.update (item_key item) (item_backend f host t item) m)"

text \<open>One poll: when it was started, the host override, and what the list call returned.\<close>

record poll =
  p_observed :: time
  p_host :: string
  p_list :: "string + MCPServer list"

definition refresh :: "condition_finder \<Rightarrow> poll \<Rightarrow> Registry \<Rightarrow> Registry" where
  "refresh f p r =
     (case p_list p of
        Inl e \<Rightarrow> r
      | Inr items \<Rightarrow> r\<lparr>backends := next_backends f (p_host p) (p_observed p) items [], synced := True\<rparr>)"

text \<open>\<open>Start\<close>: a refresh at once, then one per tick; the polls are the ticks so far.\<close>

fun Start :: "condition_finder \<Rightarrow> poll list \<Rightarrow> Registry \<Rightarrow> Registry" where
  "Start f [] r = r"
| "Start f (p # ps) r = Start f ps (refresh f p r)"

definition HasSynced :: "Registry \<Rightarrow> bool" where
  "HasSynced r = synced r"

fun resolve_loop :: "string \<Rightarrow> (NamespacedName, Backend) gomap \<Rightarrow> Backend \<Rightarrow> bool \<Rightarrow> go_error + Backend" where
  "resolve_loop name [] match found = (if \<not> found then Inl ErrServerNotFound else Inr match)"
| "resolve_loop name ((key, b) # rest) match found =
     (if nn_name key \<noteq> name then resolve_loop name rest match found
      else if found then Inl ErrAmbiguousServer
      else resolve_loop name rest b True)"

definition Resolve :: "Registry \<Rightarrow> string \<Rightarrow> string \<Rightarrow> go_error + Backend" where
  "Resolve r namespace name =
     (if namespace \<noteq> [] then
        (case map_of (backends r) (NamespacedName namespace name) of
           Some b \<Rightarrow> Inr b
         | None \<Rightarrow> Inl ErrServerNotFound)
      else resolve_loop name (backends r) zero_Backend False)"

section \<open>Invariant\<close>

definition registry_ok :: "Registry \<Rightarrow> bool" where
  "registry_ok r \<longleftrightarrow> gomap_ok (backends r) \<and>
     (\<forall>(k, b) \<in> set (backends r). k = NamespacedName (b_namespace b) (b_name b))"

lemma registry_ok_New: "registry_ok NewRegistry"
  by (simp add: registry_ok_def NewRegistry_def)

lemma next_backends_ok: "gomap_ok m \<Longrightarrow> gomap_ok (next_backends f h t items m)"
  by (induction items arbitrary: m) auto

lemma next_backends_map_of:
  "map_of (next_backends f h t items m) k =
     (case filter (\<lambda>i. item_key i = k) items of
        [] \<Rightarrow> map_of m k
      | is \<Rightarrow> Some (item_backend f h t (last is)))"
  by (induction items arbitrary: m) (auto simp: update_conv' split: list.splits)

lemma next_backends_SomeD:
  assumes "map_of (next_backends f h t items []) k = Some b"
  shows "\<exists>item \<in> set items. item_key item = k \<and> b = item_backend f h t item"
proof -
  let ?is = "filter (\<lambda>i. item_key i = k) items"
  have ne: "?is \<noteq> []" and b: "b = item_backend f h t (last ?is)"
    using assms by (auto simp: next_backends_map_of split: list.splits)
  have "last ?is \<in> set ?is" using ne by (rule last_in_set)
  then have "last ?is \<in> set items" and "item_key (last ?is) = k" by simp_all
  with b show ?thesis by blast
qed

lemma registry_ok_refresh: "registry_ok r \<Longrightarrow> registry_ok (refresh f p r)"
proof (cases "p_list p")
  case (Inr items)
  have ok: "gomap_ok (next_backends f (p_host p) (p_observed p) items [])"
    by (simp add: next_backends_ok)
  have "k = NamespacedName (b_namespace b) (b_name b)"
    if "(k, b) \<in> set (next_backends f (p_host p) (p_observed p) items [])" for k b
    using next_backends_SomeD[of f "p_host p" "p_observed p" items k b] that ok
    by (auto simp: map_of_in_set item_key_def item_backend_def)
  with ok Inr show ?thesis by (auto simp: refresh_def registry_ok_def)
qed (simp add: refresh_def)

lemma registry_ok_Start: "registry_ok r \<Longrightarrow> registry_ok (Start f ps r)"
  by (induction ps arbitrary: r) (auto intro: registry_ok_refresh)

section \<open>Resolution\<close>

lemma resolve_loop_eq:
  "resolve_loop name m match found =
     (let bs = (if found then [match] else []) @ map snd (filter (\<lambda>(k, b). nn_name k = name) m) in
      case bs of [] \<Rightarrow> Inl ErrServerNotFound | [b] \<Rightarrow> Inr b | _ \<Rightarrow> Inl ErrAmbiguousServer)"
  by (induction name m match found rule: resolve_loop.induct) (auto split: list.splits)

lemma Resolve_exact:
  "ns \<noteq> [] \<Longrightarrow> Resolve r ns n =
     (case map_of (backends r) (NamespacedName ns n) of None \<Rightarrow> Inl ErrServerNotFound | Some b \<Rightarrow> Inr b)"
  by (simp add: Resolve_def split: option.splits)

lemma Resolve_legacy:
  "Resolve r [] n =
     (case filter (\<lambda>(k, b). nn_name k = n) (backends r) of
        [] \<Rightarrow> Inl ErrServerNotFound | [(k, b)] \<Rightarrow> Inr b | _ \<Rightarrow> Inl ErrAmbiguousServer)"
  by (auto simp: Resolve_def resolve_loop_eq Let_def split: list.splits)

text \<open>What the three shapes of the filtered snapshot say of its keys.\<close>

lemma named_entries:
  assumes "gomap_ok m" and fs: "filter (\<lambda>(k, b). nn_name k = n) m = fs"
  shows "(k, b) \<in> set fs \<longleftrightarrow> map_of m k = Some b \<and> nn_name k = n" and "distinct (map fst fs)"
  using assms by (auto simp: map_of_in_set distinct_map_filter)

lemma legacy_none_iff:
  assumes "registry_ok r"
  shows "Resolve r [] n = Inl ErrServerNotFound \<longleftrightarrow>
    (\<forall>k. nn_name k = n \<longrightarrow> map_of (backends r) k = None)"
proof -
  have ok: "gomap_ok (backends r)" using assms by (simp add: registry_ok_def)
  obtain fs where fs: "filter (\<lambda>(k, b). nn_name k = n) (backends r) = fs" by blast
  have "Resolve r [] n = Inl ErrServerNotFound \<longleftrightarrow> fs = []"
    using fs by (auto simp: Resolve_legacy split: list.splits)
  also have "\<dots> \<longleftrightarrow> (\<forall>k. nn_name k = n \<longrightarrow> map_of (backends r) k = None)"
    using named_entries(1)[OF ok fs] by (metis list.set_intros(1) neq_Nil_conv not_Some_eq
        empty_iff list.set(1) surj_pair)
  finally show ?thesis .
qed

lemma legacy_one_iff:
  assumes "registry_ok r"
  shows "Resolve r [] n = Inr b \<longleftrightarrow>
    (\<exists>k. nn_name k = n \<and> map_of (backends r) k = Some b \<and>
       (\<forall>k'. nn_name k' = n \<longrightarrow> k' \<noteq> k \<longrightarrow> map_of (backends r) k' = None))"
proof -
  have ok: "gomap_ok (backends r)" using assms by (simp add: registry_ok_def)
  obtain fs where fs: "filter (\<lambda>(k, b). nn_name k = n) (backends r) = fs" by blast
  note mem = named_entries(1)[OF ok fs] and dist = named_entries(2)[OF ok fs]
  consider "fs = []" | k c where "fs = [(k, c)]" | k c k' c' gs where "fs = (k, c) # (k', c') # gs"
    by (metis list.exhaust surj_pair)
  then show ?thesis
  proof cases
    case 1
    with fs mem show ?thesis by (auto simp: Resolve_legacy)
  next
    case 2
    then have "k' = k" if "nn_name k' = n" and "map_of (backends r) k' \<noteq> None" for k'
      using mem that by auto
    moreover have "nn_name k = n" and "map_of (backends r) k = Some c" using mem 2 by auto
    moreover have "Resolve r [] n = Inr c" using 2 fs by (simp add: Resolve_legacy)
    ultimately show ?thesis by (metis Inr_inject option.distinct(1) option.inject)
  next
    case 3
    then have "k \<noteq> k'" and "map_of (backends r) k = Some c" and "map_of (backends r) k' = Some c'"
      and "nn_name k = n" and "nn_name k' = n"
      using mem dist by auto
    moreover have "Resolve r [] n = Inl ErrAmbiguousServer" using 3 fs by (simp add: Resolve_legacy)
    ultimately show ?thesis by (metis Inl_Inr_False option.distinct(1))
  qed
qed

lemma Resolve_errors: "Resolve r ns n = Inl e \<Longrightarrow> e = ErrServerNotFound \<or> e = ErrAmbiguousServer"
  by (cases "ns = []") (auto simp: Resolve_exact Resolve_legacy split: option.splits list.splits)

section \<open>The interface of the router\<close>

locale server_directory =
  fixes resolve :: "'r \<Rightarrow> string \<Rightarrow> string \<Rightarrow> go_error + Backend"
    and lookup :: "'r \<Rightarrow> NamespacedName \<Rightarrow> Backend option"
    and inv :: "'r \<Rightarrow> bool"
  assumes exact: "inv r \<Longrightarrow> ns \<noteq> [] \<Longrightarrow> resolve r ns n =
      (case lookup r (NamespacedName ns n) of None \<Rightarrow> Inl ErrServerNotFound | Some b \<Rightarrow> Inr b)"
    and legacy_none: "inv r \<Longrightarrow> resolve r [] n = Inl ErrServerNotFound \<longleftrightarrow>
      (\<forall>k. nn_name k = n \<longrightarrow> lookup r k = None)"
    and legacy_one: "inv r \<Longrightarrow> resolve r [] n = Inr b \<longleftrightarrow>
      (\<exists>k. nn_name k = n \<and> lookup r k = Some b \<and>
         (\<forall>k'. nn_name k' = n \<longrightarrow> k' \<noteq> k \<longrightarrow> lookup r k' = None))"
    and only_errors: "inv r \<Longrightarrow> resolve r ns n = Inl e \<Longrightarrow>
      e = ErrServerNotFound \<or> e = ErrAmbiguousServer"
    and identity: "inv r \<Longrightarrow> lookup r k = Some b \<Longrightarrow> k = NamespacedName (b_namespace b) (b_name b)"
begin

lemma resolved:
  assumes "inv r" and "resolve r ns n = Inr b"
  shows "lookup r (NamespacedName (b_namespace b) n) = Some b" and "b_name b = n"
    and "ns \<noteq> [] \<Longrightarrow> b_namespace b = ns"
proof -
  have "\<exists>k. nn_name k = n \<and> lookup r k = Some b \<and> (ns \<noteq> [] \<longrightarrow> nn_namespace k = ns)"
    using assms by (cases "ns = []")
      (auto simp: exact legacy_one split: option.splits intro: exI [of _ "NamespacedName ns n"])
  then obtain k where k: "nn_name k = n" "lookup r k = Some b" "ns \<noteq> [] \<longrightarrow> nn_namespace k = ns"
    by blast
  with identity[OF assms(1) k(2)] show "lookup r (NamespacedName (b_namespace b) n) = Some b"
    and "b_name b = n" and "ns \<noteq> [] \<Longrightarrow> b_namespace b = ns" by auto
qed

lemma legacy_agrees:
  assumes "inv r" and "resolve r [] n = Inr b" and "b_namespace b \<noteq> []"
  shows "resolve r (b_namespace b) n = Inr b"
  using assms(1,3) resolved(1)[OF assms(1,2)] by (simp add: exact)

lemma ambiguous:
  assumes "inv r"
  shows "resolve r [] n = Inl ErrAmbiguousServer \<longleftrightarrow>
    (\<exists>k k'. k \<noteq> k' \<and> nn_name k = n \<and> nn_name k' = n \<and> lookup r k \<noteq> None \<and> lookup r k' \<noteq> None)"
    (is "?l \<longleftrightarrow> ?r")
proof
  assume amb: ?l
  then obtain k where k: "nn_name k = n" "lookup r k \<noteq> None"
    using legacy_none[OF assms, of n] by auto
  then obtain b where "lookup r k = Some b" by auto
  with k amb legacy_one[OF assms, of n b] show ?r by (metis Inl_Inr_False)
next
  assume ?r
  then obtain k k' where *: "k \<noteq> k'" "nn_name k = n" "nn_name k' = n"
    "lookup r k \<noteq> None" "lookup r k' \<noteq> None" by blast
  show ?l
  proof (cases "resolve r [] n")
    case (Inl e)
    with * only_errors[OF assms Inl] legacy_none[OF assms, of n] show ?thesis by auto
  next
    case (Inr b)
    with * legacy_one[OF assms, of n b] show ?thesis by metis
  qed
qed

end

interpretation dir: server_directory Resolve "\<lambda>r. map_of (backends r)" registry_ok
  by unfold_locales
    (auto simp: Resolve_exact legacy_none_iff legacy_one_iff registry_ok_def
       dest: Resolve_errors map_of_SomeD)

section \<open>What the registry promises\<close>

text \<open>The specification of the polling: the snapshot of the last successful list.\<close>

definition poll_ok :: "poll \<Rightarrow> bool" where
  "poll_ok p \<longleftrightarrow> (case p_list p of Inl _ \<Rightarrow> False | Inr _ \<Rightarrow> True)"

definition last_poll :: "poll list \<Rightarrow> poll option" where
  "last_poll ps =
     (let qs = filter poll_ok ps in if qs = [] then None else Some (last qs))"

definition snapshot :: "condition_finder \<Rightarrow> poll option \<Rightarrow> Registry" where
  "snapshot f p = (case p of None \<Rightarrow> NewRegistry | Some q \<Rightarrow> refresh f q NewRegistry)"

lemma refresh_ok: "poll_ok p \<Longrightarrow> refresh f p r = refresh f p NewRegistry"
  by (auto simp: refresh_def poll_ok_def NewRegistry_def split: sum.splits)

lemma refresh_failed: "\<not> poll_ok p \<Longrightarrow> refresh f p r = r"
  by (auto simp: refresh_def poll_ok_def split: sum.splits)

lemma Start_append: "Start f (ps @ qs) r = Start f qs (Start f ps r)"
  by (induction ps arbitrary: r) auto

lemma last_poll_snoc: "last_poll (ps @ [p]) = (if poll_ok p then Some p else last_poll ps)"
  by (simp add: last_poll_def Let_def)

lemma last_poll_SomeD: "last_poll ps = Some p \<Longrightarrow> p \<in> set ps \<and> poll_ok p"
proof -
  assume "last_poll ps = Some p"
  then have "filter poll_ok ps \<noteq> []" and "p = last (filter poll_ok ps)"
    by (auto simp: last_poll_def Let_def split: if_splits)
  then have "p \<in> set (filter poll_ok ps)" by (metis last_in_set)
  then show ?thesis by simp
qed

lemma Start_snapshot: "Start f ps NewRegistry = snapshot f (last_poll ps)"
proof (induction ps rule: rev_induct)
  case Nil
  then show ?case by (simp add: snapshot_def last_poll_def)
next
  case (snoc p ps)
  then show ?case
    by (cases "poll_ok p")
      (auto simp: Start_append last_poll_snoc snapshot_def refresh_failed
         refresh_ok[where r = "case last_poll ps of None \<Rightarrow> NewRegistry | Some q \<Rightarrow> refresh f q NewRegistry"])
qed

text \<open>
  C21. Polling refines the specification "the snapshot of the last successful list": a failed
  list call leaves the routing snapshot as it was, a successful one replaces it as a whole.
\<close>

theorem Start_refines_last_poll: "Start f ps NewRegistry = snapshot f (last_poll ps)"
  by (rule Start_snapshot)

lemma snapshot_lookup:
  assumes "map_of (backends (snapshot f (last_poll ps))) k = Some b"
  shows "\<exists>p items item. last_poll ps = Some p \<and> p \<in> set ps \<and> p_list p = Inr items
    \<and> item \<in> set items \<and> item_key item = k \<and> b = item_backend f (p_host p) (p_observed p) item"
proof (cases "last_poll ps")
  case None
  with assms show ?thesis by (simp add: snapshot_def NewRegistry_def)
next
  case (Some p)
  with last_poll_SomeD[of ps p] obtain items where "p \<in> set ps" and items: "p_list p = Inr items"
    by (auto simp: poll_ok_def split: sum.splits)
  with Some assms have "map_of (next_backends f (p_host p) (p_observed p) items []) k = Some b"
    by (simp add: snapshot_def refresh_def)
  from next_backends_SomeD[OF this] Some \<open>p \<in> set ps\<close> items show ?thesis by blast
qed

lemma Start_ok: "registry_ok (Start f ps NewRegistry)"
  by (rule registry_ok_Start) (rule registry_ok_New)

text \<open>
  The registry reports that it has synced exactly when a list call has succeeded, and it
  stays so through later failures; before that no route resolves.
\<close>

theorem HasSynced_iff_listed:
  "(HasSynced (Start f ps NewRegistry) \<longleftrightarrow> (\<exists>p \<in> set ps. poll_ok p))
   \<and> (HasSynced (Start f ps NewRegistry) \<or> Resolve (Start f ps NewRegistry) ns n = Inl ErrServerNotFound)"
proof -
  have keep: "synced r \<Longrightarrow> synced (Start f qs r)" for r qs
    by (induction qs arbitrary: r) (auto simp: refresh_def split: sum.splits)
  have "synced (Start f qs r) \<longleftrightarrow> synced r \<or> (\<exists>p \<in> set qs. poll_ok p)" for r qs
    by (induction qs arbitrary: r) (auto simp: refresh_def poll_ok_def keep split: sum.splits)
  then have sync: "HasSynced (Start f ps NewRegistry) \<longleftrightarrow> (\<exists>p \<in> set ps. poll_ok p)"
    by (simp add: HasSynced_def NewRegistry_def)
  have "Start f qs r = r" if "\<forall>p \<in> set qs. \<not> poll_ok p" for r qs
    using that by (induction qs arbitrary: r) (auto simp: refresh_failed)
  moreover have "Resolve NewRegistry ns n = Inl ErrServerNotFound"
    by (simp add: Resolve_def NewRegistry_def)
  ultimately have "\<forall>p \<in> set ps. \<not> poll_ok p \<Longrightarrow> Resolve (Start f ps NewRegistry) ns n = Inl ErrServerNotFound"
    by presburger
  with sync show ?thesis by blast
qed

text \<open>
  The iteration order of Go's map does not matter: any permutation of the snapshot
  resolves every route to the same answer.
\<close>

theorem Resolve_order_independent:
  assumes "registry_ok r" and "mset (backends r') = mset (backends r)"
  shows "Resolve r' ns n = Resolve r ns n"
proof -
  have ok: "gomap_ok (backends r)" using assms(1) by (simp add: registry_ok_def)
  have "gomap_ok (backends r')" and "set (backends r') = set (backends r)"
    using ok assms(2) by (metis mset_eq_imp_distinct_iff mset_map, metis set_mset_mset)
  then have ok': "registry_ok r'" using assms(1) by (simp add: registry_ok_def)
  have look: "map_of (backends r') = map_of (backends r)" by (rule map_of_perm[OF ok assms(2)])
  show ?thesis
  proof (cases "ns = []")
    case False
    then show ?thesis by (simp add: dir.exact ok' assms(1) look)
  next
    case True
    show ?thesis
      using Resolve_errors legacy_none_iff[OF assms(1), of n] legacy_one_iff[OF assms(1), of n]
        legacy_none_iff[OF ok', of n] legacy_one_iff[OF ok', of n]
      unfolding True look by (cases "Resolve r' [] n"; cases "Resolve r [] n") metis+
  qed
qed

definition two_backends :: "(NamespacedName, Backend) gomap" where
  "two_backends =
     [(NamespacedName ''a'' ''s'', zero_Backend\<lparr>b_namespace := ''a'', b_name := ''s''\<rparr>),
      (NamespacedName ''b'' ''s'', zero_Backend\<lparr>b_namespace := ''b'', b_name := ''s''\<rparr>)]"

theorem Resolve_order_independent_witness:
  "Resolve \<lparr>backends = rev two_backends, synced = True\<rparr> ''b'' ''s''
     = Resolve \<lparr>backends = two_backends, synced = True\<rparr> ''b'' ''s''
   \<and> Resolve \<lparr>backends = two_backends, synced = True\<rparr> ''b'' ''s''
     = Inr (zero_Backend\<lparr>b_namespace := ''b'', b_name := ''s''\<rparr>)"
proof -
  have "registry_ok \<lparr>backends = two_backends, synced = True\<rparr>"
    by (simp add: registry_ok_def two_backends_def)
  from Resolve_order_independent[OF this, of "\<lparr>backends = rev two_backends, synced = True\<rparr>"]
  have "Resolve \<lparr>backends = rev two_backends, synced = True\<rparr> ''b'' ''s''
     = Resolve \<lparr>backends = two_backends, synced = True\<rparr> ''b'' ''s''" by simp
  then show ?thesis by (simp add: Resolve_def two_backends_def)
qed

text \<open>
  C20. A legacy name-only route cannot reach another server, or another policy, than the
  namespaced route of the server it resolved to; and a name that two namespaces register is
  refused as ambiguous, ready or not, however the snapshot is ordered.
\<close>

theorem legacy_route_is_exact:
  assumes "registry_ok r"
  shows "(\<forall>b. Resolve r [] n = Inr b \<and> b_namespace b \<noteq> [] \<longrightarrow> Resolve r (b_namespace b) n = Inr b)
    \<and> (Resolve r [] n = Inl ErrAmbiguousServer \<longleftrightarrow>
        (\<exists>k k'. k \<noteq> k' \<and> nn_name k = n \<and> nn_name k' = n \<and>
           map_of (backends r) k \<noteq> None \<and> map_of (backends r) k' \<noteq> None))"
  using dir.legacy_agrees[OF assms] dir.ambiguous[OF assms] by blast

theorem legacy_route_is_exact_witness:
  "Resolve \<lparr>backends = two_backends, synced = True\<rparr> [] ''s'' = Inl ErrAmbiguousServer
   \<and> (\<exists>k k'. k \<noteq> k' \<and> nn_name k = ''s'' \<and> nn_name k' = ''s'' \<and>
        map_of two_backends k \<noteq> None \<and> map_of two_backends k' \<noteq> None)"
proof -
  have ok: "registry_ok \<lparr>backends = two_backends, synced = True\<rparr>"
    by (simp add: registry_ok_def two_backends_def)
  have "Resolve \<lparr>backends = two_backends, synced = True\<rparr> [] ''s'' = Inl ErrAmbiguousServer"
    by (simp add: Resolve_def two_backends_def)
  with legacy_route_is_exact[OF ok, of "''s''", THEN conjunct2] show ?thesis by simp
qed

end
