(* ===== verification/Auth.thy ===== *)
theory Auth
  imports Http Registry
begin

text \<open>
  Client authentication (\<^verbatim>\<open>internal/gateway/auth.go\<close>): the bearer token of a request, the
  bounded number of token reviews in flight, and the verdict on a review. The Kubernetes
  TokenReview call is the parameter \<open>reviewer\<close> (token and audiences to a review, possibly
  nil, and an error, possibly nil); the two apimachinery name validators are the parameters
  \<open>dns_label\<close> and \<open>dns_subdomain\<close>, which list what is wrong with a name.

  The locale \<open>authenticator\<close> is Go's \<^verbatim>\<open>Authenticator\<close> interface with the laws the
  router relies on.
\<close>

section \<open>Reviews and names\<close>

record TokenReview =
  tr_authenticated :: bool
  tr_error :: string
  tr_audiences :: "string list"
  tr_uid :: string
  tr_username :: string

type_synonym reviewer = "string \<Rightarrow> string list \<Rightarrow> TokenReview option \<times> string option"
type_synonym name_check = "string \<Rightarrow> string list"

definition validServiceAccount :: "name_check \<Rightarrow> name_check \<Rightarrow> string \<Rightarrow> bool" where
  "validServiceAccount dns_label dns_subdomain username =
     (let parts = split_on CHR '':'' username in
      length parts = 4 \<and> parts ! 0 = ''system'' \<and> parts ! 1 = ''serviceaccount'' \<and>
      length (dns_label (parts ! 2)) = 0 \<and> length (dns_subdomain (parts ! 3)) = 0)"

lemma length_4_conv: "length xs = 4 \<longleftrightarrow> (\<exists>a b c d. xs = [a, b, c, d])"
  by (auto simp: numeral_eq_Suc length_Suc_conv)

lemma colons [simp]:
  "CHR '':'' \<notin> set ''system''" "CHR '':'' \<notin> set ''serviceaccount''"
  by simp_all

lemma validServiceAccount_iff:
  "validServiceAccount dl ds u \<longleftrightarrow>
     (\<exists>ns n. u = ''system:serviceaccount:'' @ ns @ '':'' @ n \<and>
        CHR '':'' \<notin> set ns \<and> CHR '':'' \<notin> set n \<and> dl ns = [] \<and> ds n = [])"
    (is "?l \<longleftrightarrow> ?r")
proof
  assume ?l
  then obtain ns n where parts: "split_on CHR '':'' u = [''system'', ''serviceaccount'', ns, n]"
    and "dl ns = []" and "ds n = []"
    by (auto simp: validServiceAccount_def Let_def length_4_conv)
  moreover have "u = join_on CHR '':'' [''system'', ''serviceaccount'', ns, n]"
    by (metis join_split parts)
  moreover have "CHR '':'' \<notin> set ns" "CHR '':'' \<notin> set n"
    using split_no_sep[of _ "CHR '':''" u] parts by simp_all
  ultimately show ?r by auto
next
  assume ?r
  then obtain ns n where u: "u = ''system:serviceaccount:'' @ ns @ '':'' @ n"
    and no: "CHR '':'' \<notin> set ns" "CHR '':'' \<notin> set n" and ok: "dl ns = []" "ds n = []" by blast
  have "split_on CHR '':'' u = [''system'', ''serviceaccount'', ns, n]"
    using no by (simp add: u split_on_append split_on_plain)
  with ok show ?l by (simp add: validServiceAccount_def)
qed

section \<open>The authenticator\<close>

text \<open>
  \<open>sa_inflight\<close> is the number of tokens in the \<^verbatim>\<open>inflight\<close> channel, whose capacity is
  \<open>inflight_cap\<close>.
\<close>

record ServiceAccountAuthenticator =
  sa_audience :: string
  sa_inflight :: nat

definition inflight_cap :: nat where
  "inflight_cap = 32"

definition NewServiceAccountAuthenticator ::
  "reviewer option \<Rightarrow> string \<Rightarrow> go_error + (reviewer \<times> ServiceAccountAuthenticator)" where
  "NewServiceAccountAuthenticator reviewer audience =
     (case reviewer of
        None \<Rightarrow> Inl (ErrOther ''token reviewer and a nonempty, unpadded audience are required'')
      | Some rv \<Rightarrow>
          if audience = [] \<or> go_trim_space audience \<noteq> audience
          then Inl (ErrOther ''token reviewer and a nonempty, unpadded audience are required'')
          else Inr (rv, \<lparr>sa_audience = audience, sa_inflight = 0\<rparr>))"

text \<open>The checks on the Authorization header, before any call: the bearer token or an error.\<close>

definition bearer_token :: "header \<Rightarrow> go_error + string" where
  "bearer_token h =
     (let headers = header_values h ''Authorization'' in
      if length headers \<noteq> 1 \<or> 16384 < length (headers ! 0) then Inl ErrUnauthenticated
      else
        (let parts = go_fields (headers ! 0) in
         if length parts \<noteq> 2 \<or> \<not> equal_fold (parts ! 0) ''Bearer'' then Inl ErrUnauthenticated
         else Inr (parts ! 1)))"

text \<open>The channel send that does not block, and the receive of the deferred function.\<close>

definition acquire :: "ServiceAccountAuthenticator \<Rightarrow> ServiceAccountAuthenticator option" where
  "acquire a = (if sa_inflight a < inflight_cap then Some (a\<lparr>sa_inflight := Suc (sa_inflight a)\<rparr>) else None)"

definition release :: "ServiceAccountAuthenticator \<Rightarrow> ServiceAccountAuthenticator" where
  "release a = a\<lparr>sa_inflight := sa_inflight a - 1\<rparr>"

type_synonym auth_result = "string \<times> go_error option"

text \<open>The verdict on what the review call returned.\<close>

definition review_verdict ::
  "name_check \<Rightarrow> name_check \<Rightarrow> string \<Rightarrow> TokenReview option \<times> string option \<Rightarrow> auth_result" where
  "review_verdict dl ds audience answer =
     (case snd answer of
        Some err \<Rightarrow> ([], Some ErrAuthenticationUnavailable)
      | None \<Rightarrow>
          (case fst answer of
             None \<Rightarrow> ([], Some ErrUnauthenticated)
           | Some review \<Rightarrow>
               if \<not> tr_authenticated review \<or> tr_error review \<noteq> [] \<or>
                  audience \<notin> set (tr_audiences review) \<or> tr_uid review = [] \<or>
                  \<not> validServiceAccount dl ds (tr_username review)
               then ([], Some ErrUnauthenticated)
               else (tr_username review, None)))"

definition Authenticate ::
  "name_check \<Rightarrow> name_check \<Rightarrow> reviewer \<Rightarrow> ServiceAccountAuthenticator \<Rightarrow> request
     \<Rightarrow> auth_result \<times> ServiceAccountAuthenticator" where
  "Authenticate dl ds reviewer a req =
     (case bearer_token (r_header req) of
        Inl e \<Rightarrow> (([], Some e), a)
      | Inr token \<Rightarrow>
          (case acquire a of
             None \<Rightarrow> (([], Some ErrAuthenticationUnavailable), a)
           | Some a1 \<Rightarrow>
               (review_verdict dl ds (sa_audience a) (reviewer token [sa_audience a]), release a1)))"

lemma release_acquire: "acquire a = Some a1 \<Longrightarrow> release a1 = a"
  by (auto simp: acquire_def release_def split: if_splits)

lemma Authenticate_state: "snd (Authenticate dl ds rv a req) = a"
  by (auto simp: Authenticate_def release_acquire split: sum.splits option.splits)

lemma bearer_token_errors: "bearer_token h = Inl e \<Longrightarrow> e = ErrUnauthenticated"
  by (auto simp: bearer_token_def Let_def split: if_splits)

lemma bearer_token_ne: "bearer_token h = Inr t \<Longrightarrow> t \<noteq> []"
proof -
  assume t: "bearer_token h = Inr t"
  let ?parts = "go_fields (header_values h ''Authorization'' ! 0)"
  have "length ?parts = 2" and "t = ?parts ! 1"
    using t by (auto simp: bearer_token_def Let_def split: if_splits)
  then have "t \<in> set ?parts" by simp
  then show "t \<noteq> []" by (rule go_fields_ne)
qed

lemma review_verdict_ok_iff:
  "review_verdict dl ds aud ans = (p, None) \<longleftrightarrow>
     (\<exists>rv. ans = (Some rv, None) \<and> tr_authenticated rv \<and> tr_error rv = [] \<and>
       aud \<in> set (tr_audiences rv) \<and> tr_uid rv \<noteq> [] \<and> validServiceAccount dl ds (tr_username rv) \<and>
       tr_username rv = p)"
  by (cases ans) (auto simp: review_verdict_def split: option.splits)

lemma review_verdict_err:
  "review_verdict dl ds aud ans = (p, Some e) \<Longrightarrow>
     p = [] \<and> (e = ErrUnauthenticated \<or> e = ErrAuthenticationUnavailable)"
  by (auto simp: review_verdict_def split: option.splits if_splits)

section \<open>The interface of the router\<close>

text \<open>
  Go's \<^verbatim>\<open>Authenticator\<close>: either a principal that is one of the valid ones and no error,
  or no principal and one of the two errors the router tells apart.
\<close>

locale authenticator =
  fixes auth :: "request \<Rightarrow> auth_result"
    and valid :: "string \<Rightarrow> bool"
  assumes verified: "auth req = (p, None) \<Longrightarrow> valid p"
    and refused: "auth req = (p, Some e) \<Longrightarrow>
      p = [] \<and> (e = ErrUnauthenticated \<or> e = ErrAuthenticationUnavailable)"
    and valid_ne: "valid p \<Longrightarrow> p \<noteq> []"
begin

lemma outcome:
  "(\<exists>p. auth req = (p, None) \<and> valid p \<and> p \<noteq> [])
   \<or> auth req = ([], Some ErrUnauthenticated)
   \<or> auth req = ([], Some ErrAuthenticationUnavailable)"
  using verified[of req] refused[of req] valid_ne
  by (cases "auth req"; cases "snd (auth req)") auto

lemma nonempty_iff: "fst (auth req) \<noteq> [] \<longleftrightarrow> snd (auth req) = None"
  using outcome[of req] by auto

end

lemma valid_ServiceAccount_ne: "validServiceAccount dl ds p \<Longrightarrow> p \<noteq> []"
  by (auto simp: validServiceAccount_iff)

interpretation sa: authenticator
  "\<lambda>req. fst (Authenticate dl ds rv a req)" "validServiceAccount dl ds"
  for dl ds rv a
  by unfold_locales
    (auto simp: Authenticate_def review_verdict_ok_iff valid_ServiceAccount_ne
       dest: review_verdict_err bearer_token_errors split: sum.splits option.splits)

section \<open>Concurrent requests\<close>

text \<open>
  The authenticator with its requests: each request either fails its header check, finds the
  channel full, or holds a slot from its start to its finish, when the review call has
  answered anything whatsoever.
\<close>

record auth_system =
  as_auth :: ServiceAccountAuthenticator
  as_running :: "(nat \<times> string) list"
  as_done :: "(nat \<times> auth_result) list"

definition auth_init :: "string \<Rightarrow> auth_system" where
  "auth_init audience = \<lparr>as_auth = \<lparr>sa_audience = audience, sa_inflight = 0\<rparr>,
     as_running = [], as_done = []\<rparr>"

inductive auth_step :: "name_check \<Rightarrow> name_check \<Rightarrow> auth_system \<Rightarrow> auth_system \<Rightarrow> bool"
  for dl ds where
  auth_reject: "bearer_token h = Inl e \<Longrightarrow>
     auth_step dl ds s (s\<lparr>as_done := (i, ([], Some e)) # as_done s\<rparr>)"
| auth_busy: "bearer_token h = Inr token \<Longrightarrow> acquire (as_auth s) = None \<Longrightarrow>
     auth_step dl ds s (s\<lparr>as_done := (i, ([], Some ErrAuthenticationUnavailable)) # as_done s\<rparr>)"
| auth_begin: "bearer_token h = Inr token \<Longrightarrow> acquire (as_auth s) = Some a \<Longrightarrow>
     auth_step dl ds s (s\<lparr>as_auth := a, as_running := (i, token) # as_running s\<rparr>)"
| auth_finish: "(i, token) \<in> set (as_running s) \<Longrightarrow>
     auth_step dl ds s (s\<lparr>as_auth := release (as_auth s),
       as_running := remove1 (i, token) (as_running s),
       as_done := (i, review_verdict dl ds (sa_audience (as_auth s)) answer) # as_done s\<rparr>)"

inductive auth_reachable :: "name_check \<Rightarrow> name_check \<Rightarrow> string \<Rightarrow> auth_system \<Rightarrow> bool"
  for dl ds audience where
  auth_start: "auth_reachable dl ds audience (auth_init audience)"
| auth_next: "auth_reachable dl ds audience s \<Longrightarrow> auth_step dl ds s t \<Longrightarrow>
     auth_reachable dl ds audience t"

inductive_cases auth_step_elim: "auth_step dl ds s t"

definition auth_inv :: "name_check \<Rightarrow> name_check \<Rightarrow> auth_system \<Rightarrow> bool" where
  "auth_inv dl ds s \<longleftrightarrow>
     sa_inflight (as_auth s) = length (as_running s) \<and>
     length (as_running s) \<le> inflight_cap \<and>
     (\<forall>(i, p, e) \<in> set (as_done s). (case e of None \<Rightarrow> validServiceAccount dl ds p | Some _ \<Rightarrow> p = []))"

lemma auth_inv_init: "auth_inv dl ds (auth_init audience)"
  by (simp add: auth_inv_def auth_init_def)

lemma review_verdict_shape:
  "case review_verdict dl ds aud ans of (p, e) \<Rightarrow>
     (case e of None \<Rightarrow> validServiceAccount dl ds p | Some _ \<Rightarrow> p = [])"
  by (auto simp: review_verdict_def split: option.splits)

lemma auth_inv_step:
  assumes "auth_step dl ds s t" and inv: "auth_inv dl ds s"
  shows "auth_inv dl ds t"
  using assms(1)
proof cases
  case (auth_begin h token a i)
  with inv show ?thesis by (auto simp: auth_inv_def acquire_def split: if_splits)
next
  case (auth_finish i token answer)
  with inv review_verdict_shape[of dl ds "sa_audience (as_auth s)" answer]
  show ?thesis by (auto simp: auth_inv_def release_def length_remove1)
qed (use inv in \<open>auto simp: auth_inv_def\<close>)

lemma auth_inv_reachable: "auth_reachable dl ds audience s \<Longrightarrow> auth_inv dl ds s"
  by (induction rule: auth_reachable.induct) (auto intro: auth_inv_init auth_inv_step)

section \<open>What the authenticator promises\<close>

text \<open>
  C6. A request is authenticated exactly when it carries one Authorization header of at most
  16384 bytes with the Bearer scheme and a token, a slot is free, and the review call
  succeeds with an authenticated, error-free review that names the gateway's audience, a
  nonempty UID and a well-formed ServiceAccount user name, which is then the principal.
\<close>

theorem Authenticate_accepts_iff:
  "fst (Authenticate dl ds reviewer a req) = (p, None) \<longleftrightarrow>
     (\<exists>value scheme token review.
        header_values (r_header req) ''Authorization'' = [value] \<and> length value \<le> 16384 \<and>
        go_fields value = [scheme, token] \<and> equal_fold scheme ''Bearer'' \<and>
        sa_inflight a < 32 \<and>
        reviewer token [sa_audience a] = (Some review, None) \<and>
        tr_authenticated review \<and> tr_error review = [] \<and>
        sa_audience a \<in> set (tr_audiences review) \<and> tr_uid review \<noteq> [] \<and>
        tr_username review = p \<and>
        (\<exists>ns n. p = ''system:serviceaccount:'' @ ns @ '':'' @ n \<and> dl ns = [] \<and> ds n = [] \<and>
           CHR '':'' \<notin> set ns \<and> CHR '':'' \<notin> set n))"
proof -
  have bearer: "bearer_token h = Inr t \<longleftrightarrow>
      (\<exists>value scheme. header_values h ''Authorization'' = [value] \<and> length value \<le> 16384 \<and>
         go_fields value = [scheme, t] \<and> equal_fold scheme ''Bearer'')" for h t
    by (auto simp: bearer_token_def Let_def length_Suc_conv numeral_2_eq_2 not_less)
  have "fst (Authenticate dl ds reviewer a req) = (p, None) \<longleftrightarrow>
      (\<exists>t. bearer_token (r_header req) = Inr t \<and> sa_inflight a < 32 \<and>
         review_verdict dl ds (sa_audience a) (reviewer t [sa_audience a]) = (p, None))"
    by (auto simp: Authenticate_def acquire_def inflight_cap_def split: sum.splits)
  then show ?thesis
    unfolding review_verdict_ok_iff bearer validServiceAccount_iff by blast
qed

text \<open>
  C27. However requests interleave and whatever the review calls answer, at most 32 reviews
  are in flight, the channel holds one token for each of them, and a finished request has
  either a valid ServiceAccount principal and no error or no principal.
\<close>

theorem reviews_bounded:
  assumes "auth_reachable dl ds audience s"
  shows "sa_inflight (as_auth s) = length (as_running s) \<and> length (as_running s) \<le> 32 \<and>
    (\<forall>(i, p, e) \<in> set (as_done s). (e = None \<longrightarrow> validServiceAccount dl ds p) \<and> (e \<noteq> None \<longrightarrow> p = []))"
  using auth_inv_reachable[OF assms]
  by (fastforce simp: auth_inv_def inflight_cap_def split: option.splits)

theorem reviews_bounded_witness:
  "\<exists>s. auth_reachable (\<lambda>_. []) (\<lambda>_. []) ''portkeeper'' s \<and> as_running s = [(7, ''tok'')] \<and>
     sa_inflight (as_auth s) = length (as_running s) \<and> length (as_running s) \<le> 32"
proof -
  let ?h = "[(''Authorization'', [''Bearer tok''])]"
  have h: "bearer_token ?h = Inr ''tok''" by code_simp
  let ?a = "\<lparr>sa_audience = ''portkeeper'', sa_inflight = 1\<rparr>"
  let ?s = "(auth_init ''portkeeper'')\<lparr>as_auth := ?a, as_running := [(7, ''tok'')]\<rparr>"
  have "auth_step (\<lambda>_. []) (\<lambda>_. []) (auth_init ''portkeeper'') ?s"
    using auth_begin[OF h, of "auth_init ''portkeeper''" ?a]
    by (simp add: auth_init_def acquire_def inflight_cap_def)
  then have r: "auth_reachable (\<lambda>_. []) (\<lambda>_. []) ''portkeeper'' ?s"
    by (rule auth_next[OF auth_start])
  have "as_running ?s = [(7, ''tok'')]" by simp
  with r reviews_bounded[OF r] show ?thesis by blast
qed

text \<open>
  The policy admits exactly the ServiceAccounts it lists: the principal of an account is
  allowed if and only if that namespace and name is an entry, so no account passes as another
  one and an empty list admits nobody. The namespaces contain no colon, as the pattern of the
  custom resource definition demands.
\<close>

theorem policy_admits_exactly_listed:
  assumes "CHR '':'' \<notin> set (sa_namespace acc)"
    and "\<forall>a \<in> set (b_allowed b). CHR '':'' \<notin> set (sa_namespace a)"
  shows "allows b (sa_username acc) \<longleftrightarrow>
    (\<exists>a \<in> set (b_allowed b). sa_namespace a = sa_namespace acc \<and> sa_name a = sa_name acc)"
proof -
  have "sa_username acc = sa_username a \<longleftrightarrow> sa_namespace acc = sa_namespace a \<and> sa_name acc = sa_name a"
    if "a \<in> set (b_allowed b)" for a
    using assms that by (simp add: sa_username_def append_sep_inj)
  then show ?thesis by (metis allows_iff)
qed

theorem policy_admits_exactly_listed_witness:
  "\<not> allows (zero_Backend\<lparr>b_allowed := [\<lparr>sa_namespace = ''team'', sa_name = ''agent''\<rparr>]\<rparr>)
       (sa_username \<lparr>sa_namespace = ''other'', sa_name = ''agent''\<rparr>)
   \<and> allows (zero_Backend\<lparr>b_allowed := [\<lparr>sa_namespace = ''team'', sa_name = ''agent''\<rparr>]\<rparr>)
       (sa_username \<lparr>sa_namespace = ''team'', sa_name = ''agent''\<rparr>)"
  using policy_admits_exactly_listed
      [of "\<lparr>sa_namespace = ''other'', sa_name = ''agent''\<rparr>"
        "zero_Backend\<lparr>b_allowed := [\<lparr>sa_namespace = ''team'', sa_name = ''agent''\<rparr>]\<rparr>"]
    policy_admits_exactly_listed
      [of "\<lparr>sa_namespace = ''team'', sa_name = ''agent''\<rparr>"
        "zero_Backend\<lparr>b_allowed := [\<lparr>sa_namespace = ''team'', sa_name = ''agent''\<rparr>]\<rparr>"]
  by simp

end
