(* ===== verification/Float64.thy ===== *)
theory Float64
  imports Prelude
begin

text \<open>
  The \<^verbatim>\<open>float64\<close> arithmetic of Go: every operation returns the exact result rounded to
  the nearest value with a 53-bit significand, ties to even (IEEE 754 binary64). The
  rounding is \<open>f64\<close>; a float operation of the source is the operation on \<^typ>\<open>real\<close>
  under \<open>f64\<close>. The exponent is not bounded; \<open>Binary64\<close> shows that the limiter
  does not notice.

  The locale \<open>float_rounding\<close> is what the clients (the rate limiter, the benchmark
  statistics) rely on; \<open>f64\<close> is shown to provide it.
\<close>

section \<open>Rounding to nearest, ties to even\<close>

definition rne :: "real \<Rightarrow> int" where
  "rne x = (let f = \<lfloor>x\<rfloor>; d = x - of_int f in
     if d < 1 / 2 then f else if d > 1 / 2 then f + 1 else if even f then f else f + 1)"

lemma rne_err: "\<bar>of_int (rne x) - x\<bar> \<le> 1 / 2"
  unfolding rne_def Let_def by (auto simp: abs_if) linarith+

lemma rne_of_int [simp]: "rne (of_int n) = n"
  by (simp add: rne_def)

lemma rne_mono:
  assumes "x \<le> y"
  shows "rne x \<le> rne y"
proof (cases "\<lfloor>x\<rfloor> = \<lfloor>y\<rfloor>")
  case True
  with assms show ?thesis by (auto simp: rne_def Let_def)
next
  case False
  with assms have "\<lfloor>x\<rfloor> + 1 \<le> \<lfloor>y\<rfloor>" using floor_mono[OF assms] by linarith
  then show ?thesis by (auto simp: rne_def Let_def)
qed

lemma rne_minus: "rne (- x) = - rne x"
proof (cases "x = of_int \<lfloor>x\<rfloor>")
  case True
  then show ?thesis by (metis of_int_minus rne_of_int)
next
  case False
  then have "\<lfloor>- x\<rfloor> = - \<lfloor>x\<rfloor> - 1" by linarith
  with False show ?thesis by (auto simp: rne_def Let_def)
qed

definition f64_exp :: "real \<Rightarrow> int" where
  "f64_exp x = \<lfloor>log 2 \<bar>x\<bar>\<rfloor>"

definition f64_ulp :: "real \<Rightarrow> real" where
  "f64_ulp x = 2 powr (of_int (f64_exp x) - 52)"

definition f64 :: "real \<Rightarrow> real" where
  "f64 x = (if x = 0 then 0 else of_int (rne (x / f64_ulp x)) * f64_ulp x)"

lemma f64_0 [simp]: "f64 0 = 0"
  by (simp add: f64_def)

lemma f64_ulp_pos [simp]: "0 < f64_ulp x"
  by (simp add: f64_ulp_def)

lemma f64_ulp_ne [simp]: "f64_ulp x \<noteq> 0"
  using f64_ulp_pos[of x] by linarith

lemma f64_minus: "f64 (- x) = - f64 x"
proof -
  have "f64_ulp (- x) = f64_ulp x" by (simp add: f64_ulp_def f64_exp_def)
  then show ?thesis by (simp add: f64_def rne_minus)
qed

lemma f64_exp_le: "x \<noteq> 0 \<Longrightarrow> 2 powr of_int (f64_exp x) \<le> \<bar>x\<bar>"
  unfolding f64_exp_def by (metis abs_ge_zero abs_eq_0 floor_correct le_less le_log_iff
      one_less_numeral_iff semiring_norm(76))

lemma f64_exp_gt: "x \<noteq> 0 \<Longrightarrow> \<bar>x\<bar> < 2 powr (of_int (f64_exp x) + 1)"
proof -
  assume "x \<noteq> 0"
  have "log 2 \<bar>x\<bar> < of_int \<lfloor>log 2 \<bar>x\<bar>\<rfloor> + 1" by linarith
  with \<open>x \<noteq> 0\<close> show ?thesis unfolding f64_exp_def by (subst (asm) log_less_iff) auto
qed

lemma f64_err: "\<bar>f64 x - x\<bar> \<le> 1 / 2 ^ 53 * \<bar>x\<bar>"
proof (cases "x = 0")
  case False
  let ?u = "f64_ulp x"
  have "f64 x - x = (of_int (rne (x / ?u)) - x / ?u) * ?u"
    using False f64_ulp_pos[of x] by (simp add: f64_def algebra_simps)
  then have "\<bar>f64 x - x\<bar> = \<bar>of_int (rne (x / ?u)) - x / ?u\<bar> * ?u"
    by (simp add: abs_mult abs_of_pos)
  also have "\<dots> \<le> 1 / 2 * ?u"
    by (intro mult_right_mono rne_err) (simp add: less_imp_le)
  also have "\<dots> = 1 / 2 ^ 53 * 2 powr of_int (f64_exp x)"
    by (simp add: f64_ulp_def powr_diff)
  also have "\<dots> \<le> 1 / 2 ^ 53 * \<bar>x\<bar>"
    using f64_exp_le[OF False] by simp
  finally show ?thesis .
qed simp

lemma f64_sandwich:
  assumes "0 < x"
  shows "2 powr of_int (f64_exp x) \<le> f64 x" and "f64 x \<le> 2 powr (of_int (f64_exp x) + 1)"
proof -
  let ?u = "f64_ulp x"
  have lo: "2 powr of_int (f64_exp x) = of_int (2 ^ 52) * ?u"
    and hi: "2 powr (of_int (f64_exp x) + 1) = of_int (2 ^ 53) * ?u"
    by (simp_all add: f64_ulp_def powr_diff powr_add)
  have "of_int (2 ^ 52) \<le> x / ?u"
    using f64_exp_le[of x] assms lo by (simp add: pos_le_divide_eq)
  then have "2 ^ 52 \<le> rne (x / ?u)" by (metis rne_mono rne_of_int)
  then have "of_int (2 ^ 52) \<le> (of_int (rne (x / ?u)) :: real)" by (simp only: of_int_le_iff)
  then show "2 powr of_int (f64_exp x) \<le> f64 x"
    unfolding lo using assms by (simp add: f64_def less_imp_le mult_right_mono)
  have "x / ?u \<le> of_int (2 ^ 53)"
    using f64_exp_gt[of x] assms hi by (simp add: pos_divide_le_eq)
  then have "rne (x / ?u) \<le> 2 ^ 53" by (metis rne_mono rne_of_int)
  then have "(of_int (rne (x / ?u)) :: real) \<le> of_int (2 ^ 53)" by (simp only: of_int_le_iff)
  then show "f64 x \<le> 2 powr (of_int (f64_exp x) + 1)"
    unfolding hi using assms by (simp add: f64_def less_imp_le mult_right_mono)
qed

lemma f64_mono_pos:
  assumes "0 < x" and "x \<le> y"
  shows "f64 x \<le> f64 y"
proof (cases "f64_exp x = f64_exp y")
  case True
  then have u: "f64_ulp y = f64_ulp x" by (simp add: f64_ulp_def)
  have "rne (x / f64_ulp x) \<le> rne (y / f64_ulp x)"
    using assms by (intro rne_mono divide_right_mono) (simp_all add: less_imp_le)
  with assms u show ?thesis by (simp add: f64_def less_imp_le mult_right_mono)
next
  case False
  have "f64_exp x \<le> f64_exp y"
    unfolding f64_exp_def using assms by (intro floor_mono) simp
  with False have "of_int (f64_exp x) + 1 \<le> (of_int (f64_exp y) :: real)" by linarith
  then have "2 powr (of_int (f64_exp x) + 1) \<le> (2 powr of_int (f64_exp y) :: real)" by simp
  with f64_sandwich(2)[of x] f64_sandwich(1)[of y] assms show ?thesis by linarith
qed

lemma f64_nonneg: "0 \<le> x \<Longrightarrow> 0 \<le> f64 x"
  using f64_sandwich(1)[of x] by (cases "x = 0") (auto intro: order_trans[rotated])

lemma f64_mono: "x \<le> y \<Longrightarrow> f64 x \<le> f64 y"
proof -
  assume le: "x \<le> y"
  consider "0 < x" | "x \<le> 0" "0 \<le> y" | "y < 0" by linarith
  then show ?thesis
  proof cases
    case 1
    then show ?thesis using le by (rule f64_mono_pos)
  next
    case 2
    then show ?thesis using f64_nonneg[of y] f64_nonneg[of "- x"] f64_minus[of x] by simp
  next
    case 3
    then show ?thesis using f64_mono_pos[of "- y" "- x"] le f64_minus[of x] f64_minus[of y] by simp
  qed
qed

text \<open>A value with a significand of 53 bits or fewer is its own rounding.\<close>

lemma f64_exact:
  assumes "\<bar>k\<bar> \<le> 2 ^ 53"
  shows "f64 (of_int k * 2 powr of_int j) = of_int k * 2 powr of_int j"
proof (cases "k = 0")
  case False
  define x where "x = of_int k * (2::real) powr of_int j"
  have x0: "x \<noteq> 0" using False by (simp add: x_def)
  have "\<exists>n :: int. x / f64_ulp x = of_int n"
  proof (cases "f64_exp x \<le> j + 52")
    case True
    define m where "m = nat (j + 52 - f64_exp x)"
    then have m: "j + 52 - f64_exp x = int m" using True by simp
    have "x / f64_ulp x = of_int k * (2 powr of_int j / 2 powr (of_int (f64_exp x) - 52))"
      by (simp add: x_def f64_ulp_def)
    also have "\<dots> = of_int k * 2 powr (of_int (j + 52 - f64_exp x))"
      by (simp flip: powr_diff add: algebra_simps)
    also have "\<dots> = of_int k * 2 ^ m"
      by (simp only: m of_int_of_nat_eq powr_realpow zero_less_numeral)
    finally show ?thesis by (metis of_int_mult of_int_numeral of_int_power)
  next
    case False
    have "2 powr of_int (f64_exp x) \<le> \<bar>of_int k\<bar> * (2::real) powr of_int j"
      using f64_exp_le[OF x0] by (simp add: x_def abs_mult)
    also have "\<dots> \<le> 2 ^ 53 * 2 powr of_int j"
      using assms by (intro mult_right_mono) (simp_all flip: of_int_abs add: of_int_le_numeral_power_cancel_iff)
    also have "\<dots> = 2 powr of_int (j + 53)" by (simp add: powr_add)
    finally have "f64_exp x \<le> j + 53" by simp
    with False have e: "f64_exp x = j + 53" by simp
    have "2 ^ 53 * 2 powr of_int j \<le> \<bar>of_int k\<bar> * (2 powr of_int j :: real)"
      using f64_exp_le[OF x0] e by (simp add: x_def abs_mult powr_add)
    then have "2 ^ 53 \<le> \<bar>k\<bar>" by (simp flip: of_int_abs)
    with assms have "\<bar>k\<bar> = 2 ^ 53" by simp
    then have "even \<bar>k\<bar>" by simp
    then have "even k" by simp
    then obtain i where i: "k = 2 * i" by (elim evenE)
    have ulp: "f64_ulp x = 2 powr (of_int j + 1)" by (simp add: f64_ulp_def e add.commute)
    have "x / f64_ulp x = of_int k * (2 powr of_int j / 2 powr (of_int j + 1))"
      by (simp only: ulp) (simp add: x_def)
    also have "\<dots> = of_int i" by (simp add: i powr_add)
    finally show ?thesis ..
  qed
  then obtain n :: int where n: "x / f64_ulp x = of_int n" ..
  then have "f64 x = of_int n * f64_ulp x" using x0 by (simp add: f64_def)
  also have "\<dots> = x" using n f64_ulp_pos[of x] by (simp add: field_simps)
  finally show ?thesis by (simp add: x_def)
qed simp

lemma f64_of_int: "\<bar>n\<bar> \<le> 2 ^ 53 \<Longrightarrow> f64 (of_int n) = of_int n"
  using f64_exact[of n 0] by simp

lemma f64_numeral [simp]: "(numeral w :: int) \<le> 2 ^ 53 \<Longrightarrow> f64 (numeral w) = numeral w"
  using f64_of_int[of "numeral w"] by simp

lemma f64_1 [simp]: "f64 1 = 1"
  using f64_of_int[of 1] by simp

text \<open>Every result of \<open>f64\<close> is representable, so rounding again changes nothing.\<close>

lemma f64_idem [simp]: "f64 (f64 x) = f64 x"
proof (cases "x = 0")
  case False
  have "\<bar>f64 x\<bar> \<le> 2 powr (of_int (f64_exp x) + 1)"
    using f64_sandwich(2)[of x] f64_sandwich(2)[of "- x"] f64_nonneg[of x] f64_nonneg[of "- x"]
      f64_minus[of x] False by (cases "0 < x") (auto simp: f64_exp_def)
  also have "\<dots> = 2 ^ 53 * f64_ulp x" by (simp add: f64_ulp_def powr_diff powr_add)
  finally have "\<bar>of_int (rne (x / f64_ulp x))\<bar> * f64_ulp x \<le> 2 ^ 53 * f64_ulp x"
    using False f64_ulp_pos[of x] by (simp add: f64_def abs_mult)
  then have "\<bar>of_int (rne (x / f64_ulp x))\<bar> \<le> (2 ^ 53 :: real)" by simp
  then have "\<bar>rne (x / f64_ulp x)\<bar> \<le> 2 ^ 53"
    by (simp flip: of_int_abs add: of_int_le_numeral_power_cancel_iff)
  from f64_exact[OF this, of "f64_exp x - 52"] False
  show ?thesis by (simp add: f64_def[of x] f64_ulp_def)
qed simp

text \<open>\<^verbatim>\<open>Duration.Seconds\<close>: whole seconds and nanoseconds, both truncated towards zero.\<close>

definition Seconds :: "(real \<Rightarrow> real) \<Rightarrow> duration \<Rightarrow> real" where
  "Seconds fl d =
     (let sec = quot_trunc d second; nsec = d - sec * second in
      fl (of_int sec + fl (of_int nsec / 1000000000)))"

section \<open>What the clients of a rounding rely on\<close>

locale float_rounding =
  fixes fl :: "real \<Rightarrow> real" and u :: real
  assumes fl_mono: "x \<le> y \<Longrightarrow> fl x \<le> fl y"
    and fl_int: "\<bar>n\<bar> \<le> 2 ^ 53 \<Longrightarrow> fl (of_int n) = of_int n"
    and fl_idem: "fl (fl x) = fl x"
    and fl_err: "\<bar>fl x - x\<bar> \<le> u * \<bar>x\<bar>"
    and u_pos: "0 < u" and u_small: "u \<le> 1 / 2 ^ 10"
begin

lemma fl_0: "fl 0 = 0"
  using fl_int[of 0] by simp

lemma fl_1: "fl 1 = 1"
  using fl_int[of 1] by simp

lemma fl_nonneg: "0 \<le> x \<Longrightarrow> 0 \<le> fl x"
  using fl_mono[of 0 x] fl_0 by simp

lemma fl_nonpos: "x \<le> 0 \<Longrightarrow> fl x \<le> 0"
  using fl_mono[of x 0] fl_0 by simp

lemma fl_upper: "0 \<le> x \<Longrightarrow> fl x \<le> (1 + u) * x"
  using fl_err[of x] by (simp add: algebra_simps abs_le_iff)

lemma fl_lower: "0 \<le> x \<Longrightarrow> (1 - u) * x \<le> fl x"
  using fl_err[of x] by (simp add: algebra_simps abs_le_iff)

end

interpretation f64: float_rounding f64 "1 / 2 ^ 53"
  by unfold_locales (rule f64_mono f64_of_int f64_idem f64_err | simp)+

end
