(* ===== verification/Limiter.thy ===== *)
theory Limiter
  imports Float64
begin

text \<open>
  The rate limiter (\<^verbatim>\<open>internal/gateway/ratelimit.go\<close>): one token bucket per agent, a bound
  on the number of buckets, and the eviction of idle, refilled buckets. The definitions take
  the rounding \<open>fl\<close> of their \<^verbatim>\<open>float64\<close> operations; the code's is \<open>f64\<close>. Products and sums
  are rounded one by one (no fused multiply-add).
\<close>

record bucket =
  tokens :: real
  last_at :: time

record AgentLimiter =
  buckets :: "(string, bucket) gomap"
  rate :: real
  burst :: real
  maxAgents :: int
  idleTTL :: duration

definition maxLimiterAgents :: int where
  "maxLimiterAgents = 10000"

definition NewAgentLimiter :: "(real \<Rightarrow> real) \<Rightarrow> real \<Rightarrow> int \<Rightarrow> AgentLimiter" where
  "NewAgentLimiter fl rps b =
     \<lparr>buckets = [], rate = rps, burst = fl (of_int b), maxAgents = maxLimiterAgents,
      idleTTL = 15 * 60 * second\<rparr>"

text \<open>\<open>x + elapsed.Seconds() * rate\<close>\<close>

definition refilled :: "(real \<Rightarrow> real) \<Rightarrow> AgentLimiter \<Rightarrow> real \<Rightarrow> duration \<Rightarrow> real" where
  "refilled fl l x elapsed = fl (x + fl (Seconds fl elapsed * rate l))"

definition evictable :: "(real \<Rightarrow> real) \<Rightarrow> AgentLimiter \<Rightarrow> time \<Rightarrow> bucket \<Rightarrow> bool" where
  "evictable fl l now existing =
     (let elapsed = time_sub now (last_at existing) in
      idleTTL l \<le> elapsed \<and> burst l \<le> refilled fl l (tokens existing) elapsed)"

fun evict_loop :: "(real \<Rightarrow> real) \<Rightarrow> AgentLimiter \<Rightarrow> time \<Rightarrow> (string, bucket) gomap \<Rightarrow> (string, bucket) gomap" where
  "evict_loop fl l now [] = []"
| "evict_loop fl l now ((agent, existing) # rest) =
     (if evictable fl l now existing then evict_loop fl l now rest
      else (agent, existing) # evict_loop fl l now rest)"

text \<open>The refill, the cap, and the token taken when there is one.\<close>

definition take_token :: "(real \<Rightarrow> real) \<Rightarrow> AgentLimiter \<Rightarrow> time \<Rightarrow> bucket \<Rightarrow> bool \<times> bucket" where
  "take_token fl l now b =
     (let t = refilled fl l (tokens b) (time_sub now (last_at b));
          t = (if burst l < t then burst l else t)
      in if t < 1 then (False, \<lparr>tokens = t, last_at = now\<rparr>)
         else (True, \<lparr>tokens = fl (t - 1), last_at = now\<rparr>))"

definition allowAt :: "(real \<Rightarrow> real) \<Rightarrow> AgentLimiter \<Rightarrow> string \<Rightarrow> time \<Rightarrow> bool \<times> AgentLimiter" where
  "allowAt fl l agentID now =
     (case map_of (buckets l) agentID of
        Some b \<Rightarrow>
          (let (ok, b') = take_token fl l now b
           in (ok, l\<lparr>buckets := AList.update agentID b' (buckets l)\<rparr>))
      | None \<Rightarrow>
          (let l1 = (if maxAgents l \<le> int (length (buckets l))
                     then l\<lparr>buckets := evict_loop fl l now (buckets l)\<rparr> else l)
           in if maxAgents l \<le> int (length (buckets l1)) then (False, l1)
              else (let (ok, b') = take_token fl l1 now \<lparr>tokens = burst l1, last_at = now\<rparr>
                    in (ok, l1\<lparr>buckets := AList.update agentID b' (buckets l1)\<rparr>))))"

section \<open>Well-formed limiters\<close>

text \<open>
  \<open>limiter_ok\<close> is kept by every call; \<open>settled now\<close> adds that no bucket was touched after
  \<open>now\<close>, which holds when the times of the calls do not decrease.
\<close>

definition limiter_ok :: "(real \<Rightarrow> real) \<Rightarrow> AgentLimiter \<Rightarrow> bool" where
  "limiter_ok fl l \<longleftrightarrow>
     gomap_ok (buckets l) \<and> int (length (buckets l)) \<le> max 0 (maxAgents l) \<and>
     fl (burst l) = burst l \<and> 0 \<le> burst l \<and> 0 < rate l \<and>
     (\<forall>(k, b) \<in> set (buckets l). tokens b \<le> burst l)"

definition settled :: "AgentLimiter \<Rightarrow> time \<Rightarrow> bool" where
  "settled l now \<longleftrightarrow> (\<forall>(k, b) \<in> set (buckets l). last_at b \<le> now \<and> 0 \<le> tokens b)"

lemma evict_loop_filter:
  "evict_loop fl l now m = filter (\<lambda>(k, b). \<not> evictable fl l now b) m"
  by (induction fl l now m rule: evict_loop.induct) auto

lemma evict_loop_subset: "set (evict_loop fl l now m) \<subseteq> set m"
  by (auto simp: evict_loop_filter)

lemma map_of_evict:
  "gomap_ok m \<Longrightarrow> map_of (evict_loop fl l now m) k =
     (case map_of m k of None \<Rightarrow> None | Some b \<Rightarrow> if evictable fl l now b then None else Some b)"
  by (simp add: evict_loop_filter map_of_filter_ok split: option.split)

lemma refilled_cong [simp]:
  "refilled fl (l\<lparr>buckets := m\<rparr>) = refilled fl l"
  "evictable fl (l\<lparr>buckets := m\<rparr>) = evictable fl l"
  "take_token fl (l\<lparr>buckets := m\<rparr>) = take_token fl l"
  by (auto simp: fun_eq_iff refilled_def evictable_def take_token_def Let_def)

text \<open>The fields no call writes.\<close>

lemma allowAt_params [simp]:
  "rate (snd (allowAt fl l a now)) = rate l"
  "burst (snd (allowAt fl l a now)) = burst l"
  "maxAgents (snd (allowAt fl l a now)) = maxAgents l"
  "idleTTL (snd (allowAt fl l a now)) = idleTTL l"
  by (auto simp: allowAt_def Let_def split: option.splits prod.splits)

text \<open>The three ways a call can go.\<close>

lemma allowAt_known:
  "map_of (buckets l) a = Some b \<Longrightarrow> allowAt fl l a now =
     (fst (take_token fl l now b),
      l\<lparr>buckets := AList.update a (snd (take_token fl l now b)) (buckets l)\<rparr>)"
  by (simp add: allowAt_def split: prod.splits)

definition after_eviction :: "(real \<Rightarrow> real) \<Rightarrow> AgentLimiter \<Rightarrow> time \<Rightarrow> AgentLimiter" where
  "after_eviction fl l now =
     (if maxAgents l \<le> int (length (buckets l))
      then l\<lparr>buckets := evict_loop fl l now (buckets l)\<rparr> else l)"

lemma allowAt_full:
  "map_of (buckets l) a = None \<Longrightarrow> maxAgents l \<le> int (length (buckets (after_eviction fl l now))) \<Longrightarrow>
     allowAt fl l a now = (False, after_eviction fl l now)"
  by (simp add: allowAt_def after_eviction_def Let_def)

lemma allowAt_new:
  "map_of (buckets l) a = None \<Longrightarrow> \<not> maxAgents l \<le> int (length (buckets (after_eviction fl l now))) \<Longrightarrow>
     allowAt fl l a now =
       (fst (take_token fl l now \<lparr>tokens = burst l, last_at = now\<rparr>),
        (after_eviction fl l now)\<lparr>buckets :=
          AList.update a (snd (take_token fl l now \<lparr>tokens = burst l, last_at = now\<rparr>))
            (buckets (after_eviction fl l now))\<rparr>)"
  by (simp add: allowAt_def after_eviction_def Let_def split: prod.splits)

lemmas allowAt_cases = allowAt_known allowAt_full allowAt_new

lemma after_eviction_simps [simp]:
  "rate (after_eviction fl l now) = rate l" "burst (after_eviction fl l now) = burst l"
  "maxAgents (after_eviction fl l now) = maxAgents l" "idleTTL (after_eviction fl l now) = idleTTL l"
  by (simp_all add: after_eviction_def)

lemma after_eviction_subset: "set (buckets (after_eviction fl l now)) \<subseteq> set (buckets l)"
  using evict_loop_subset by (auto simp: after_eviction_def)

lemma after_eviction_map_of:
  "gomap_ok (buckets l) \<Longrightarrow> map_of (buckets (after_eviction fl l now)) k =
     (case map_of (buckets l) k of None \<Rightarrow> None
      | Some b \<Rightarrow> if maxAgents l \<le> int (length (buckets l)) \<and> evictable fl l now b then None else Some b)"
  by (auto simp: after_eviction_def map_of_evict split: option.splits)

lemma after_eviction_ok: "gomap_ok (buckets l) \<Longrightarrow> gomap_ok (buckets (after_eviction fl l now))"
  by (simp add: after_eviction_def evict_loop_filter distinct_map_filter)

lemma after_eviction_length: "length (buckets (after_eviction fl l now)) \<le> length (buckets l)"
  by (simp add: after_eviction_def evict_loop_filter)

section \<open>Arithmetic of one bucket\<close>

text \<open>The budget of an agent: what its next call at \<open>now\<close> finds in the bucket.\<close>

definition budget :: "(real \<Rightarrow> real) \<Rightarrow> AgentLimiter \<Rightarrow> string \<Rightarrow> time \<Rightarrow> real" where
  "budget fl l a now =
     (case map_of (buckets l) a of
        None \<Rightarrow> burst l
      | Some b \<Rightarrow> min (burst l) (refilled fl l (tokens b) (time_sub now (last_at b))))"

text \<open>Whether the limiter has or can make a bucket for the agent.\<close>

definition has_room :: "(real \<Rightarrow> real) \<Rightarrow> AgentLimiter \<Rightarrow> string \<Rightarrow> time \<Rightarrow> bool" where
  "has_room fl l a now \<longleftrightarrow> map_of (buckets l) a \<noteq> None \<or>
     int (length (buckets (after_eviction fl l now))) < maxAgents l"

lemma take_token_eq:
  "take_token fl l now b =
     (let t = min (burst l) (refilled fl l (tokens b) (time_sub now (last_at b)))
      in if t < 1 then (False, \<lparr>tokens = t, last_at = now\<rparr>)
         else (True, \<lparr>tokens = fl (t - 1), last_at = now\<rparr>))"
  by (simp add: take_token_def Let_def min_def)

context float_rounding
begin

lemma Seconds_split:
  "0 \<le> d \<Longrightarrow> Seconds fl d = fl (of_int (d div second) + fl (of_int (d mod second) / 1000000000))"
  by (simp only: Seconds_def Let_def quot_trunc_nonneg second_pos minus_div_mult_eq_mod)

lemma Seconds_0 [simp]: "Seconds fl 0 = 0"
  by (simp add: Seconds_split fl_0)

lemma Seconds_nonneg: "0 \<le> d \<Longrightarrow> 0 \<le> Seconds fl d"
  by (simp add: Seconds_split fl_nonneg pos_imp_zdiv_nonneg_iff)

lemma frac_le_1: "0 \<le> d \<Longrightarrow> fl (of_int (d mod second) / 1000000000) \<le> 1"
  using fl_mono[of "of_int (d mod second) / 1000000000" 1] fl_1 pos_mod_bound[of second d]
  by (simp add: second_def)

lemma Seconds_mono:
  assumes "0 \<le> d" and "d \<le> e"
  shows "Seconds fl d \<le> Seconds fl e"
proof -
  have "of_int (d div second) + fl (of_int (d mod second) / 1000000000)
      \<le> of_int (e div second) + fl (of_int (e mod second) / 1000000000)"
  proof (cases "d div second = e div second")
    case True
    then have "d mod second \<le> e mod second"
      using assms by (simp add: minus_div_mult_eq_mod [symmetric])
    with True show ?thesis by (simp add: fl_mono divide_right_mono)
  next
    case False
    then have "d div second + 1 \<le> e div second"
      using zdiv_mono1[OF assms(2) second_pos] by simp
    then have "of_int (d div second) + 1 \<le> (of_int (e div second) :: real)" by linarith
    moreover have "0 \<le> fl (of_int (e mod second) / 1000000000)" by (simp add: fl_nonneg)
    ultimately show ?thesis using frac_le_1[OF assms(1)] by linarith
  qed
  with assms show ?thesis by (simp add: Seconds_split fl_mono)
qed

lemma Seconds_upper:
  assumes "0 \<le> d"
  shows "Seconds fl d \<le> (1 + u)\<^sup>2 * (of_int d / of_int second)"
proof -
  let ?n = "of_int (d mod second) / 1000000000 :: real"
  have n: "0 \<le> ?n" by simp
  have "fl ?n \<le> (1 + u) * ?n" by (rule fl_upper[OF n])
  moreover have s: "0 \<le> (of_int (d div second) :: real)"
    using assms by (simp add: pos_imp_zdiv_nonneg_iff)
  moreover have "of_int (d div second) \<le> (1 + u) * (of_int (d div second) :: real)"
    using s u_pos by (simp add: algebra_simps)
  ultimately have "of_int (d div second) + fl ?n \<le> (1 + u) * (of_int (d div second) + ?n)"
    by (simp only: distrib_left)
  moreover have "Seconds fl d \<le> (1 + u) * (of_int (d div second) + fl ?n)"
    using assms s fl_nonneg[OF n] by (simp add: Seconds_split fl_upper)
  ultimately have "Seconds fl d \<le> (1 + u) * ((1 + u) * (of_int (d div second) + ?n))"
    using u_pos by (smt (verit) mult_left_mono)
  moreover have "of_int (d div second) + ?n = of_int d / (of_int second :: real)"
  proof -
    have "(of_int d :: real) = of_int (d div second * second + d mod second)" by simp
    also have "\<dots> = of_int (d div second) * 1000000000 + of_int (d mod second)"
      by (simp only: of_int_add of_int_mult) (simp add: second_def)
    finally show ?thesis by (simp add: second_def field_simps)
  qed
  ultimately show ?thesis by (simp add: power2_eq_square mult.assoc)
qed

lemma refilled_0: "fl x = x \<Longrightarrow> refilled fl l x 0 = x"
  by (simp add: refilled_def fl_0)

lemma refilled_mono:
  assumes "0 \<le> rate l" and "0 \<le> d" and "d \<le> e"
  shows "refilled fl l x d \<le> refilled fl l x e"
  unfolding refilled_def
  using assms by (intro fl_mono add_left_mono mult_right_mono Seconds_mono)

lemma refilled_nonneg:
  "0 \<le> rate l \<Longrightarrow> 0 \<le> d \<Longrightarrow> 0 \<le> x \<Longrightarrow> 0 \<le> refilled fl l x d"
  by (simp add: refilled_def fl_nonneg Seconds_nonneg)

text \<open>The exact refill bounds the rounded one: a factor for the product, an error for the sum.\<close>

lemma refilled_upper:
  assumes "0 \<le> rate l" and "0 \<le> d" and "0 \<le> x" and "x \<le> B"
  shows "refilled fl l x d \<le> x + (1 + u) ^ 4 * (rate l * of_int d / of_int second) + u * B"
proof -
  let ?s = "Seconds fl d"
  have "0 \<le> ?s * rate l" using assms by (simp add: Seconds_nonneg)
  then have "fl (?s * rate l) \<le> (1 + u) * (?s * rate l)" and p: "0 \<le> fl (?s * rate l)"
    by (rule fl_upper, rule fl_nonneg)
  moreover have "?s * rate l \<le> (1 + u)\<^sup>2 * (of_int d / of_int second) * rate l"
    using assms Seconds_upper by (intro mult_right_mono) auto
  ultimately have "fl (?s * rate l) \<le> (1 + u) * ((1 + u)\<^sup>2 * (of_int d / of_int second) * rate l)"
    using u_pos by (smt (verit) mult_left_mono)
  then have f: "fl (?s * rate l) \<le> (1 + u) ^ 3 * (rate l * of_int d / of_int second)"
    by (simp add: power2_eq_square power3_eq_cube mult_ac)
  have "refilled fl l x d \<le> (1 + u) * (x + fl (?s * rate l))"
    unfolding refilled_def using assms p by (intro fl_upper) simp
  also have "\<dots> = x + u * x + (1 + u) * fl (?s * rate l)" by (simp add: algebra_simps)
  also have "\<dots> \<le> x + u * B + (1 + u) * ((1 + u) ^ 3 * (rate l * of_int d / of_int second))"
    using assms u_pos f by (intro add_mono mult_left_mono) auto
  finally show ?thesis by (simp add: numeral_eq_Suc mult.assoc)
qed

lemma take_token_tokens:
  assumes "fl (burst l) = burst l" and "0 \<le> burst l"
  shows "tokens (snd (take_token fl l now b)) \<le> burst l"
proof -
  let ?t = "min (burst l) (refilled fl l (tokens b) (time_sub now (last_at b)))"
  have "fl (?t - 1) \<le> fl (burst l)" by (rule fl_mono) simp
  with assms show ?thesis by (simp add: take_token_eq Let_def)
qed

lemma take_token_last [simp]: "last_at (snd (take_token fl l now b)) = now"
  by (simp add: take_token_eq Let_def)

lemma limiter_ok_allowAt:
  assumes "limiter_ok fl l"
  shows "limiter_ok fl (snd (allowAt fl l a now))"
proof (cases "map_of (buckets l) a")
  case (Some b)
  then have "a \<in> gomap_keys (buckets l)" by (force dest: map_of_SomeD)
  with Some assms show ?thesis
    by (auto simp: limiter_ok_def allowAt_known length_update_present take_token_tokens
        dest!: set_update_sub [THEN subsetD])
next
  case None
  then have new: "a \<notin> gomap_keys (buckets (after_eviction fl l now))"
    using after_eviction_subset[of fl l now] by (force simp: map_of_eq_None_iff)
  have ok: "gomap_ok (buckets (after_eviction fl l now))"
    using assms by (simp add: limiter_ok_def after_eviction_ok)
  have small: "\<forall>(k, b) \<in> set (buckets (after_eviction fl l now)). tokens b \<le> burst l"
    using assms after_eviction_subset[of fl l now] by (auto simp: limiter_ok_def)
  show ?thesis
  proof (cases "maxAgents l \<le> int (length (buckets (after_eviction fl l now)))")
    case True
    with assms ok small show ?thesis
      using after_eviction_length[of fl l now]
      by (auto simp: limiter_ok_def allowAt_full[OF None True])
  next
    case False
    with assms ok small new show ?thesis
      by (auto simp: limiter_ok_def allowAt_new[OF None False] length_update_absent
          set_update_absent take_token_tokens)
  qed
qed

text \<open>Evicting a bucket is invisible: it would have been full at every later call.\<close>

lemma evicted_is_full:
  assumes "evictable fl l now b" and "last_at b \<le> now" and "now \<le> later" and "0 \<le> rate l"
  shows "burst l \<le> refilled fl l (tokens b) (time_sub later (last_at b))"
proof -
  have "burst l \<le> refilled fl l (tokens b) (time_sub now (last_at b))"
    using assms(1) by (simp add: evictable_def Let_def)
  also have "\<dots> \<le> refilled fl l (tokens b) (time_sub later (last_at b))"
    using assms by (intro refilled_mono time_sub_nonneg time_sub_mono)
  finally show ?thesis .
qed

lemma after_eviction_budget:
  assumes "limiter_ok fl l" and "settled l now" and "now \<le> later"
  shows "budget fl (after_eviction fl l now) a later = budget fl l a later"
proof (cases "map_of (buckets l) a")
  case (Some b)
  then have last: "last_at b \<le> now" using assms(2) by (auto simp: settled_def dest!: map_of_SomeD)
  have "gomap_ok (buckets l)" and "0 \<le> rate l" using assms(1) by (auto simp: limiter_ok_def)
  with Some evicted_is_full[OF _ last assms(3)] show ?thesis
    by (auto simp: budget_def after_eviction_map_of refilled_def min_def)
next
  case None
  with assms(1) show ?thesis by (simp add: budget_def after_eviction_map_of limiter_ok_def)
qed

lemma budget_frame:
  assumes "limiter_ok fl l" and "settled l now" and "now \<le> later" and "a' \<noteq> a"
  shows "budget fl (snd (allowAt fl l a now)) a' later = budget fl l a' later"
proof -
  have upd: "budget fl (l'\<lparr>buckets := AList.update a b (buckets l')\<rparr>) a' later = budget fl l' a' later"
    for l' b using assms(4) by (simp add: budget_def update_conv' split: option.split)
  show ?thesis
    using after_eviction_budget[OF assms(1-3), of a']
    by (cases "map_of (buckets l) a";
        cases "maxAgents l \<le> int (length (buckets (after_eviction fl l now)))")
      (simp_all add: allowAt_cases upd)
qed

lemma budget_at_call:
  "map_of (buckets l) a = Some b \<Longrightarrow>
     take_token fl l now b =
       (if budget fl l a now < 1 then (False, \<lparr>tokens = budget fl l a now, last_at = now\<rparr>)
        else (True, \<lparr>tokens = fl (budget fl l a now - 1), last_at = now\<rparr>))"
  by (simp add: take_token_eq budget_def Let_def)

lemma budget_at_first_call:
  "fl (burst l) = burst l \<Longrightarrow> map_of (buckets l) a = None \<Longrightarrow>
     take_token fl l now \<lparr>tokens = burst l, last_at = now\<rparr> =
       (if budget fl l a now < 1 then (False, \<lparr>tokens = budget fl l a now, last_at = now\<rparr>)
        else (True, \<lparr>tokens = fl (budget fl l a now - 1), last_at = now\<rparr>))"
  by (simp add: take_token_eq budget_def refilled_0)

lemma allowAt_room:
  assumes "limiter_ok fl l" and "has_room fl l a now"
  shows "fst (allowAt fl l a now) \<longleftrightarrow> 1 \<le> budget fl l a now"
    and "map_of (buckets (snd (allowAt fl l a now))) a =
      Some \<lparr>tokens = (if budget fl l a now < 1 then budget fl l a now else fl (budget fl l a now - 1)),
            last_at = now\<rparr>"
  using assms budget_at_call[of l a _ now] budget_at_first_call[of l a now]
  by (cases "map_of (buckets l) a";
      auto simp: has_room_def limiter_ok_def allowAt_known allowAt_new not_le update_conv')+

lemma allowAt_no_room:
  assumes "\<not> has_room fl l a now"
  shows "\<not> fst (allowAt fl l a now)" and "map_of (buckets l) a = None"
    and "snd (allowAt fl l a now) = after_eviction fl l now"
  using assms by (auto simp: has_room_def not_less allowAt_full)

lemma budget_nonneg:
  assumes "limiter_ok fl l" and "settled l now"
  shows "0 \<le> budget fl l a now"
proof (cases "map_of (buckets l) a")
  case (Some b)
  then have "last_at b \<le> now" and "0 \<le> tokens b"
    using assms(2) by (auto simp: settled_def dest!: map_of_SomeD)
  moreover have "0 \<le> rate l" "0 \<le> burst l" using assms(1) by (auto simp: limiter_ok_def)
  ultimately show ?thesis using Some by (simp add: budget_def refilled_nonneg time_sub_nonneg)
qed (use assms in \<open>simp add: budget_def limiter_ok_def\<close>)

lemma settled_mono: "settled l now \<Longrightarrow> now \<le> later \<Longrightarrow> settled l later"
  by (fastforce simp: settled_def)

lemma settled_after_eviction: "settled l now \<Longrightarrow> settled (after_eviction fl l now) now"
  using after_eviction_subset[of fl l now] by (fastforce simp: settled_def)

lemma settled_update:
  "settled l now \<Longrightarrow> last_at b \<le> now \<Longrightarrow> 0 \<le> tokens b \<Longrightarrow>
     settled (l\<lparr>buckets := AList.update a b (buckets l)\<rparr>) now"
  by (fastforce simp: settled_def dest!: set_update_sub [THEN subsetD])

lemma settled_allowAt:
  assumes "limiter_ok fl l" and "settled l now"
  shows "settled (snd (allowAt fl l a now)) now"
proof -
  let ?B = "budget fl l a now"
  let ?b = "\<lparr>tokens = (if ?B < 1 then ?B else fl (?B - 1)), last_at = now\<rparr>"
  have pos: "0 \<le> tokens ?b" using budget_nonneg[OF assms] by (simp add: fl_nonneg)
  have fix_burst: "fl (burst l) = burst l" using assms(1) by (simp add: limiter_ok_def)
  consider b where "map_of (buckets l) a = Some b"
    | "map_of (buckets l) a = None" "maxAgents l \<le> int (length (buckets (after_eviction fl l now)))"
    | "map_of (buckets l) a = None" "\<not> maxAgents l \<le> int (length (buckets (after_eviction fl l now)))"
    by blast
  then show ?thesis
  proof cases
    case 1
    then show ?thesis
      using settled_update[OF assms(2), of ?b a] pos
      by (simp add: allowAt_known budget_at_call split: if_splits)
  next
    case 2
    then show ?thesis by (simp add: allowAt_full settled_after_eviction assms(2))
  next
    case 3
    then show ?thesis
      using settled_update[OF settled_after_eviction[OF assms(2)], of ?b a] pos
      by (simp add: allowAt_new budget_at_first_call[OF fix_burst] split: if_splits)
  qed
qed

end

section \<open>Runs of calls\<close>

text \<open>A run of calls \<open>(agent, time)\<close> and the grants of one agent in it.\<close>

fun run_calls :: "(real \<Rightarrow> real) \<Rightarrow> AgentLimiter \<Rightarrow> (string \<times> time) list \<Rightarrow> bool list \<times> AgentLimiter" where
  "run_calls fl l [] = ([], l)"
| "run_calls fl l ((a, t) # cs) =
     (let (ok, l1) = allowAt fl l a t; (oks, l2) = run_calls fl l1 cs in (ok # oks, l2))"

fun count_granted :: "string \<Rightarrow> (string \<times> time) list \<Rightarrow> bool list \<Rightarrow> nat" where
  "count_granted a ((a', t) # cs) (ok # oks) =
     (if a' = a \<and> ok then 1 else 0) + count_granted a cs oks"
| "count_granted a _ _ = 0"

definition calls_by :: "string \<Rightarrow> (string \<times> time) list \<Rightarrow> nat" where
  "calls_by a cs = length (filter (\<lambda>(a', t). a' = a) cs)"

lemma run_calls_Cons:
  "run_calls fl l ((a, t) # cs) =
     (fst (allowAt fl l a t) # fst (run_calls fl (snd (allowAt fl l a t)) cs),
      snd (run_calls fl (snd (allowAt fl l a t)) cs))"
  by (simp split: prod.splits)

declare run_calls.simps(2) [simp del]

context float_rounding
begin

lemma run_ok: "limiter_ok fl l \<Longrightarrow> limiter_ok fl (snd (run_calls fl l cs))"
  by (induction cs arbitrary: l) (auto simp: run_calls_Cons limiter_ok_allowAt)

text \<open>
  \<open>budget_within l t x a\<close>: from \<open>t\<close> on, the budget of the agent is at most \<open>x\<close> plus
  the refill since \<open>t\<close>, up to one rounding error.
\<close>

definition budget_within :: "AgentLimiter \<Rightarrow> time \<Rightarrow> real \<Rightarrow> string \<Rightarrow> bool" where
  "budget_within l t x a \<longleftrightarrow> (\<forall>later \<ge> t. budget fl l a later
     \<le> x + (1 + u) ^ 4 * (rate l * of_int (later - t) / of_int second) + u * burst l)"

lemma budget_le_burst: "budget fl l a now \<le> burst l"
  by (auto simp: budget_def split: option.split)

lemma refill_term_nonneg:
  "0 \<le> rate l \<Longrightarrow> s \<le> t \<Longrightarrow> 0 \<le> (1 + u) ^ 4 * (rate l * of_int (t - s) / of_int second)"
  using u_pos second_pos by (intro mult_nonneg_nonneg divide_nonneg_nonneg) simp_all

lemma refill_term_add:
  "(1 + u) ^ 4 * (r * of_int (t - s) / of_int second) + (1 + u) ^ 4 * (r * of_int (v - t) / of_int second)
     = (1 + u) ^ 4 * (r * of_int (v - s) / of_int second)"
  by (simp add: algebra_simps add_divide_distrib diff_divide_distrib)

lemma budget_within_later:
  assumes "budget_within l s x a" and "s \<le> t"
    and "\<And>later. t \<le> later \<Longrightarrow> budget fl l' a later = budget fl l a later"
    and "rate l' = rate l" and "burst l' = burst l"
  shows "budget_within l' t (x + (1 + u) ^ 4 * (rate l * of_int (t - s) / of_int second)) a"
  unfolding budget_within_def
proof (intro allI impI)
  fix later
  assume "t \<le> later"
  with assms have "budget fl l' a later
      \<le> x + (1 + u) ^ 4 * (rate l * of_int (later - s) / of_int second) + u * burst l"
    by (simp add: budget_within_def)
  then show "budget fl l' a later
      \<le> x + (1 + u) ^ 4 * (rate l * of_int (t - s) / of_int second)
        + (1 + u) ^ 4 * (rate l' * of_int (later - t) / of_int second) + u * burst l'"
    using assms(4,5) refill_term_add[of "rate l" t s later] by simp
qed

lemma budget_within_bucket:
  assumes "limiter_ok fl l" and "map_of (buckets l) a = Some \<lparr>tokens = x, last_at = t\<rparr>" and "0 \<le> x"
  shows "budget_within l t x a"
  unfolding budget_within_def
proof (intro allI impI)
  fix later
  assume "t \<le> later"
  have xB: "x \<le> burst l" and r: "0 \<le> rate l"
    using assms(1) map_of_SomeD[OF assms(2)] by (auto simp: limiter_ok_def)
  have "budget fl l a later \<le> refilled fl l x (time_sub later t)"
    using assms(2) by (simp add: budget_def)
  also have "\<dots> \<le> x + (1 + u) ^ 4 * (rate l * of_int (time_sub later t) / of_int second) + u * burst l"
    using \<open>t \<le> later\<close> assms(3) xB r by (intro refilled_upper time_sub_nonneg)
  also have "\<dots> \<le> x + (1 + u) ^ 4 * (rate l * of_int (later - t) / of_int second) + u * burst l"
    using \<open>t \<le> later\<close> r u_pos second_pos time_sub_le'[OF \<open>t \<le> later\<close>]
    by (intro add_mono mult_left_mono divide_right_mono) auto
  finally show "budget fl l a later
      \<le> x + (1 + u) ^ 4 * (rate l * of_int (later - t) / of_int second) + u * burst l" .
qed

text \<open>
  The grants of one agent in a run of calls with nondecreasing times, whatever the other
  agents do and whatever is evicted.
\<close>

lemma grants_within:
  assumes "limiter_ok fl l" and "settled l t0" and "budget_within l t0 x a" and "0 \<le> x"
    and "sorted (map snd cs)" and "\<forall>(a', t) \<in> set cs. t0 \<le> t \<and> t \<le> t1" and "t0 \<le> t1"
  shows "of_nat (count_granted a cs (fst (run_calls fl l cs)))
    \<le> x + (1 + u) ^ 4 * (rate l * of_int (t1 - t0) / of_int second)
      + 2 * u * burst l * of_nat (calls_by a cs)"
  using assms
proof (induction cs arbitrary: l t0 x)
  case Nil
  then show ?case using refill_term_nonneg[of l t0 t1] by (simp add: calls_by_def limiter_ok_def)
next
  case (Cons c cs)
  obtain a' t where c: "c = (a', t)" by (cases c)
  let ?l = "snd (allowAt fl l a' t)"
  let ?K = "\<lambda>s v. (1 + u) ^ 4 * (rate l * of_int (v - s) / of_int second)"
  have t: "t0 \<le> t" "t \<le> t1" and srt: "sorted (map snd cs)"
    and win: "\<forall>(a', s) \<in> set cs. t \<le> s \<and> s \<le> t1"
    using Cons.prems(5,6) c by auto
  have set_t: "settled l t" using settled_mono[OF Cons.prems(2) t(1)] .
  have ok: "limiter_ok fl ?l" and st: "settled ?l t"
    using limiter_ok_allowAt[OF Cons.prems(1)] settled_allowAt[OF Cons.prems(1) set_t] by auto
  have r: "0 \<le> rate l" and B: "0 \<le> burst l" using Cons.prems(1) by (auto simp: limiter_ok_def)
  note IH = Cons.IH[OF ok st _ _ srt win t(2), simplified]
  have uB: "0 \<le> u * burst l" using u_pos B by simp
  show ?case
  proof (cases "a' = a \<and> has_room fl l a t")
    case False
    have "budget fl ?l a later = budget fl l a later" if "t \<le> later" for later
    proof (cases "a' = a")
      case True
      with False show ?thesis
        using after_eviction_budget[OF Cons.prems(1) set_t that] by (simp add: allowAt_no_room)
    qed (use budget_frame[OF Cons.prems(1) set_t that] in auto)
    from budget_within_later[OF Cons.prems(3) t(1) this] have "budget_within ?l t (x + ?K t0 t) a"
      by simp
    from IH[OF this] have "of_nat (count_granted a cs (fst (run_calls fl ?l cs)))
        \<le> x + ?K t0 t + ?K t t1 + 2 * u * burst l * of_nat (calls_by a cs)"
      using Cons.prems(4) refill_term_nonneg[OF r t(1)] by simp
    moreover have "\<not> (a' = a \<and> fst (allowAt fl l a' t))" using False allowAt_no_room(1) by auto
    then have "count_granted a (c # cs) (fst (run_calls fl l (c # cs))) = count_granted a cs (fst (run_calls fl ?l cs))"
      by (auto simp: c run_calls_Cons)
    moreover have "2 * u * burst l * of_nat (calls_by a cs) \<le> 2 * u * burst l * of_nat (calls_by a (c # cs))"
      using uB by (intro mult_left_mono) (auto simp: calls_by_def)
    ultimately show ?thesis using refill_term_add[of "rate l" t t0 t1] by linarith
  next
    case True
    let ?\<beta> = "budget fl l a t"
    let ?x = "if ?\<beta> < 1 then ?\<beta> else fl (?\<beta> - 1)"
    have \<beta>: "0 \<le> ?\<beta>" "?\<beta> \<le> burst l" using budget_nonneg[OF Cons.prems(1) set_t] budget_le_burst by auto
    have x0: "0 \<le> ?x" using \<beta> by (simp add: fl_nonneg)
    have "map_of (buckets ?l) a = Some \<lparr>tokens = ?x, last_at = t\<rparr>"
      using allowAt_room(2)[OF Cons.prems(1), of a t] True by simp
    from budget_within_bucket[OF ok this x0] have "budget_within ?l t ?x a" .
    from IH[OF this x0] have ih: "of_nat (count_granted a cs (fst (run_calls fl ?l cs)))
        \<le> ?x + ?K t t1 + 2 * u * burst l * of_nat (calls_by a cs)" by simp
    have grant: "(if fst (allowAt fl l a t) then 1 else 0) + ?x \<le> ?\<beta> + u * burst l"
    proof (cases "?\<beta> < 1")
      case False
      then have "fl (?\<beta> - 1) \<le> (?\<beta> - 1) + u * (?\<beta> - 1)" using fl_upper[of "?\<beta> - 1"] by (simp add: algebra_simps)
      moreover have "u * (?\<beta> - 1) \<le> u * burst l" using u_pos \<beta> by (intro mult_left_mono) auto
      ultimately show ?thesis using False allowAt_room(1)[OF Cons.prems(1), of a t] True by simp
    qed (use uB allowAt_room(1)[OF Cons.prems(1), of a t] True in simp)
    have "?\<beta> \<le> x + ?K t0 t + u * burst l" using Cons.prems(3) t(1) by (simp add: budget_within_def)
    with ih grant True show ?thesis
      using refill_term_add[of "rate l" t t0 t1]
      by (simp add: c run_calls_Cons calls_by_def algebra_simps split: if_splits)
  qed
qed

end

section \<open>The interface of the router\<close>

text \<open>
  A limiter with a budget per agent: a call is granted only from a budget of one token or
  more, and never changes what another agent can spend, now or later.
\<close>

locale agent_limiter =
  fixes allow :: "'s \<Rightarrow> string \<Rightarrow> time \<Rightarrow> bool \<times> 's"
    and avail :: "'s \<Rightarrow> string \<Rightarrow> time \<Rightarrow> real"
    and inv :: "'s \<Rightarrow> time \<Rightarrow> bool"
  assumes inv_step: "inv s now \<Longrightarrow> inv (snd (allow s a now)) now"
    and inv_later: "inv s now \<Longrightarrow> now \<le> later \<Longrightarrow> inv s later"
    and granted: "inv s now \<Longrightarrow> fst (allow s a now) \<Longrightarrow> 1 \<le> avail s a now"
    and frame: "inv s now \<Longrightarrow> now \<le> later \<Longrightarrow> a' \<noteq> a \<Longrightarrow>
      avail (snd (allow s a now)) a' later = avail s a' later"
begin

lemma isolated_run:
  assumes "inv s t0" and "sorted (map snd cs)" and "\<forall>(a', t) \<in> set cs. t0 \<le> t \<and> a' \<noteq> a"
    and "\<forall>(a', t) \<in> set cs. t \<le> later" and "t0 \<le> later"
  shows "avail (foldl (\<lambda>s (a, t). snd (allow s a t)) s cs) a later = avail s a later"
  using assms
proof (induction cs arbitrary: s t0)
  case (Cons c cs)
  obtain a' t where c: "c = (a', t)" by (cases c)
  from Cons.prems c have "inv s t" and "a \<noteq> a'" and "t \<le> later"
    by (auto intro: inv_later)
  then have "avail (snd (allow s a' t)) a later = avail s a later" by (simp add: frame)
  moreover have "avail (foldl (\<lambda>s (a, t). snd (allow s a t)) (snd (allow s a' t)) cs) a later
      = avail (snd (allow s a' t)) a later"
    using Cons.prems c by (intro Cons.IH[of _ t] inv_step \<open>inv s t\<close>) auto
  ultimately show ?case by (simp add: c)
qed simp

end

lemma granted_budget:
  assumes "limiter_ok f64 l" and "fst (allowAt f64 l a now)"
  shows "1 \<le> budget f64 l a now"
  using assms f64.allowAt_room(1)[of l a now] f64.allowAt_no_room(1)[of l a now] by blast

interpretation lim: agent_limiter "allowAt f64" "budget f64" "\<lambda>l now. limiter_ok f64 l \<and> settled l now"
  by unfold_locales
    (auto intro: f64.limiter_ok_allowAt f64.settled_allowAt f64.settled_mono granted_budget f64.budget_frame)

lemma New_ok: "0 < rps \<Longrightarrow> 0 \<le> b \<Longrightarrow> limiter_ok f64 (NewAgentLimiter f64 rps b)"
  by (simp add: limiter_ok_def NewAgentLimiter_def maxLimiterAgents_def f64_nonneg)

lemma New_settled: "settled (NewAgentLimiter f64 rps b) now"
  by (simp add: settled_def NewAgentLimiter_def)

lemma run_calls_foldl:
  "snd (run_calls fl l cs) = foldl (\<lambda>l (a, t). snd (allowAt fl l a t)) l cs"
  by (induction cs arbitrary: l) (auto simp: run_calls_Cons)

section \<open>What the limiter promises\<close>

text \<open>
  C9. \<open>allowAt\<close> implements a token bucket per agent with unbounded memory: the answer is
  whether the agent's budget has a token, except that an unknown agent is refused when no
  bucket can be freed; a granted call leaves the budget one token lower and a refused one
  as it was; and no call changes the budget of any other agent at any later time, although
  it may evict that agent's bucket.
\<close>

theorem allowAt_refines_budgets:
  assumes "limiter_ok f64 l" and "settled l now"
  shows "(fst (allowAt f64 l a now) \<longleftrightarrow> has_room f64 l a now \<and> 1 \<le> budget f64 l a now)
    \<and> (has_room f64 l a now \<longrightarrow>
        map_of (buckets (snd (allowAt f64 l a now))) a =
          Some \<lparr>tokens = (if fst (allowAt f64 l a now) then f64 (budget f64 l a now - 1)
                          else budget f64 l a now), last_at = now\<rparr>)
    \<and> (\<forall>a' later. a' \<noteq> a \<longrightarrow> now \<le> later \<longrightarrow>
        budget f64 (snd (allowAt f64 l a now)) a' later = budget f64 l a' later)"
  using f64.allowAt_room[OF assms(1), of a now] f64.allowAt_no_room(1)[of l a now]
    f64.budget_frame[OF assms] by (auto simp: not_less)

theorem allowAt_refines_budgets_witness:
  "fst (allowAt f64 (NewAgentLimiter f64 5 10) ''agent'' 0) \<longleftrightarrow>
     has_room f64 (NewAgentLimiter f64 5 10) ''agent'' 0 \<and>
     1 \<le> budget f64 (NewAgentLimiter f64 5 10) ''agent'' 0"
  using allowAt_refines_budgets[OF New_ok New_settled, of 5 10 "''agent''" 0] by simp

text \<open>
  The rate limit: in any run of calls with nondecreasing times, between \<open>t0\<close> and \<open>t1\<close>,
  by any number of agents and with any evictions, one agent is granted at most its burst plus
  its rate times the length of the interval, up to the rounding of the \<^verbatim>\<open>float64\<close>
  operations: a factor of \<open>(1 + 2^-53)^4\<close> on the refill and an error of \<open>burst / 2^52\<close> for each
  of the agent's calls.
\<close>

theorem grants_bounded:
  assumes "limiter_ok f64 l" and "settled l t0" and "sorted (map snd cs)"
    and "\<forall>(a', t) \<in> set cs. t0 \<le> t \<and> t \<le> t1" and "t0 \<le> t1"
  shows "real (count_granted a cs (fst (run_calls f64 l cs)))
    \<le> burst l + (1 + 1 / 2 ^ 53) ^ 4 * (rate l * real_of_int (t1 - t0) / real_of_int second)
      + burst l / 2 ^ 52 * real (calls_by a cs)"
proof -
  have r: "0 \<le> rate l" and B: "0 \<le> burst l" using assms(1) by (auto simp: limiter_ok_def)
  have "f64.budget_within l t0 (burst l) a"
    unfolding f64.budget_within_def
  proof (intro allI impI)
    fix later
    assume "t0 \<le> later"
    from f64.refill_term_nonneg[OF r this] f64.budget_le_burst[of l a later] B
    show "budget f64 l a later \<le> burst l + (1 + 1 / 2 ^ 53) ^ 4
        * (rate l * real_of_int (later - t0) / real_of_int second) + 1 / 2 ^ 53 * burst l" by simp
  qed
  from f64.grants_within[OF assms(1,2) this B assms(3-5)] show ?thesis by simp
qed

theorem grants_bounded_witness:
  "count_granted ''agent'' (replicate 12 (''agent'', 0))
     (fst (run_calls f64 (NewAgentLimiter f64 5 10) (replicate 12 (''agent'', 0)))) \<le> 10"
proof -
  have "real (count_granted ''agent'' (replicate 12 (''agent'', 0))
      (fst (run_calls f64 (NewAgentLimiter f64 5 10) (replicate 12 (''agent'', 0))))) < 11"
    using grants_bounded[OF New_ok New_settled, of 5 10 "replicate 12 (''agent'', 0)" 0 0 "''agent''"]
    by (simp add: NewAgentLimiter_def calls_by_def sorted_replicate)
  then show ?thesis by simp
qed

text \<open>
  The memory bound: after any calls at any times, a new limiter holds at most 10000
  buckets, one per agent, none with more tokens than the burst.
\<close>

theorem limiter_memory_bounded:
  assumes "0 < rps" and "1 \<le> b"
  shows "let l = snd (run_calls f64 (NewAgentLimiter f64 rps b) cs) in
    length (buckets l) \<le> 10000 \<and> gomap_ok (buckets l) \<and>
    (\<forall>(a, bk) \<in> set (buckets l). tokens bk \<le> burst l)"
proof -
  have "maxAgents (snd (run_calls f64 l cs)) = maxAgents l" for l
    by (induction cs arbitrary: l) (auto simp: run_calls_Cons)
  with f64.run_ok[OF New_ok, of rps b cs] assms show ?thesis
    by (simp add: Let_def limiter_ok_def NewAgentLimiter_def maxLimiterAgents_def)
qed

theorem limiter_memory_bounded_witness:
  "length (buckets (snd (run_calls f64 (NewAgentLimiter f64 5 10) [(''a'', 3), (''b'', 1)]))) \<le> 10000"
  using limiter_memory_bounded[of 5 10 "[(''a'', 3), (''b'', 1)]"] by (simp add: Let_def)

text \<open>
  Isolation: whatever calls the other agents make, and whatever is evicted for them, an
  agent that makes none finds its budget untouched.
\<close>

theorem other_agents_cannot_spend:
  assumes "limiter_ok f64 l" and "settled l t0" and "sorted (map snd cs)"
    and "\<forall>(a', t) \<in> set cs. t0 \<le> t \<and> t \<le> later \<and> a' \<noteq> a" and "t0 \<le> later"
  shows "budget f64 (snd (run_calls f64 l cs)) a later = budget f64 l a later"
  unfolding run_calls_foldl
  using assms by (intro lim.isolated_run[of l t0]) auto

theorem other_agents_cannot_spend_witness:
  "budget f64 (snd (run_calls f64 (NewAgentLimiter f64 5 10) [(''x'', 1), (''y'', 2)])) ''a'' 3
     = budget f64 (NewAgentLimiter f64 5 10) ''a'' 3"
  using other_agents_cannot_spend[OF New_ok New_settled, of 5 10 "[(''x'', 1), (''y'', 2)]" 0 3 "''a''"]
  by simp

end
