(* ===== verification/Metrics.thy ===== *)
theory Metrics
  imports Limiter Registry
begin

text \<open>
  The gateway's metrics (\<^verbatim>\<open>internal/gateway/metrics.go\<close>): the bounded label sets, the label
  of a backend, an endpoint and a status, and the calls to the Prometheus client. The client
  library is not part of the repository: what the gateway does to it is the sequence of
  events it calls for, and a series is a distinct label tuple of these events.

  The locale \<open>label_admission\<close> is the interface of a bounded label set: its client lemmas
  bound the labels that any sequence of admissions can produce.
\<close>

section \<open>Bounded label sets\<close>

record boundedLabels =
  bl_limit :: int
  bl_values :: "string list"

definition admit :: "boundedLabels \<Rightarrow> string \<Rightarrow> bool \<times> boundedLabels" where
  "admit b value =
     (if value \<in> set (bl_values b) then (True, b)
      else if bl_limit b \<le> int (length (bl_values b)) then (False, b)
      else (True, b\<lparr>bl_values := value # bl_values b\<rparr>))"

definition labels_ok :: "nat \<Rightarrow> boundedLabels \<Rightarrow> bool" where
  "labels_ok n b \<longleftrightarrow> bl_limit b = int n \<and> distinct (bl_values b) \<and> length (bl_values b) \<le> n"

lemma labels_ok_admit: "labels_ok n b \<Longrightarrow> labels_ok n (snd (admit b v))"
  by (auto simp: labels_ok_def admit_def)

text \<open>A run of admissions: the answers and the final label set.\<close>

fun admit_run :: "('b \<Rightarrow> string \<Rightarrow> bool \<times> 'b) \<Rightarrow> 'b \<Rightarrow> string list \<Rightarrow> bool list \<times> 'b" where
  "admit_run adm b [] = ([], b)"
| "admit_run adm b (v # vs) =
     (let (ok, b1) = adm b v; (oks, b2) = admit_run adm b1 vs in (ok # oks, b2))"

text \<open>The labels reported for the values: the value itself, or the overflow label.\<close>

definition reported :: "string list \<Rightarrow> bool list \<Rightarrow> string list" where
  "reported vs oks = map (\<lambda>(v, ok). if ok then v else ''_overflow'') (zip vs oks)"

locale label_admission =
  fixes adm :: "'b \<Rightarrow> string \<Rightarrow> bool \<times> 'b"
    and admitted :: "'b \<Rightarrow> string set"
    and cap :: nat
    and inv :: "'b \<Rightarrow> bool"
  assumes admit_inv: "inv b \<Longrightarrow> inv (snd (adm b v))"
    and bounded: "inv b \<Longrightarrow> finite (admitted b) \<and> card (admitted b) \<le> cap"
    and answer: "fst (adm b v) \<longleftrightarrow> v \<in> admitted (snd (adm b v))"
    and permanent: "admitted b \<subseteq> admitted (snd (adm b v))"
    and only_asked: "admitted (snd (adm b v)) \<subseteq> insert v (admitted b)"
begin

lemma run_inv: "inv b \<Longrightarrow> inv (snd (admit_run adm b vs))"
  by (induction vs arbitrary: b) (auto simp: split_beta Let_def intro: admit_inv)

lemma run_permanent: "admitted b \<subseteq> admitted (snd (admit_run adm b vs))"
proof (induction vs arbitrary: b)
  case (Cons v vs)
  from permanent Cons[of "snd (adm b v)"] show ?case by (auto simp: split_beta Let_def)
qed simp

lemma run_length: "length (fst (admit_run adm b vs)) = length vs"
  by (induction vs arbitrary: b) (auto simp: split_beta Let_def)

lemma run_reported:
  "set (reported vs (fst (admit_run adm b vs)))
     \<subseteq> insert ''_overflow'' (admitted (snd (admit_run adm b vs)))"
proof (induction vs arbitrary: b)
  case (Cons v vs)
  let ?b = "snd (adm b v)"
  have "fst (adm b v) \<Longrightarrow> v \<in> admitted (snd (admit_run adm ?b vs))"
    using answer[of b v] run_permanent[of ?b vs] by auto
  with Cons[of ?b] show ?case by (auto simp: reported_def split_beta Let_def)
qed (simp add: reported_def)

lemma reported_bounded:
  assumes "inv b"
  shows "card (set (reported vs (fst (admit_run adm b vs)))) \<le> cap + 1"
proof -
  let ?A = "admitted (snd (admit_run adm b vs))"
  have A: "finite ?A" "card ?A \<le> cap" using bounded[OF run_inv[OF assms]] by auto
  then have "card (set (reported vs (fst (admit_run adm b vs)))) \<le> card (insert ''_overflow'' ?A)"
    using run_reported by (intro card_mono) auto
  also have "\<dots> \<le> cap + 1" using A by (simp add: card_insert_if)
  finally show ?thesis .
qed

lemma stays_admitted: "v \<in> admitted b \<Longrightarrow> fst (adm (snd (admit_run adm b vs)) v)"
  using answer permanent run_permanent by blast

end

interpretation labels: label_admission admit "\<lambda>b. set (bl_values b)" n "labels_ok n"
  for n
  by unfold_locales (auto simp: labels_ok_admit labels_ok_def admit_def distinct_card)

section \<open>Events\<close>

datatype metric_event =
    InFlightInc
  | InFlightDec
  | RequestInc (ev_ns: string) (ev_server: string) (ev_endpoint: string) (ev_status: string) (ev_result: string)
  | DurationObserve string string string real
  | RateLimitedInc string

record metrics =
  serverMetricLabels :: boundedLabels
  agentMetricLabels :: boundedLabels
  events :: "metric_event list"

definition init_metrics :: metrics where
  "init_metrics = \<lparr>serverMetricLabels = \<lparr>bl_limit = 256, bl_values = []\<rparr>,
     agentMetricLabels = \<lparr>bl_limit = 128, bl_values = []\<rparr>, events = []\<rparr>"

definition emit :: "metric_event list \<Rightarrow> metrics \<Rightarrow> metrics" where
  "emit es m = m\<lparr>events := events m @ es\<rparr>"

definition observedServer :: "Backend \<Rightarrow> metrics \<Rightarrow> (string \<times> string) \<times> metrics" where
  "observedServer b m =
     (let (ok, ls) = admit (serverMetricLabels m) (b_namespace b @ ''/'' @ b_name b);
          m' = m\<lparr>serverMetricLabels := ls\<rparr>
      in if \<not> ok then ((''_overflow'', ''_overflow''), m') else ((b_namespace b, b_name b), m'))"

definition observedEndpoint :: "string \<Rightarrow> string" where
  "observedEndpoint endpoint = (if endpoint = ''mcp'' then ''mcp'' else ''other'')"

definition recordRateLimit :: "string \<Rightarrow> metrics \<Rightarrow> metrics" where
  "recordRateLimit agent m =
     (let (ok, ls) = admit (agentMetricLabels m) agent;
          agent' = (if \<not> ok then ''_overflow'' else agent)
      in emit [RateLimitedInc agent'] (m\<lparr>agentMetricLabels := ls\<rparr>))"

definition exact_statuses :: "int list" where
  "exact_statuses = [200, 201, 202, 204, 400, 401, 403, 404, 405, 409, 429, 500, 502, 503, 504]"

definition status_label :: "int \<Rightarrow> string" where
  "status_label status =
     (if status \<in> set exact_statuses then itoa status
      else if 100 \<le> status \<and> status \<le> 599 then itoa (quot_trunc status 100) @ ''xx''
      else ''other'')"

definition recordRequest ::
  "string \<Rightarrow> string \<Rightarrow> string \<Rightarrow> int \<Rightarrow> bool \<Rightarrow> duration \<Rightarrow> metrics \<Rightarrow> metrics" where
  "recordRequest ns server endpoint status completed elapsed m =
     (let result = (if \<not> completed then ''aborted'' else ''complete'')
      in emit [RequestInc ns server endpoint (status_label status) result,
               DurationObserve ns server endpoint (Seconds f64 elapsed)] m)"

section \<open>Label bounds\<close>

definition status_labels :: "string list" where
  "status_labels = map itoa exact_statuses
     @ [''1xx'', ''2xx'', ''3xx'', ''4xx'', ''5xx'', ''other'']"

lemma length_status_labels: "length status_labels = 21"
  by (simp add: status_labels_def exact_statuses_def)

lemma itoa_small: "itoa 1 = ''1''" "itoa 2 = ''2''" "itoa 3 = ''3''" "itoa 4 = ''4''" "itoa 5 = ''5''"
  by code_simp+

lemma status_label_in: "status_label s \<in> set status_labels"
proof (cases "s \<notin> set exact_statuses \<and> 100 \<le> s \<and> s \<le> 599")
  case True
  then have "quot_trunc s 100 = s div 100" by (intro quot_trunc_nonneg) auto
  moreover have "s div 100 \<in> {1, 2, 3, 4, 5}" using True by auto
  ultimately show ?thesis using True
    by (auto simp: status_label_def status_labels_def itoa_small)
qed (auto simp: status_label_def status_labels_def)

end
