(* ===== verification/Router.thy ===== *)
theory Router
  imports Auth Limiter Metrics
begin

text \<open>
  The request path of the gateway (\<^verbatim>\<open>internal/gateway/router.go\<close>): \<open>parsePath\<close>, the
  rewrite of the outbound request, and \<open>ServeHTTP\<close>, the whole handler with its deferred
  functions. The gateway's state is the registry, the limiter, the metrics and the log.

  What the environment decides during a request is the record \<open>env\<close>: the readings of the
  clock, whether the connection can do full duplex, what \<^verbatim>\<open>httputil.ReverseProxy\<close> does to
  the headers before it calls the rewrite function (\<open>e_hop\<close>, any function), and what the
  upstream exchange writes to the response or whether it aborts (\<open>e_upstream\<close>, any
  function of the outbound request).
\<close>

section \<open>Routes\<close>

definition parsePath :: "string \<Rightarrow> string \<times> string \<times> string \<times> bool" where
  "parsePath path =
     (let parts = split_on CHR ''/'' (trim_char CHR ''/'' path) in
      if length parts \<noteq> 2 \<and> length parts \<noteq> 3 then ([], [], [], False)
      else if list_ex (\<lambda>part. part = []) parts then ([], [], [], False)
      else if length parts = 3 then (parts ! 0, parts ! 1, parts ! 2, True)
      else ([], parts ! 0, parts ! 1, True))"

lemma segment_trim:
  assumes "ps \<noteq> []" and "\<forall>p \<in> set ps. p \<noteq> [] \<and> CHR ''/'' \<notin> set p"
  shows "trim_char CHR ''/'' (CHR ''/'' # join_on CHR ''/'' ps) = join_on CHR ''/'' ps"
proof -
  have "join_on c ps \<noteq> [] \<and> hd (join_on c ps) = hd (hd ps) \<and> last (join_on c ps) = last (last ps)"
    if "ps \<noteq> []" "\<forall>p \<in> set ps. p \<noteq> []" for c and ps :: "string list"
    using that by (induction c ps rule: join_on.induct) auto
  with assms have "join_on CHR ''/'' ps \<noteq> []" "hd (join_on CHR ''/'' ps) = hd (hd ps)"
    "last (join_on CHR ''/'' ps) = last (last ps)" by blast+
  moreover have "hd (hd ps) \<noteq> CHR ''/''" "last (last ps) \<noteq> CHR ''/''"
    using assms by (metis hd_in_set, metis last_in_set)
  ultimately show ?thesis by (simp add: trim_char_id)
qed

lemma parsePath_segments:
  assumes "length ps = 2 \<or> length ps = 3" and "\<forall>p \<in> set ps. p \<noteq> [] \<and> CHR ''/'' \<notin> set p"
  shows "parsePath (CHR ''/'' # join_on CHR ''/'' ps) =
    (if length ps = 3 then (ps ! 0, ps ! 1, ps ! 2, True) else ([], ps ! 0, ps ! 1, True))"
proof -
  have "ps \<noteq> []" using assms(1) by auto
  then have "split_on CHR ''/'' (trim_char CHR ''/'' (CHR ''/'' # join_on CHR ''/'' ps)) = ps"
    using segment_trim[OF \<open>ps \<noteq> []\<close> assms(2)] split_join[OF \<open>ps \<noteq> []\<close>, of "CHR ''/''"] assms(2)
    by (simp only:) blast
  then show ?thesis using assms by (auto simp: parsePath_def list_ex_iff)
qed

lemma join_route: "join_on CHR ''/'' (if ns = [] then [s, t] else [ns, s, t])
    = (if ns = [] then [] else ns @ ''/'') @ s @ ''/'' @ t"
  by simp

text \<open>
  A path names a route exactly when it is an optional namespace, a server and an endpoint,
  each nonempty and without a slash, joined by single slashes, with any number of slashes
  before and after; the three parts are returned as they stand in the path.
\<close>

theorem parsePath_exact:
  "parsePath path = (ns, s, t, True) \<longleftrightarrow>
     s \<noteq> [] \<and> t \<noteq> [] \<and> CHR ''/'' \<notin> set ns \<and> CHR ''/'' \<notin> set s \<and> CHR ''/'' \<notin> set t \<and>
     (\<exists>i j. path = replicate i CHR ''/'' @ ((if ns = [] then [] else ns @ ''/'') @ s @ ''/'' @ t)
        @ replicate j CHR ''/'')"
    (is "?l \<longleftrightarrow> ?r")
proof
  assume ?l
  let ?ps = "if ns = [] then [s, t] else [ns, s, t]"
  from \<open>?l\<close> have ps: "split_on CHR ''/'' (trim_char CHR ''/'' path) = ?ps" and "\<forall>p \<in> set ?ps. p \<noteq> []"
    by (auto simp: parsePath_def Let_def list_ex_iff length_Suc_conv numeral_2_eq_2 numeral_3_eq_3
        split: if_splits)
  note ne = this(2)
  have noslash: "\<forall>p \<in> set ?ps. CHR ''/'' \<notin> set p" using split_no_sep ps by metis
  have trim: "trim_char CHR ''/'' path = (if ns = [] then [] else ns @ ''/'') @ s @ ''/'' @ t"
    using join_split[of "CHR ''/''" "trim_char CHR ''/'' path"] unfolding ps join_route by (rule sym)
  have parts: "s \<noteq> [] \<and> t \<noteq> [] \<and> CHR ''/'' \<notin> set ns \<and> CHR ''/'' \<notin> set s \<and> CHR ''/'' \<notin> set t"
    using ne noslash by (cases "ns = []") simp_all
  from trim_char_decomp[of path "CHR ''/''"] have "\<exists>i j. path = replicate i CHR ''/''
      @ ((if ns = [] then [] else ns @ ''/'') @ s @ ''/'' @ t) @ replicate j CHR ''/''"
    unfolding trim by blast
  with parts show ?r by blast
next
  assume r: ?r
  let ?ps = "if ns = [] then [s, t] else [ns, s, t]"
  from r obtain i j where path: "path = replicate i CHR ''/'' @ join_on CHR ''/'' ?ps @ replicate j CHR ''/''"
    unfolding join_route by blast
  have seg: "?ps \<noteq> []" "\<forall>p \<in> set ?ps. CHR ''/'' \<notin> set p" using r by auto
  have "join_on CHR ''/'' ?ps \<noteq> []" "hd (join_on CHR ''/'' ?ps) \<noteq> CHR ''/''"
    "last (join_on CHR ''/'' ?ps) \<noteq> CHR ''/''"
  proof -
    have "hd s \<noteq> CHR ''/''" "last t \<noteq> CHR ''/''" "ns \<noteq> [] \<Longrightarrow> hd ns \<noteq> CHR ''/''"
      using r hd_in_set last_in_set by metis+
    with r show "join_on CHR ''/'' ?ps \<noteq> []" "hd (join_on CHR ''/'' ?ps) \<noteq> CHR ''/''"
      "last (join_on CHR ''/'' ?ps) \<noteq> CHR ''/''" by (cases "ns = []"; simp)+
  qed
  then have "trim_char CHR ''/'' path = join_on CHR ''/'' ?ps" unfolding path by (rule trim_char_pad)
  then have "split_on CHR ''/'' (trim_char CHR ''/'' path) = ?ps" using split_join[OF seg] by simp
  then show ?l using r by (simp add: parsePath_def)
qed

section \<open>The outbound request\<close>

record outbound =
  o_scheme :: string
  o_url_host :: string
  o_url_path :: string
  o_host :: string
  o_header :: header

text \<open>\<^verbatim>\<open>ProxyRequest.SetXForwarded\<close>\<close>

definition SetXForwarded :: "request \<Rightarrow> header \<Rightarrow> header" where
  "SetXForwarded inreq h =
     (let h1 = (case r_client_ip inreq of
            Some ip \<Rightarrow>
              (let prior = header_values h ''X-Forwarded-For'' in
               header_set ''X-Forwarded-For''
                 (if prior \<noteq> [] then concat (map (\<lambda>p. p @ '', '') prior) @ ip else ip) h)
          | None \<Rightarrow> header_del ''X-Forwarded-For'' h);
          h2 = header_set ''X-Forwarded-Host'' (r_host inreq) h1
      in header_set ''X-Forwarded-Proto'' (if r_tls inreq then ''https'' else ''http'') h2)"

text \<open>
  The rewrite function, on the outbound request that \<^verbatim>\<open>ReverseProxy\<close> prepared: \<open>SetURL\<close>
  joins the target's empty path with the request's, then the headers are set in order.
\<close>

definition rewrite :: "string \<Rightarrow> string \<Rightarrow> request \<Rightarrow> header \<Rightarrow> outbound" where
  "rewrite address agentID inreq prepared =
     (let h1 = SetXForwarded inreq prepared;
          h2 = header_del ''Authorization'' h1;
          h3 = header_del ''Proxy-Authorization'' h2;
          h4 = header_set ''X-Agent-ID'' agentID h3
      in \<lparr>o_scheme = ''http'', o_url_host = address, o_url_path = r_path inreq,
          o_host = r_host inreq, o_header = h4\<rparr>)"

section \<open>The gateway\<close>

record log_line =
  l_namespace :: string
  l_server :: string
  l_endpoint :: string
  l_agent :: string
  l_status :: int
  l_completed :: bool
  l_latency :: duration

record Gateway =
  g_registry :: Registry
  g_limiter :: AgentLimiter
  g_metrics :: metrics
  g_log :: "log_line list"

record upstream_result =
  u_header :: "header \<Rightarrow> header"
  u_codes :: "int list"
  u_body :: string
  u_aborted :: bool

record env =
  e_start :: time
  e_allow :: time
  e_policy :: time
  e_end :: time
  e_full_duplex :: "string option"
  e_hop :: "header \<Rightarrow> header"
  e_upstream :: "outbound \<Rightarrow> upstream_result"

text \<open>What the body of the handler leaves for its deferred functions.\<close>

record handled =
  h_rec :: statusCapturingWriter
  h_agent :: string
  h_namespace :: string
  h_labels :: "string \<times> string \<times> string"
  h_completed :: bool
  h_gateway :: Gateway
  h_out :: "outbound option"

definition error_message :: "go_error \<Rightarrow> string" where
  "error_message e =
     (case e of
        ErrServerNotFound \<Rightarrow> ''unknown MCP server''
      | ErrAmbiguousServer \<Rightarrow>
          ''server name exists in multiple namespaces; use /<namespace>/<server>/<endpoint>''
      | ErrUnauthenticated \<Rightarrow> ''a valid gateway-audience ServiceAccount bearer token is required''
      | ErrAuthenticationUnavailable \<Rightarrow> ''authentication service unavailable''
      | ErrOther m \<Rightarrow> m)"

definition resolve_status :: "go_error \<Rightarrow> int" where
  "resolve_status e =
     (if e = ErrServerNotFound then 404 else if e = ErrAmbiguousServer then 409 else 500)"

text \<open>The proxied exchange, with what \<^verbatim>\<open>ServeHTTP\<close> of the reverse proxy writes.\<close>

definition proxy_response :: "upstream_result \<Rightarrow> statusCapturingWriter \<Rightarrow> statusCapturingWriter" where
  "proxy_response u r = rec_write (u_body u) (fold WriteHeader (u_codes u) (rec_header_map (u_header u) r))"

definition retry_after :: "string \<Rightarrow> string \<Rightarrow> int \<Rightarrow> statusCapturingWriter \<Rightarrow> statusCapturingWriter" where
  "retry_after seconds msg code r = http_Error msg code (set_response_header ''Retry-After'' seconds r)"

text \<open>From the resolved backend on: freshness, policy, readiness, transport, proxy.\<close>

definition serve_backend :: "env \<Rightarrow> request \<Rightarrow> string \<Rightarrow> string \<Rightarrow> Backend \<Rightarrow> statusCapturingWriter
    \<Rightarrow> statusCapturingWriter \<times> bool \<times> outbound option" where
  "serve_backend e req agentID toolName backend recorder =
     (if policyMaxAge < time_sub (e_policy e) (b_observed backend) then
        (retry_after ''5'' ''authorization policy is stale'' 503 recorder, True, None)
      else if \<not> allows backend agentID then
        (http_Error ''agent is not authorized for this MCP server'' 403 recorder, True, None)
      else if \<not> b_ready backend then
        (retry_after ''5'' ''MCP server is not ready'' 503 recorder, True, None)
      else if r_proto_major req = 1 \<and> r_has_body req \<and> e_full_duplex e \<noteq> None then
        (http_Error ''streaming request transport unavailable'' 500 recorder, True, None)
      else
        (let outReq = req\<lparr>r_path := ''/'' @ toolName\<rparr>;
             out = rewrite (b_address backend) agentID outReq (e_hop e (r_header outReq));
             u = e_upstream e out
         in (proxy_response u recorder, \<not> u_aborted u, Some out)))"

definition serve_body :: "(request \<Rightarrow> auth_result) option \<Rightarrow> env \<Rightarrow> request \<Rightarrow> response_writer \<Rightarrow> Gateway \<Rightarrow> handled" where
  "serve_body auth e req w g =
     (let (ns, serverName, toolName, ok) = parsePath (r_path req);
          recorder = new_recorder w;
          (agentID, authErr) =
            (case auth of None \<Rightarrow> ([], Some ErrAuthenticationUnavailable) | Some a \<Rightarrow> a req);
          unauthenticated = ([], ''_unauthenticated'', ''other'')
      in if authErr \<noteq> None \<or> agentID = [] then
           \<lparr>h_rec = (if authErr = Some ErrUnauthenticated
               then http_Error (error_message ErrUnauthenticated) 401
                 (set_response_header ''WWW-Authenticate'' ''Bearer realm=\"portkeeper\"'' recorder)
               else retry_after ''5'' (error_message ErrAuthenticationUnavailable) 503 recorder),
            h_agent = agentID, h_namespace = ns, h_labels = unauthenticated, h_completed = True,
            h_gateway = g, h_out = None\<rparr>
         else
           (let endpoint = observedEndpoint toolName in
            if \<not> ok then
              \<lparr>h_rec = http_Error ''expected /<namespace>/<server>/<endpoint> or /<server>/<endpoint>'' 400 recorder,
               h_agent = agentID, h_namespace = ns, h_labels = ([], ''_unresolved'', endpoint),
               h_completed = True, h_gateway = g, h_out = None\<rparr>
            else
              (let res = Resolve (g_registry g) ns serverName;
                   ((mns, mserver), m1) =
                     (case res of
                        Inl _ \<Rightarrow> (([], ''_unresolved''), g_metrics g)
                      | Inr b \<Rightarrow> observedServer b (g_metrics g));
                   ns1 = (case res of Inl _ \<Rightarrow> ns | Inr b \<Rightarrow> b_namespace b);
                   (allowed, lim) = allowAt f64 (g_limiter g) agentID (e_allow e);
                   g1 = g\<lparr>g_limiter := lim, g_metrics := m1\<rparr>;
                   base = \<lparr>h_rec = recorder, h_agent = agentID, h_namespace = ns1,
                     h_labels = (mns, mserver, endpoint), h_completed = True, h_gateway = g1,
                     h_out = None\<rparr>
               in if \<not> allowed then
                    base\<lparr>h_rec := retry_after ''1'' ''agent rate limit or limiter capacity exceeded'' 429 recorder,
                      h_gateway := g1\<lparr>g_metrics := recordRateLimit agentID m1\<rparr>\<rparr>
                  else
                    (case res of
                       Inl err \<Rightarrow> base\<lparr>h_rec := http_Error (error_message err) (resolve_status err) recorder\<rparr>
                     | Inr backend \<Rightarrow>
                         (let (r, completed, out) = serve_backend e req agentID toolName backend recorder
                          in base\<lparr>h_rec := r, h_completed := completed, h_out := out\<rparr>)))))"

text \<open>
  The whole handler: the in-flight gauge around it, and the log line and the request metrics
  that the deferred functions record, also when the proxy panics.
\<close>

record served =
  s_response :: response_writer
  s_out :: "outbound option"
  s_panicked :: bool
  s_gateway :: Gateway

definition deferred :: "env \<Rightarrow> request \<Rightarrow> handled \<Rightarrow> Gateway" where
  "deferred e req h =
     (let (_, serverName, toolName, _) = parsePath (r_path req);
          (mns, mserver, mendpoint) = h_labels h;
          elapsed = time_sub (e_end e) (e_start e);
          status = rec_status (h_rec h);
          g = h_gateway h;
          line = \<lparr>l_namespace = h_namespace h, l_server = serverName, l_endpoint = toolName,
            l_agent = h_agent h, l_status = status, l_completed = h_completed h, l_latency = elapsed\<rparr>;
          m = recordRequest mns mserver mendpoint status (h_completed h) elapsed (g_metrics g)
      in g\<lparr>g_log := g_log g @ [line], g_metrics := emit [InFlightDec] m\<rparr>)"

definition ServeHTTP :: "(request \<Rightarrow> auth_result) option \<Rightarrow> env \<Rightarrow> request \<Rightarrow> response_writer \<Rightarrow> Gateway \<Rightarrow> served" where
  "ServeHTTP auth e req w g =
     (let h = serve_body auth e req w (g\<lparr>g_metrics := emit [InFlightInc] (g_metrics g)\<rparr>)
      in \<lparr>s_response = rec_writer (h_rec h), s_out = h_out h, s_panicked = \<not> h_completed h,
          s_gateway = deferred e req h\<rparr>)"

definition NewRouter :: "Registry \<Rightarrow> AgentLimiter \<Rightarrow> Gateway" where
  "NewRouter reg limiter =
     \<lparr>g_registry = reg, g_limiter = limiter, g_metrics = init_metrics, g_log = []\<rparr>"

section \<open>When a request is forwarded\<close>

text \<open>The conditions of the handler, in its order, for forwarding to a resolved backend.\<close>

definition may_proxy :: "env \<Rightarrow> request \<Rightarrow> string \<Rightarrow> Backend \<Rightarrow> bool" where
  "may_proxy e req agentID b \<longleftrightarrow>
     time_sub (e_policy e) (b_observed b) \<le> policyMaxAge \<and> allows b agentID \<and> b_ready b \<and>
     (r_proto_major req = 1 \<and> r_has_body req \<longrightarrow> e_full_duplex e = None)"

lemma serve_backend_out:
  "snd (snd (serve_backend e req p tool b r)) =
     (if may_proxy e req p b
      then Some (rewrite (b_address b) p (req\<lparr>r_path := ''/'' @ tool\<rparr>) (e_hop e (r_header req)))
      else None)"
  by (auto simp: serve_backend_def may_proxy_def Let_def)

lemma serve_body_out:
  "h_out (serve_body auth e req w g) = Some out \<longleftrightarrow>
     (\<exists>a p ns server tool b. auth = Some a \<and> a req = (p, None) \<and> p \<noteq> [] \<and>
        parsePath (r_path req) = (ns, server, tool, True) \<and>
        Resolve (g_registry g) ns server = Inr b \<and>
        fst (allowAt f64 (g_limiter g) p (e_allow e)) \<and> may_proxy e req p b \<and>
        out = rewrite (b_address b) p (req\<lparr>r_path := ''/'' @ tool\<rparr>) (e_hop e (r_header req)))"
proof -
  obtain ns server tool ok where path: "parsePath (r_path req) = (ns, server, tool, ok)"
    by (metis prod_cases4)
  obtain p err where auth: "(case auth of None \<Rightarrow> ([], Some ErrAuthenticationUnavailable) | Some a \<Rightarrow> a req) = (p, err)"
    by fastforce
  obtain ok' lim where allow: "allowAt f64 (g_limiter g) p (e_allow e) = (ok', lim)" by fastforce
  show ?thesis
    using auth
    by (cases "Resolve (g_registry g) ns server")
      (auto simp: serve_body_def path allow Let_def split_beta serve_backend_out
         split: option.splits if_splits)
qed

section \<open>The answer of the gateway\<close>

text \<open>
  The abstract answer: which check fails first, in the order of the handler. The router is
  shown to answer as this table says.
\<close>

datatype decision =
    Unauthenticated | AuthUnavailable | BadPath | RateLimited | Unknown | Ambiguous
  | StalePolicy | Forbidden | NotReady | NoDuplex | Proxied Backend

definition decide :: "(request \<Rightarrow> auth_result) option \<Rightarrow> env \<Rightarrow> request \<Rightarrow> Gateway \<Rightarrow> decision" where
  "decide auth e req g =
     (let (ns, server, tool, ok) = parsePath (r_path req);
          (p, err) = (case auth of None \<Rightarrow> ([], Some ErrAuthenticationUnavailable) | Some a \<Rightarrow> a req)
      in if err = Some ErrUnauthenticated then Unauthenticated
         else if err \<noteq> None \<or> p = [] then AuthUnavailable
         else if \<not> ok then BadPath
         else if \<not> fst (allowAt f64 (g_limiter g) p (e_allow e)) then RateLimited
         else (case Resolve (g_registry g) ns server of
             Inl err \<Rightarrow> if err = ErrAmbiguousServer then Ambiguous else Unknown
           | Inr b \<Rightarrow>
               if policyMaxAge < time_sub (e_policy e) (b_observed b) then StalePolicy
               else if \<not> allows b p then Forbidden
               else if \<not> b_ready b then NotReady
               else if r_proto_major req = 1 \<and> r_has_body req \<and> e_full_duplex e \<noteq> None then NoDuplex
               else Proxied b))"

fun answer_code :: "decision \<Rightarrow> int option" where
  "answer_code Unauthenticated = Some 401"
| "answer_code AuthUnavailable = Some 503"
| "answer_code BadPath = Some 400"
| "answer_code RateLimited = Some 429"
| "answer_code Unknown = Some 404"
| "answer_code Ambiguous = Some 409"
| "answer_code StalePolicy = Some 503"
| "answer_code Forbidden = Some 403"
| "answer_code NotReady = Some 503"
| "answer_code NoDuplex = Some 500"
| "answer_code (Proxied b) = None"

fun answer_retry :: "decision \<Rightarrow> string list" where
  "answer_retry AuthUnavailable = [''5'']"
| "answer_retry RateLimited = [''1'']"
| "answer_retry StalePolicy = [''5'']"
| "answer_retry NotReady = [''5'']"
| "answer_retry _ = []"

lemma new_recorder_simps [simp]:
  "rec_status (new_recorder w) = 200" "rec_writer (new_recorder w) = w"
  by (simp_all add: new_recorder_def)

lemma http_Error_header [simp]:
  "header_values (w_header (rec_writer (http_Error msg code r))) ''Retry-After''
     = header_values (w_header (rec_writer r)) ''Retry-After''"
  by (simp add: recorder_defs Let_def)

lemma retry_after_simps [simp]:
  "200 \<le> code \<Longrightarrow> rec_status (retry_after s msg code r) = code"
  "w_codes (rec_writer (retry_after s msg code r)) = w_codes (rec_writer r) @ [code]"
  "header_values (w_header (rec_writer (retry_after s msg code r))) ''Retry-After'' = [s]"
  by (simp_all add: retry_after_def http_Error_status http_Error_codes)
     (simp add: set_response_header_def rec_header_map_def)

lemma set_www_header [simp]:
  "header_values (w_header (rec_writer (set_response_header ''WWW-Authenticate'' v r))) ''Retry-After''
     = header_values (w_header (rec_writer r)) ''Retry-After''"
  by (simp add: set_response_header_def rec_header_map_def)

lemmas answer_simps = http_Error_status http_Error_codes

lemma serve_backend_answer:
  "serve_backend e req p tool b r =
     (if policyMaxAge < time_sub (e_policy e) (b_observed b) then
        (retry_after ''5'' ''authorization policy is stale'' 503 r, True, None)
      else if \<not> allows b p then
        (http_Error ''agent is not authorized for this MCP server'' 403 r, True, None)
      else if \<not> b_ready b then (retry_after ''5'' ''MCP server is not ready'' 503 r, True, None)
      else if r_proto_major req = 1 \<and> r_has_body req \<and> e_full_duplex e \<noteq> None then
        (http_Error ''streaming request transport unavailable'' 500 r, True, None)
      else (proxy_response (e_upstream e (rewrite (b_address b) p (req\<lparr>r_path := ''/'' @ tool\<rparr>)
               (e_hop e (r_header req)))) r,
            \<not> u_aborted (e_upstream e (rewrite (b_address b) p (req\<lparr>r_path := ''/'' @ tool\<rparr>)
               (e_hop e (r_header req)))),
            Some (rewrite (b_address b) p (req\<lparr>r_path := ''/'' @ tool\<rparr>) (e_hop e (r_header req)))))"
  by (auto simp: serve_backend_def Let_def)

lemma serve_body_answer:
  assumes "answer_code (decide auth e req g) = Some code" and "header_values (w_header w) ''Retry-After'' = []"
  shows "w_codes (rec_writer (h_rec (serve_body auth e req w g))) = w_codes w @ [code]
    \<and> rec_status (h_rec (serve_body auth e req w g)) = code
    \<and> header_values (w_header (rec_writer (h_rec (serve_body auth e req w g)))) ''Retry-After''
        = answer_retry (decide auth e req g)
    \<and> h_completed (serve_body auth e req w g) \<and> h_out (serve_body auth e req w g) = None"
proof -
  obtain ns server tool ok where path: "parsePath (r_path req) = (ns, server, tool, ok)"
    by (metis prod_cases4)
  obtain p err where auth: "(case auth of None \<Rightarrow> ([], Some ErrAuthenticationUnavailable) | Some a \<Rightarrow> a req) = (p, err)"
    by fastforce
  obtain ok' lim where allow: "allowAt f64 (g_limiter g) p (e_allow e) = (ok', lim)" by fastforce
  show ?thesis
  proof (cases "Resolve (g_registry g) ns server")
    case (Inl er)
    with assms show ?thesis using Resolve_errors[OF Inl]
      by (auto simp: decide_def serve_body_def path auth allow Let_def split_beta answer_simps
          resolve_status_def split: if_splits)
  next
    case (Inr b)
    with assms show ?thesis
      by (simp add: decide_def serve_body_def path auth allow Let_def split_beta answer_simps
          serve_backend_answer split: if_splits)
  qed
qed

lemma decide_Proxied:
  "decide auth e req g = Proxied b \<longleftrightarrow>
     (\<exists>a p ns server tool. auth = Some a \<and> a req = (p, None) \<and> p \<noteq> [] \<and>
        parsePath (r_path req) = (ns, server, tool, True) \<and>
        Resolve (g_registry g) ns server = Inr b \<and>
        fst (allowAt f64 (g_limiter g) p (e_allow e)) \<and> may_proxy e req p b)"
proof -
  obtain ns server tool ok where path: "parsePath (r_path req) = (ns, server, tool, ok)"
    by (metis prod_cases4)
  obtain p err where auth: "(case auth of None \<Rightarrow> ([], Some ErrAuthenticationUnavailable) | Some a \<Rightarrow> a req) = (p, err)"
    by fastforce
  show ?thesis
    using auth by (cases "Resolve (g_registry g) ns server")
      (auto simp: decide_def path may_proxy_def Let_def split: option.splits if_splits)
qed

lemma serve_body_proxied:
  assumes "decide auth e req g = Proxied b"
  shows "\<exists>out. h_out (serve_body auth e req w g) = Some out \<and>
    h_rec (serve_body auth e req w g) = proxy_response (e_upstream e out) (new_recorder w) \<and>
    h_completed (serve_body auth e req w g) = (\<not> u_aborted (e_upstream e out))"
proof -
  from assms obtain a p ns server tool where d: "auth = Some a" "a req = (p, None)" "p \<noteq> []"
    "parsePath (r_path req) = (ns, server, tool, True)" "Resolve (g_registry g) ns server = Inr b"
    "fst (allowAt f64 (g_limiter g) p (e_allow e))" "may_proxy e req p b"
    unfolding decide_Proxied by blast
  obtain ok' lim where allow: "allowAt f64 (g_limiter g) p (e_allow e) = (ok', lim)" by fastforce
  have "\<not> policyMaxAge < time_sub (e_policy e) (b_observed b)" "allows b p" "b_ready b"
    "\<not> (r_proto_major req = 1 \<and> r_has_body req \<and> e_full_duplex e \<noteq> None)"
    using d(7) by (auto simp: may_proxy_def)
  with d allow show ?thesis
    by (simp add: serve_body_def Let_def split_beta serve_backend_answer)
qed

lemma proxy_response_status:
  "rec_status (proxy_response u r) =
     (case filter (\<lambda>c. 200 \<le> c) (u_codes u) of [] \<Rightarrow> rec_status r | cs \<Rightarrow> last cs)"
  "w_codes (rec_writer (proxy_response u r)) = w_codes (rec_writer r) @ u_codes u"
  by (simp_all add: proxy_response_def rec_write_def rec_status_fold w_codes_fold rec_header_map_def
      split: list.splits)

section \<open>What a request leaves behind\<close>

definition label_sane :: "metrics \<Rightarrow> string \<times> string \<times> string \<Rightarrow> bool" where
  "label_sane m l \<longleftrightarrow> (case l of (ns, server, endpoint) \<Rightarrow>
     endpoint \<in> {''mcp'', ''other''} \<and>
     ((ns, server) \<in> {([], ''_unauthenticated''), ([], ''_unresolved''), (''_overflow'', ''_overflow'')}
      \<or> CHR ''/'' \<notin> set ns \<and> ns @ ''/'' @ server \<in> set (bl_values (serverMetricLabels m))))"

fun event_sane :: "metrics \<Rightarrow> metric_event \<Rightarrow> bool" where
  "event_sane m (RequestInc ns server endpoint status result) =
     (label_sane m (ns, server, endpoint) \<and> status \<in> set status_labels \<and>
      result \<in> {''complete'', ''aborted''})"
| "event_sane m (DurationObserve ns server endpoint x) = label_sane m (ns, server, endpoint)"
| "event_sane m (RateLimitedInc a) = (a = ''_overflow'' \<or> a \<in> set (bl_values (agentMetricLabels m)))"
| "event_sane m InFlightInc = True"
| "event_sane m InFlightDec = True"

definition metrics_ok :: "metrics \<Rightarrow> bool" where
  "metrics_ok m \<longleftrightarrow> labels_ok 256 (serverMetricLabels m) \<and> labels_ok 128 (agentMetricLabels m) \<and>
     (\<forall>ev \<in> set (events m). event_sane m ev)"

definition labels_grow :: "metrics \<Rightarrow> metrics \<Rightarrow> bool" where
  "labels_grow m m' \<longleftrightarrow>
     set (bl_values (serverMetricLabels m)) \<subseteq> set (bl_values (serverMetricLabels m')) \<and>
     set (bl_values (agentMetricLabels m)) \<subseteq> set (bl_values (agentMetricLabels m'))"

lemma label_sane_grow: "labels_grow m m' \<Longrightarrow> label_sane m l \<Longrightarrow> label_sane m' l"
  by (auto simp: labels_grow_def label_sane_def)

lemma event_sane_grow: "labels_grow m m' \<Longrightarrow> event_sane m ev \<Longrightarrow> event_sane m' ev"
proof -
  assume g: "labels_grow m m'" and ev: "event_sane m ev"
  note sane = label_sane_grow[OF g]
  show "event_sane m' ev"
    using ev sane g by (cases ev) (simp_all add: labels_grow_def, blast)
qed

lemma metrics_ok_init: "metrics_ok init_metrics"
  by (simp add: metrics_ok_def init_metrics_def labels_ok_def)

lemma label_sane_emit [simp]: "label_sane (emit es m) = label_sane m"
  by (simp add: label_sane_def emit_def fun_eq_iff)

lemma event_sane_emit [simp]: "event_sane (emit es m) ev = event_sane m ev"
  by (cases ev) (simp_all, simp add: emit_def)

lemma metrics_ok_emit: "metrics_ok m \<Longrightarrow> \<forall>ev \<in> set es. event_sane m ev \<Longrightarrow> metrics_ok (emit es m)"
  by (auto simp: metrics_ok_def) (auto simp: emit_def)

lemma metrics_ok_grow:
  assumes "metrics_ok m" and "labels_grow m m'" and "events m' = events m"
    and "labels_ok 256 (serverMetricLabels m')" and "labels_ok 128 (agentMetricLabels m')"
  shows "metrics_ok m'"
  using assms event_sane_grow unfolding metrics_ok_def by metis

lemma observedServer_ok:
  assumes "metrics_ok m" and "CHR ''/'' \<notin> set (b_namespace b)"
    and "observedServer b m = ((mns, mserver), m')"
  shows "metrics_ok m' \<and> (\<forall>tool. label_sane m' (mns, mserver, observedEndpoint tool))
    \<and> events m' = events m \<and> labels_grow m m'"
proof -
  let ?k = "b_namespace b @ ''/'' @ b_name b"
  obtain ok ls where adm: "admit (serverMetricLabels m) ?k = (ok, ls)" by fastforce
  have m': "m' = m\<lparr>serverMetricLabels := ls\<rparr>"
    and l: "(mns, mserver) = (if ok then (b_namespace b, b_name b) else (''_overflow'', ''_overflow''))"
    using assms(3) adm by (auto simp: observedServer_def Let_def split: if_splits)
  have ls: "labels_ok 256 ls"
    using labels_ok_admit[of 256 "serverMetricLabels m" ?k] assms(1) adm by (simp add: metrics_ok_def)
  have grow: "set (bl_values (serverMetricLabels m)) \<subseteq> set (bl_values ls)" and "ok \<Longrightarrow> ?k \<in> set (bl_values ls)"
    using adm by (auto simp: admit_def split: if_splits)
  then have "label_sane m' (mns, mserver, observedEndpoint tool)" for tool
    using l assms(2) m' by (cases ok) (auto simp: label_sane_def observedEndpoint_def)
  moreover have "labels_grow m m'" using grow m' by (simp add: labels_grow_def)
  moreover have "metrics_ok m'"
    by (rule metrics_ok_grow[OF assms(1) \<open>labels_grow m m'\<close>]) (use m' ls assms(1) in \<open>simp_all add: metrics_ok_def\<close>)
  ultimately show ?thesis using m' by simp
qed

lemma recordRateLimit_ok:
  assumes "metrics_ok m"
  shows "metrics_ok (recordRateLimit a m)" and "labels_grow m (recordRateLimit a m)"
proof -
  obtain ok ls where adm: "admit (agentMetricLabels m) a = (ok, ls)" by fastforce
  let ?m = "m\<lparr>agentMetricLabels := ls\<rparr>"
  have r: "recordRateLimit a m = emit [RateLimitedInc (if \<not> ok then ''_overflow'' else a)] ?m"
    by (simp add: recordRateLimit_def adm)
  have ls: "labels_ok 128 ls"
    using labels_ok_admit[of 128 "agentMetricLabels m" a] assms adm by (simp add: metrics_ok_def)
  have grow: "labels_grow m ?m" and "ok \<Longrightarrow> a \<in> set (bl_values ls)"
    using adm by (auto simp: labels_grow_def admit_def split: if_splits)
  then show "labels_grow m (recordRateLimit a m)" by (simp add: r labels_grow_def emit_def)
  have "metrics_ok ?m"
    by (rule metrics_ok_grow[OF assms grow]) (use ls assms in \<open>simp_all add: metrics_ok_def\<close>)
  then show "metrics_ok (recordRateLimit a m)"
    unfolding r using \<open>ok \<Longrightarrow> a \<in> set (bl_values ls)\<close> by (intro metrics_ok_emit) auto
qed

lemma recordRequest_ok:
  "metrics_ok m \<Longrightarrow> label_sane m (ns, server, endpoint) \<Longrightarrow>
     metrics_ok (recordRequest ns server endpoint status completed elapsed m)"
  unfolding recordRequest_def Let_def by (intro metrics_ok_emit) (auto simp: status_label_in)

definition gateway_ok :: "Gateway \<Rightarrow> bool" where
  "gateway_ok g \<longleftrightarrow> registry_ok (g_registry g) \<and> limiter_ok f64 (g_limiter g) \<and> metrics_ok (g_metrics g) \<and>
     (\<forall>(k, b) \<in> set (backends (g_registry g)). CHR ''/'' \<notin> set (b_namespace b))"

lemma Resolve_backend:
  assumes "registry_ok r" and "Resolve r ns n = Inr b"
  shows "\<exists>k. (k, b) \<in> set (backends r)"
  using dir.resolved(1)[OF assms] by (blast dest: map_of_SomeD)

text \<open>The effect of the handler's body on the state.\<close>

lemma serve_body_state:
  assumes "gateway_ok g"
  shows "g_registry (h_gateway (serve_body auth e req w g)) = g_registry g"
    and "g_log (h_gateway (serve_body auth e req w g)) = g_log g"
    and "limiter_ok f64 (g_limiter (h_gateway (serve_body auth e req w g)))"
    and "metrics_ok (g_metrics (h_gateway (serve_body auth e req w g)))"
    and "label_sane (g_metrics (h_gateway (serve_body auth e req w g))) (h_labels (serve_body auth e req w g))"
proof -
  obtain ns server tool ok where path: "parsePath (r_path req) = (ns, server, tool, ok)"
    by (metis prod_cases4)
  obtain p err where auth: "(case auth of None \<Rightarrow> ([], Some ErrAuthenticationUnavailable) | Some a \<Rightarrow> a req) = (p, err)"
    by fastforce
  obtain ok' lim where allow: "allowAt f64 (g_limiter g) p (e_allow e) = (ok', lim)" by fastforce
  have lim: "limiter_ok f64 lim"
    using f64.limiter_ok_allowAt[of "g_limiter g" p "e_allow e"] allow assms by (simp add: gateway_ok_def)
  have lim0: "limiter_ok f64 (g_limiter g)" and m0: "metrics_ok (g_metrics g)"
    using assms by (simp_all add: gateway_ok_def)
  have const: "label_sane m ([], ''_unauthenticated'', ''other'')"
    "label_sane m ([], ''_unresolved'', observedEndpoint t)" for m t
    by (auto simp: label_sane_def observedEndpoint_def)
  obtain mns mserver m1 where
    obs: "(case Resolve (g_registry g) ns server of
        Inl _ \<Rightarrow> (([], ''_unresolved''), g_metrics g) | Inr b \<Rightarrow> observedServer b (g_metrics g))
      = ((mns, mserver), m1)" by (metis surj_pair)
  have m1: "metrics_ok m1 \<and> label_sane m1 (mns, mserver, observedEndpoint tool)"
  proof (cases "Resolve (g_registry g) ns server")
    case (Inl er)
    with obs m0 const show ?thesis by auto
  next
    case (Inr b)
    then obtain k where "(k, b) \<in> set (backends (g_registry g))"
      using Resolve_backend assms by (metis gateway_ok_def)
    then have "CHR ''/'' \<notin> set (b_namespace b)" using assms by (auto simp: gateway_ok_def)
    from observedServer_ok[OF m0 this, of mns mserver m1] obs Inr show ?thesis by simp
  qed
  then have r: "metrics_ok (recordRateLimit p m1)"
    "label_sane (recordRateLimit p m1) (mns, mserver, observedEndpoint tool)"
    using recordRateLimit_ok label_sane_grow by blast+
  let ?h = "serve_body auth e req w g"
  have cases: "(h_gateway ?h = g \<and> (h_labels ?h = ([], ''_unauthenticated'', ''other'')
        \<or> h_labels ?h = ([], ''_unresolved'', observedEndpoint tool)))
     \<or> h_labels ?h = (mns, mserver, observedEndpoint tool) \<and>
       (h_gateway ?h = g\<lparr>g_limiter := lim, g_metrics := m1\<rparr>
        \<or> h_gateway ?h = g\<lparr>g_limiter := lim, g_metrics := recordRateLimit p m1\<rparr>)"
    using obs by (simp add: serve_body_def path auth allow Let_def split_beta split: sum.splits)
  from cases show "g_registry (h_gateway ?h) = g_registry g" by auto
  from cases show "g_log (h_gateway ?h) = g_log g" by auto
  from cases lim lim0 show "limiter_ok f64 (g_limiter (h_gateway ?h))" by auto
  from cases m0 m1 r show "metrics_ok (g_metrics (h_gateway ?h))" by auto
  from cases const m1 r show "label_sane (g_metrics (h_gateway ?h)) (h_labels ?h)" by auto
qed

lemma deferred_state:
  "g_registry (deferred e req h) = g_registry (h_gateway h)"
  "g_limiter (deferred e req h) = g_limiter (h_gateway h)"
  by (simp_all add: deferred_def Let_def split_beta)

lemma deferred_metrics:
  "metrics_ok (g_metrics (h_gateway h)) \<Longrightarrow> label_sane (g_metrics (h_gateway h)) (h_labels h) \<Longrightarrow>
     metrics_ok (g_metrics (deferred e req h))"
  by (simp add: deferred_def Let_def split_beta metrics_ok_emit recordRequest_ok)

lemma gateway_ok_inc: "gateway_ok g \<Longrightarrow> gateway_ok (g\<lparr>g_metrics := emit [InFlightInc] (g_metrics g)\<rparr>)"
  by (simp add: gateway_ok_def metrics_ok_emit)

lemma ServeHTTP_registry: "gateway_ok g \<Longrightarrow> g_registry (s_gateway (ServeHTTP auth e req w g)) = g_registry g"
  using serve_body_state(1)[OF gateway_ok_inc, of g] by (simp add: ServeHTTP_def Let_def deferred_state)

lemma gateway_ok_ServeHTTP: "gateway_ok g \<Longrightarrow> gateway_ok (s_gateway (ServeHTTP auth e req w g))"
proof -
  assume ok: "gateway_ok g"
  note body = serve_body_state[OF gateway_ok_inc[OF ok], of auth e req w]
  have "metrics_ok (g_metrics (s_gateway (ServeHTTP auth e req w g)))"
    using deferred_metrics[OF body(4,5)] by (simp add: ServeHTTP_def Let_def)
  with ok body ServeHTTP_registry[OF ok] show ?thesis
    by (simp add: gateway_ok_def ServeHTTP_def Let_def deferred_state)
qed

lemma ServeHTTP_out:
  "s_out (ServeHTTP auth e req w g) = Some out \<longleftrightarrow>
     (\<exists>a p ns server tool b. auth = Some a \<and> a req = (p, None) \<and> p \<noteq> [] \<and>
        parsePath (r_path req) = (ns, server, tool, True) \<and>
        Resolve (g_registry g) ns server = Inr b \<and>
        fst (allowAt f64 (g_limiter g) p (e_allow e)) \<and> may_proxy e req p b \<and>
        out = rewrite (b_address b) p (req\<lparr>r_path := ''/'' @ tool\<rparr>) (e_hop e (r_header req)))"
  by (simp add: ServeHTTP_def Let_def serve_body_out)

end
