(* ===== verification/GatewaySystem.thy ===== *)
theory GatewaySystem
  imports Router
begin

text \<open>
  The running gateway: registry polls and requests in any order, and the properties that
  span the components. Each request brings its own authenticator, so that the answers of the
  token review may differ from call to call.
\<close>

section \<open>Runs\<close>

datatype gw_event =
    Poll poll
  | Request "(request \<Rightarrow> auth_result) option" env request response_writer

fun gw_step :: "condition_finder \<Rightarrow> gw_event \<Rightarrow> Gateway \<Rightarrow> Gateway" where
  "gw_step f (Poll p) g = g\<lparr>g_registry := refresh f p (g_registry g)\<rparr>"
| "gw_step f (Request auth e req w) g = s_gateway (ServeHTTP auth e req w g)"

fun gw_run :: "condition_finder \<Rightarrow> gw_event list \<Rightarrow> Gateway \<Rightarrow> Gateway" where
  "gw_run f [] g = g"
| "gw_run f (ev # evs) g = gw_run f evs (gw_step f ev g)"

fun polls_of :: "gw_event list \<Rightarrow> poll list" where
  "polls_of [] = []"
| "polls_of (Poll p # evs) = p # polls_of evs"
| "polls_of (Request _ _ _ _ # evs) = polls_of evs"

text \<open>The gateway as \<^verbatim>\<open>main\<close> builds it.\<close>

definition new_gateway :: "real \<Rightarrow> int \<Rightarrow> Gateway" where
  "new_gateway rps b = NewRouter NewRegistry (NewAgentLimiter f64 rps b)"

lemma serve_body_registry: "g_registry (h_gateway (serve_body auth e req w g)) = g_registry g"
proof -
  obtain ns server tool ok where path: "parsePath (r_path req) = (ns, server, tool, ok)"
    by (metis prod_cases4)
  obtain p err where auth: "(case auth of None \<Rightarrow> ([], Some ErrAuthenticationUnavailable) | Some a \<Rightarrow> a req) = (p, err)"
    by fastforce
  show ?thesis
    by (simp add: serve_body_def path auth Let_def split_beta split: sum.splits)
qed

lemma served_registry [simp]: "g_registry (s_gateway (ServeHTTP auth e req w g)) = g_registry g"
  by (simp add: ServeHTTP_def Let_def deferred_state serve_body_registry)

lemma gw_run_registry: "g_registry (gw_run f evs g) = Start f (polls_of evs) (g_registry g)"
proof (induction evs arbitrary: g)
  case (Cons ev evs)
  then show ?case by (cases ev) simp_all
qed simp

lemma new_gateway_ok: "0 < rps \<Longrightarrow> 0 \<le> b \<Longrightarrow> gateway_ok (new_gateway rps b)"
  by (simp add: gateway_ok_def new_gateway_def NewRouter_def registry_ok_New New_ok metrics_ok_init)
    (simp add: NewRegistry_def)

text \<open>The namespaces of the listed servers are DNS labels, so they have no slash.\<close>

definition plain_poll :: "poll \<Rightarrow> bool" where
  "plain_poll p \<longleftrightarrow> (case p_list p of Inl _ \<Rightarrow> True
     | Inr items \<Rightarrow> \<forall>item \<in> set items. CHR ''/'' \<notin> set (m_namespace item))"

lemma refresh_plain:
  assumes "plain_poll p" and "\<forall>(k, b) \<in> set (backends r). CHR ''/'' \<notin> set (b_namespace b)"
  shows "\<forall>(k, b) \<in> set (backends (refresh f p r)). CHR ''/'' \<notin> set (b_namespace b)"
proof (cases "p_list p")
  case (Inr items)
  have ok: "gomap_ok (next_backends f (p_host p) (p_observed p) items [])"
    by (simp add: next_backends_ok)
  have "CHR ''/'' \<notin> set (b_namespace b)"
    if "(k, b) \<in> set (next_backends f (p_host p) (p_observed p) items [])" for k b
  proof -
    have "map_of (next_backends f (p_host p) (p_observed p) items []) k = Some b"
      using that ok by (simp add: map_of_in_set)
    from next_backends_SomeD[OF this] obtain item where "item \<in> set items"
      and "b = item_backend f (p_host p) (p_observed p) item" by blast
    with assms(1) Inr show ?thesis by (auto simp: plain_poll_def item_backend_def)
  qed
  with Inr show ?thesis by (auto simp: refresh_def)
qed (use assms in \<open>simp add: refresh_def\<close>)

lemma gw_run_ok:
  "gateway_ok g \<Longrightarrow> \<forall>p \<in> set (polls_of evs). plain_poll p \<Longrightarrow> gateway_ok (gw_run f evs g)"
proof (induction evs arbitrary: g)
  case (Cons ev evs)
  show ?case
  proof (cases ev)
    case (Poll p)
    have "plain_poll p" and g: "gateway_ok g" using Cons.prems Poll by simp_all
    have upd: "g_registry (gw_step f ev g) = refresh f p (g_registry g)"
      "g_limiter (gw_step f ev g) = g_limiter g" "g_metrics (gw_step f ev g) = g_metrics g"
      using Poll by simp_all
    have "gateway_ok (gw_step f ev g)"
      using \<open>plain_poll p\<close> g refresh_plain[of p "g_registry g" f] registry_ok_refresh[of "g_registry g" f p]
      unfolding gateway_ok_def upd by blast
    with Cons Poll show ?thesis by simp
  next
    case (Request auth e req w)
    with Cons show ?thesis by (simp add: gateway_ok_ServeHTTP)
  qed
qed simp

text \<open>Where a forwarded request goes: a server of the last list, with its policy and address.\<close>

lemma listed_backend:
  assumes "finds_conditions f" and res: "Resolve (Start f ps NewRegistry) ns server = Inr bk"
    and may: "may_proxy e req p bk"
    and out: "out = rewrite (b_address bk) p (req\<lparr>r_path := ''/'' @ tool\<rparr>) (e_hop e (r_header req))"
  shows "\<exists>account q items item. p = sa_username account \<and>
    header_values (o_header out) ''X-Agent-ID'' = [sa_username account] \<and>
    last_poll ps = Some q \<and> e_policy e - p_observed q \<le> 15 * second \<and>
    p_list q = Inr items \<and> item \<in> set items \<and> current_ready item \<and>
    account \<in> set (spec_allowed (m_spec item)) \<and>
    server = m_name item \<and> (ns = [] \<or> ns = m_namespace item) \<and>
    o_url_host out = backend_address (p_host q) item \<and> o_url_path out = ''/'' @ tool"
proof -
  note bk = dir.resolved[OF Start_ok res]
  from bk(1) obtain q items item where q: "last_poll ps = Some q" "p_list q = Inr items"
    "item \<in> set items" and key: "item_key item = NamespacedName (b_namespace bk) server"
    and item: "bk = item_backend f (p_host q) (p_observed q) item"
    using snapshot_lookup unfolding Start_snapshot by blast
  from may obtain account where acc: "account \<in> set (b_allowed bk)" "p = sa_username account"
    by (auto simp: may_proxy_def allows_iff)
  have "current_ready item"
    using may item by (intro IsReady_sound[OF assms(1)]) (simp add: may_proxy_def item_backend_def)
  moreover have "e_policy e - p_observed q \<le> 15 * second"
    using may item by (simp add: may_proxy_def item_backend_def policyMaxAge_def time_sub_small
        second_def max_duration_def min_duration_def)
  moreover have "header_values (o_header out) ''X-Agent-ID'' = [p]" "o_url_path out = ''/'' @ tool"
    "o_url_host out = b_address bk"
    by (simp_all add: out rewrite_def Let_def)
  moreover have "server = m_name item" "b_namespace bk = m_namespace item"
    using key by (simp_all add: item_key_def)
  moreover have "ns = [] \<or> ns = b_namespace bk" using bk(3) by auto
  moreover have "b_address bk = backend_address (p_host q) item" "b_allowed bk = spec_allowed (m_spec item)"
    by (simp_all add: item item_backend_def)
  ultimately show ?thesis using acc q by metis
qed

section \<open>Series\<close>

text \<open>The distinct label tuples of each metric: the time series it allocates.\<close>

fun request_series :: "metric_event list \<Rightarrow> (string \<times> string \<times> string \<times> string \<times> string) set" where
  "request_series [] = {}"
| "request_series (RequestInc a b c d e # evs) = insert (a, b, c, d, e) (request_series evs)"
| "request_series (_ # evs) = request_series evs"

fun duration_series :: "metric_event list \<Rightarrow> (string \<times> string \<times> string) set" where
  "duration_series [] = {}"
| "duration_series (DurationObserve a b c x # evs) = insert (a, b, c) (duration_series evs)"
| "duration_series (_ # evs) = duration_series evs"

fun agent_series :: "metric_event list \<Rightarrow> string set" where
  "agent_series [] = {}"
| "agent_series (RateLimitedInc a # evs) = insert a (agent_series evs)"
| "agent_series (_ # evs) = agent_series evs"

definition server_groups :: "metrics \<Rightarrow> (string \<times> string) set" where
  "server_groups m = {([], ''_unauthenticated''), ([], ''_unresolved''), (''_overflow'', ''_overflow'')}
     \<union> {(ns, n). CHR ''/'' \<notin> set ns \<and> ns @ ''/'' @ n \<in> set (bl_values (serverMetricLabels m))}"

lemma server_groups_card:
  assumes "labels_ok 256 (serverMetricLabels m)"
  shows "finite (server_groups m) \<and> card (server_groups m) \<le> 259"
proof -
  let ?V = "set (bl_values (serverMetricLabels m))"
  let ?f = "\<lambda>(ns, n). ns @ CHR ''/'' # n"
  define A where "A = {(ns, n). CHR ''/'' \<notin> set ns \<and> ns @ ''/'' @ n \<in> ?V}"
  define C :: "(string \<times> string) set"
    where "C = {([], ''_unauthenticated''), ([], ''_unresolved''), (''_overflow'', ''_overflow'')}"
  have inj: "inj_on ?f A" by (auto simp: A_def inj_on_def append_sep_inj)
  have sub: "?f ` A \<subseteq> ?V" by (auto simp: A_def)
  then have fin: "finite A" using inj by (meson List.finite_set finite_imageD finite_subset)
  have "card A \<le> card ?V" using card_image[OF inj] card_mono[OF _ sub] by simp
  moreover have "card ?V \<le> 256" using assms by (simp add: labels_ok_def distinct_card)
  moreover have "card C \<le> 3" by (simp add: C_def card_insert_if)
  moreover have "card (C \<union> A) \<le> card C + card A" by (rule card_Un_le)
  moreover have "finite (C \<union> A)" using fin by (simp add: C_def)
  moreover have "server_groups m = C \<union> A" unfolding server_groups_def C_def A_def by (rule refl)
  ultimately show ?thesis by simp
qed

lemma series_sub:
  assumes "\<forall>ev \<in> set evs. event_sane m ev"
  shows "request_series evs \<subseteq> (\<lambda>((a, b), c, d, e). (a, b, c, d, e)) `
      (server_groups m \<times> {''mcp'', ''other''} \<times> set status_labels \<times> {''complete'', ''aborted''})"
    and "duration_series evs \<subseteq> (\<lambda>((a, b), c). (a, b, c)) ` (server_groups m \<times> {''mcp'', ''other''})"
    and "agent_series evs \<subseteq> insert ''_overflow'' (set (bl_values (agentMetricLabels m)))"
proof -
  have grp: "label_sane m (a, b, c) \<Longrightarrow> (a, b) \<in> server_groups m \<and> c \<in> {''mcp'', ''other''}" for a b c
    by (auto simp: label_sane_def server_groups_def)
  show "request_series evs \<subseteq> (\<lambda>((a, b), c, d, e). (a, b, c, d, e)) `
      (server_groups m \<times> {''mcp'', ''other''} \<times> set status_labels \<times> {''complete'', ''aborted''})"
    using assms
  proof (induction evs rule: request_series.induct)
    case (2 a b c d e evs)
    then have "((a, b), c, d, e) \<in> server_groups m \<times> {''mcp'', ''other''} \<times> set status_labels \<times> {''complete'', ''aborted''}"
      using grp[of a b c] by simp
    then have "(a, b, c, d, e) \<in> (\<lambda>((a, b), c, d, e). (a, b, c, d, e)) `
        (server_groups m \<times> {''mcp'', ''other''} \<times> set status_labels \<times> {''complete'', ''aborted''})"
      by (rule rev_image_eqI) simp
    moreover have "request_series evs \<subseteq> (\<lambda>((a, b), c, d, e). (a, b, c, d, e)) `
        (server_groups m \<times> {''mcp'', ''other''} \<times> set status_labels \<times> {''complete'', ''aborted''})"
      by (rule 2(1)) (use 2(2) in simp)
    ultimately show ?case unfolding request_series.simps by (rule insert_subsetI)
  qed simp_all
  show "duration_series evs \<subseteq> (\<lambda>((a, b), c). (a, b, c)) ` (server_groups m \<times> {''mcp'', ''other''})"
    using assms
  proof (induction evs rule: duration_series.induct)
    case (2 a b c x evs)
    then have "((a, b), c) \<in> server_groups m \<times> {''mcp'', ''other''}" using grp[of a b c] by simp
    then have "(a, b, c) \<in> (\<lambda>((a, b), c). (a, b, c)) ` (server_groups m \<times> {''mcp'', ''other''})"
      by (rule rev_image_eqI) simp
    moreover have "duration_series evs \<subseteq> (\<lambda>((a, b), c). (a, b, c)) ` (server_groups m \<times> {''mcp'', ''other''})"
      by (rule 2(1)) (use 2(2) in simp)
    ultimately show ?case unfolding duration_series.simps by (rule insert_subsetI)
  qed simp_all
  show "agent_series evs \<subseteq> insert ''_overflow'' (set (bl_values (agentMetricLabels m)))"
    using assms by (induction evs rule: agent_series.induct) auto
qed

lemma series_card:
  assumes "metrics_ok m"
  shows "card (request_series (events m)) \<le> 259 * 2 * 21 * 2"
    and "card (duration_series (events m)) \<le> 259 * 2"
    and "card (agent_series (events m)) \<le> 129"
proof -
  have sane: "\<forall>ev \<in> set (events m). event_sane m ev" using assms by (simp add: metrics_ok_def)
  have g: "finite (server_groups m)" "card (server_groups m) \<le> 259"
    using server_groups_card assms by (auto simp: metrics_ok_def)
  have st: "card (set status_labels) \<le> 21" using card_length[of status_labels] by (simp add: length_status_labels)
  let ?S = "server_groups m \<times> {''mcp'', ''other''} \<times> set status_labels \<times> {''complete'', ''aborted''}"
  have "card (request_series (events m)) \<le> card ?S"
    using series_sub(1)[OF sane] g(1) by (intro surj_card_le) auto
  also have "\<dots> = card (server_groups m) * (2 * (card (set status_labels) * 2))"
    by (simp add: card_cartesian_product)
  also have "\<dots> \<le> 259 * (2 * (21 * 2))" using g(2) st by (intro mult_le_mono) auto
  finally show "card (request_series (events m)) \<le> 259 * 2 * 21 * 2" by simp
  have "card (duration_series (events m)) \<le> card (server_groups m \<times> {''mcp'', ''other''})"
    using series_sub(2)[OF sane] g(1) by (intro surj_card_le) auto
  also have "\<dots> \<le> 259 * 2" using g(2) by (simp add: card_cartesian_product)
  finally show "card (duration_series (events m)) \<le> 259 * 2" .
  have "card (agent_series (events m)) \<le> card (insert ''_overflow'' (set (bl_values (agentMetricLabels m))))"
    using series_sub(3)[OF sane] by (intro card_mono) auto
  also have "\<dots> \<le> 129"
    using assms by (auto simp: metrics_ok_def labels_ok_def card_insert_if distinct_card)
  finally show "card (agent_series (events m)) \<le> 129" .
qed

section \<open>What one request leaves in the log and the metrics\<close>

lemma decide_metrics [simp]: "decide auth e req (g\<lparr>g_metrics := m\<rparr>) = decide auth e req g"
  by (simp add: decide_def Let_def split_beta)

lemma observedServer_events [simp]: "events (snd (observedServer b m)) = events m"
  by (simp add: observedServer_def Let_def split_beta)

lemma recordRateLimit_events: "\<exists>a'. events (recordRateLimit a m) = events m @ [RateLimitedInc a']"
  by (simp add: recordRateLimit_def Let_def split_beta emit_def)

lemma serve_body_events:
  "\<exists>ls. events (g_metrics (h_gateway (serve_body auth e req w g)))
      = events (g_metrics g) @ map RateLimitedInc ls
    \<and> length ls = (if decide auth e req g = RateLimited then 1 else 0)"
proof -
  obtain ns server tool ok where path: "parsePath (r_path req) = (ns, server, tool, ok)"
    by (metis prod_cases4)
  obtain p err where auth: "(case auth of None \<Rightarrow> ([], Some ErrAuthenticationUnavailable) | Some a \<Rightarrow> a req) = (p, err)"
    by fastforce
  obtain ok' lim where allow: "allowAt f64 (g_limiter g) p (e_allow e) = (ok', lim)" by fastforce
  show ?thesis
  proof (cases "decide auth e req g = RateLimited")
    case True
    then have c: "err = None" "p \<noteq> []" "ok" "\<not> ok'"
      by (auto simp: decide_def path auth allow Let_def split: if_splits sum.splits)
    obtain a' where "events (g_metrics (h_gateway (serve_body auth e req w g)))
        = events (g_metrics g) @ [RateLimitedInc a']"
      using recordRateLimit_events[of p "case Resolve (g_registry g) ns server of
          Inl _ \<Rightarrow> g_metrics g | Inr b \<Rightarrow> snd (observedServer b (g_metrics g))"] c
      by (cases "Resolve (g_registry g) ns server")
        (auto simp: serve_body_def path auth allow Let_def split_beta)
    with True show ?thesis by (intro exI[of _ "[a']"]) simp
  next
    case False
    then have "err \<noteq> None \<or> p = [] \<or> \<not> ok \<or> ok'"
      by (auto simp: decide_def path auth allow Let_def split: if_splits)
    then have "events (g_metrics (h_gateway (serve_body auth e req w g))) = events (g_metrics g)"
      by (cases "Resolve (g_registry g) ns server")
        (auto simp: serve_body_def path auth allow Let_def split_beta)
    with False show ?thesis by (intro exI[of _ "[]"]) simp
  qed
qed

lemma serve_body_log: "g_log (h_gateway (serve_body auth e req w g)) = g_log g"
proof -
  obtain ns server tool ok where path: "parsePath (r_path req) = (ns, server, tool, ok)"
    by (metis prod_cases4)
  obtain p err where auth: "(case auth of None \<Rightarrow> ([], Some ErrAuthenticationUnavailable) | Some a \<Rightarrow> a req) = (p, err)"
    by fastforce
  show ?thesis
    by (simp add: serve_body_def path auth Let_def split_beta split: sum.splits)
qed

definition request_line :: "env \<Rightarrow> request \<Rightarrow> handled \<Rightarrow> log_line" where
  "request_line e req h =
     (let (_, serverName, toolName, _) = parsePath (r_path req) in
      \<lparr>l_namespace = h_namespace h, l_server = serverName, l_endpoint = toolName,
       l_agent = h_agent h, l_status = rec_status (h_rec h), l_completed = h_completed h,
       l_latency = time_sub (e_end e) (e_start e)\<rparr>)"

lemma deferred_log: "g_log (deferred e req h) = g_log (h_gateway h) @ [request_line e req h]"
  by (simp add: deferred_def request_line_def Let_def split_beta)

definition result_label :: "bool \<Rightarrow> string" where
  "result_label completed = (if completed then ''complete'' else ''aborted'')"

lemma deferred_events:
  "events (g_metrics (deferred e req h)) = events (g_metrics (h_gateway h)) @
     (case h_labels h of (ns, server, endpoint) \<Rightarrow>
       [RequestInc ns server endpoint (status_label (l_status (request_line e req h)))
          (result_label (l_completed (request_line e req h))),
        DurationObserve ns server endpoint (Seconds f64 (l_latency (request_line e req h))), InFlightDec])"
  by (simp add: deferred_def request_line_def result_label_def recordRequest_def emit_def Let_def split_beta)

lemma request_line_simps [simp]:
  "l_status (request_line e req h) = rec_status (h_rec h)"
  "l_completed (request_line e req h) = h_completed h"
  "l_latency (request_line e req h) = time_sub (e_end e) (e_start e)"
  "l_agent (request_line e req h) = h_agent h"
  by (simp_all add: request_line_def Let_def split_beta)

lemma ServeHTTP_trace:
  "\<exists>ns server endpoint ls line.
     events (g_metrics (s_gateway (ServeHTTP auth e req w g))) = events (g_metrics g) @ InFlightInc #
       map RateLimitedInc ls @
       [RequestInc ns server endpoint (status_label (l_status line)) (result_label (l_completed line)),
        DurationObserve ns server endpoint (Seconds f64 (l_latency line)), InFlightDec] \<and>
     length ls = (if decide auth e req g = RateLimited then 1 else 0) \<and>
     g_log (s_gateway (ServeHTTP auth e req w g)) = g_log g @ [line] \<and>
     l_completed line = (\<not> s_panicked (ServeHTTP auth e req w g))"
proof -
  let ?g = "g\<lparr>g_metrics := emit [InFlightInc] (g_metrics g)\<rparr>"
  let ?h = "serve_body auth e req w ?g"
  obtain ls where ls: "events (g_metrics (h_gateway ?h)) = events (g_metrics ?g) @ map RateLimitedInc ls"
    "length ls = (if decide auth e req g = RateLimited then 1 else 0)"
    using serve_body_events[of auth e req w ?g] by auto
  obtain ns server endpoint where l: "h_labels ?h = (ns, server, endpoint)" by (metis prod_cases3)
  show ?thesis
    by (intro exI[of _ ns] exI[of _ server] exI[of _ endpoint] exI[of _ ls] exI[of _ "request_line e req ?h"])
      (simp add: ServeHTTP_def Let_def deferred_log deferred_events serve_body_log ls l, simp add: emit_def)
qed

lemma unauthenticated_body:
  "decide auth e req g \<in> {Unauthenticated, AuthUnavailable} \<Longrightarrow>
     h_gateway (serve_body auth e req w g) = g \<and>
     h_labels (serve_body auth e req w g) = ([], ''_unauthenticated'', ''other'') \<and>
     h_completed (serve_body auth e req w g) \<and> h_out (serve_body auth e req w g) = None \<and>
     rec_status (h_rec (serve_body auth e req w g)) =
       (if decide auth e req g = Unauthenticated then 401 else 503)"
proof -
  assume d: "decide auth e req g \<in> {Unauthenticated, AuthUnavailable}"
  obtain ns server tool ok where path: "parsePath (r_path req) = (ns, server, tool, ok)"
    by (metis prod_cases4)
  obtain p err where auth: "(case auth of None \<Rightarrow> ([], Some ErrAuthenticationUnavailable) | Some a \<Rightarrow> a req) = (p, err)"
    by fastforce
  have "err \<noteq> None \<or> p = []"
    using d by (auto simp: decide_def path auth Let_def split: if_splits sum.splits)
  then show ?thesis
    by (auto simp: decide_def serve_body_def path auth Let_def http_Error_status)
qed

text \<open>Reading the metrics back: the gauge, the counted requests, the observed durations.\<close>

fun gauge :: "metric_event list \<Rightarrow> int" where
  "gauge [] = 0"
| "gauge (InFlightInc # evs) = 1 + gauge evs"
| "gauge (InFlightDec # evs) = gauge evs - 1"
| "gauge (_ # evs) = gauge evs"

fun counted :: "metric_event list \<Rightarrow> (string \<times> string) list" where
  "counted [] = []"
| "counted (RequestInc a b c status result # evs) = (status, result) # counted evs"
| "counted (_ # evs) = counted evs"

fun durations :: "metric_event list \<Rightarrow> real list" where
  "durations [] = []"
| "durations (DurationObserve a b c x # evs) = x # durations evs"
| "durations (_ # evs) = durations evs"

lemma readings_append [simp]:
  "gauge (es @ fs) = gauge es + gauge fs"
  "counted (es @ fs) = counted es @ counted fs"
  "durations (es @ fs) = durations es @ durations fs"
  by (induction es rule: gauge.induct) simp_all

lemma readings_limited [simp]:
  "gauge (map RateLimitedInc ls) = 0" "counted (map RateLimitedInc ls) = []"
  "durations (map RateLimitedInc ls) = []"
  by (induction ls) auto

definition accounted :: "Gateway \<Rightarrow> bool" where
  "accounted g \<longleftrightarrow> gauge (events (g_metrics g)) = 0 \<and>
     counted (events (g_metrics g)) =
       map (\<lambda>l. (status_label (l_status l), result_label (l_completed l))) (g_log g) \<and>
     durations (events (g_metrics g)) = map (\<lambda>l. Seconds f64 (l_latency l)) (g_log g)"

lemma accounted_ServeHTTP: "accounted g \<Longrightarrow> accounted (s_gateway (ServeHTTP auth e req w g))"
proof -
  assume acc: "accounted g"
  obtain ns server endpoint ls line where
    "events (g_metrics (s_gateway (ServeHTTP auth e req w g))) = events (g_metrics g) @ InFlightInc #
       map RateLimitedInc ls @
       [RequestInc ns server endpoint (status_label (l_status line)) (result_label (l_completed line)),
        DurationObserve ns server endpoint (Seconds f64 (l_latency line)), InFlightDec]"
    "g_log (s_gateway (ServeHTTP auth e req w g)) = g_log g @ [line]"
    using ServeHTTP_trace[of auth e req w g] by blast
  with acc show ?thesis by (simp add: accounted_def)
qed

fun requests_in :: "gw_event list \<Rightarrow> nat" where
  "requests_in [] = 0"
| "requests_in (Poll p # evs) = requests_in evs"
| "requests_in (Request _ _ _ _ # evs) = Suc (requests_in evs)"

lemma gw_run_accounted: "accounted g \<Longrightarrow> accounted (gw_run f evs g)"
proof (induction evs arbitrary: g)
  case (Cons ev evs)
  then show ?case by (cases ev) (simp_all add: accounted_ServeHTTP, simp add: accounted_def)
qed simp

lemma gw_run_log: "length (g_log (gw_run f evs g)) = length (g_log g) + requests_in evs"
proof (induction evs arbitrary: g)
  case (Cons ev evs)
  show ?case
  proof (cases ev)
    case (Request auth e req w)
    then show ?thesis using Cons ServeHTTP_trace[of auth e req w g] by auto
  qed (simp add: Cons)
qed simp

end
