(* ===== verification/Mux.thy ===== *)
theory Mux
  imports Http
begin

text \<open>
  What the commands use of \<^verbatim>\<open>http.ServeMux\<close> and of \<^verbatim>\<open>http.CrossOriginProtection\<close>:
  the cleaning of request paths, the choice of the handler, and the check of cross-origin
  requests. The patterns of the program are literal paths without a trailing slash, and the
  catch-all \<^verbatim>\<open>/\<close>; none has a method, a host or a wildcard.

  A request reaches the multiplexer with its escaped path (\<^verbatim>\<open>r.URL.EscapedPath()\<close>), which
  is empty or starts with a slash.
\<close>

section \<open>Clean paths\<close>

text \<open>One element of \<^verbatim>\<open>path.Clean\<close> on a rooted path; the stack is reversed.\<close>

definition clean_push :: "string \<Rightarrow> string list \<Rightarrow> string list" where
  "clean_push seg stack =
     (if seg = [] \<or> seg = ''.'' then stack else if seg = ''..'' then tl stack else seg # stack)"

definition clean_segments :: "string list \<Rightarrow> string list" where
  "clean_segments segs = rev (fold clean_push segs [])"

definition path_Clean :: "string \<Rightarrow> string" where
  "path_Clean p = CHR ''/'' # join_on CHR ''/'' (clean_segments (split_on CHR ''/'' p))"

definition cleanPath :: "string \<Rightarrow> string" where
  "cleanPath p0 =
     (if p0 = [] then ''/''
      else
        (let p = (if hd p0 \<noteq> CHR ''/'' then CHR ''/'' # p0 else p0);
             np = path_Clean p
         in if last p = CHR ''/'' \<and> np \<noteq> ''/'' then np @ ''/'' else np))"

definition plain_segment :: "string \<Rightarrow> bool" where
  "plain_segment s \<longleftrightarrow> s \<noteq> [] \<and> s \<noteq> ''.'' \<and> s \<noteq> ''..'' \<and> CHR ''/'' \<notin> set s"

lemma clean_push_plain: "plain_segment s \<Longrightarrow> clean_push s st = s # st"
  by (simp add: clean_push_def plain_segment_def)

lemma fold_clean_plain: "list_all plain_segment ps \<Longrightarrow> fold clean_push ps st = rev ps @ st"
  by (induction ps arbitrary: st) (simp_all add: clean_push_plain)

lemma clean_segments_plain [simp]: "list_all plain_segment ps \<Longrightarrow> clean_segments ps = ps"
  by (simp add: clean_segments_def fold_clean_plain)

lemma fold_clean_result:
  "list_all plain_segment st \<Longrightarrow> \<forall>p \<in> set segs. CHR ''/'' \<notin> set p \<Longrightarrow>
     list_all plain_segment (fold clean_push segs st)"
proof (induction segs arbitrary: st)
  case (Cons s segs)
  have "s \<noteq> [] \<Longrightarrow> s \<noteq> ''.'' \<Longrightarrow> s \<noteq> ''..'' \<Longrightarrow> plain_segment s"
    using Cons.prems by (simp add: plain_segment_def)
  then have "list_all plain_segment (clean_push s st)"
    using Cons.prems(1) by (cases st) (auto simp: clean_push_def)
  with Cons show ?case by simp
qed simp

lemma clean_segments_result: "list_all plain_segment (clean_segments (split_on CHR ''/'' p))"
proof -
  have "list_all plain_segment (fold clean_push (split_on CHR ''/'' p) [])"
    using split_no_sep[of _ "CHR ''/''" p] by (intro fold_clean_result) auto
  then show ?thesis by (simp add: clean_segments_def list_all_iff)
qed

text \<open>The path of plain segments, with or without a slash at the end.\<close>

definition plain_path :: "string list \<Rightarrow> bool \<Rightarrow> string" where
  "plain_path ps trailing =
     CHR ''/'' # join_on CHR ''/'' ps @ (if trailing \<and> ps \<noteq> [] then ''/'' else [])"

lemma join_on_snoc_nil: "ps \<noteq> [] \<Longrightarrow> join_on c (ps @ [[]]) = join_on c ps @ [c]"
  by (induction c ps rule: join_on.induct) auto

lemma join_plain_ne: "list_all plain_segment ps \<Longrightarrow> join_on CHR ''/'' ps = [] \<longleftrightarrow> ps = []"
  by (cases ps rule: remdups_adj.cases) (auto simp: plain_segment_def)

lemma join_plain_last:
  "list_all plain_segment ps \<Longrightarrow> ps \<noteq> [] \<Longrightarrow> last (join_on CHR ''/'' ps) \<noteq> CHR ''/''"
proof (induction "CHR ''/''" ps rule: join_on.induct)
  case (2 p)
  then show ?case by (auto simp: plain_segment_def dest: last_in_set)
next
  case (3 p q ps)
  then have "join_on CHR ''/'' (q # ps) \<noteq> []" by (subst join_plain_ne) auto
  with 3 show ?case by (simp add: list_all_iff)
qed simp

lemma split_plain_path:
  assumes "list_all plain_segment ps"
  shows "split_on CHR ''/'' (plain_path ps b) =
    [] # (if ps = [] then [[]] else if b then ps @ [[]] else ps)"
proof (cases "ps = []")
  case False
  have "\<forall>p \<in> set (ps @ [[]]). CHR ''/'' \<notin> set p" using assms by (auto simp: list_all_iff plain_segment_def)
  with False show ?thesis
    using split_join[of ps "CHR ''/''"] split_join[of "ps @ [[]]" "CHR ''/''"]
    by (simp add: plain_path_def join_on_snoc_nil)
qed (simp add: plain_path_def)

lemma path_Clean_plain: "list_all plain_segment ps \<Longrightarrow> path_Clean (plain_path ps b) = plain_path ps False"
proof -
  assume ps: "list_all plain_segment ps"
  have "clean_segments ([] # (if ps = [] then [[]] else if b then ps @ [[]] else ps)) = ps"
    using ps by (simp add: clean_segments_def fold_clean_plain clean_push_def)
  then show ?thesis by (simp add: path_Clean_def split_plain_path[OF ps]) (simp add: plain_path_def)
qed

lemma plain_path_last:
  "list_all plain_segment ps \<Longrightarrow> last (plain_path ps b) = CHR ''/'' \<longleftrightarrow> b \<or> ps = []"
  using join_plain_last[of ps] join_plain_ne[of ps] by (auto simp: plain_path_def)

lemma plain_path_root: "list_all plain_segment ps \<Longrightarrow> plain_path ps b = ''/'' \<longleftrightarrow> ps = []"
  using join_plain_ne[of ps] by (auto simp: plain_path_def)

text \<open>A path is clean exactly when it is the path of plain segments.\<close>

lemma cleanPath_plain: "list_all plain_segment ps \<Longrightarrow> cleanPath (plain_path ps b) = plain_path ps b"
proof -
  assume ps: "list_all plain_segment ps"
  have "plain_path ps b \<noteq> []" "hd (plain_path ps b) = CHR ''/''" by (simp_all add: plain_path_def)
  then show ?thesis
    unfolding cleanPath_def Let_def
    by (simp add: path_Clean_plain[OF ps] plain_path_last[OF ps] plain_path_root[OF ps])
      (auto simp: plain_path_def)
qed

lemma cleanPath_result: "\<exists>ps b. list_all plain_segment ps \<and> cleanPath p = plain_path ps b"
proof -
  define q where "q = (if p \<noteq> [] \<and> hd p = CHR ''/'' then p else CHR ''/'' # p)"
  let ?ps = "clean_segments (split_on CHR ''/'' q)"
  have ps: "list_all plain_segment ?ps" by (rule clean_segments_result)
  have np: "path_Clean q = plain_path ?ps False" by (simp add: path_Clean_def plain_path_def)
  have "cleanPath p = plain_path ?ps (last q = CHR ''/'')"
  proof (cases "p = []")
    case True
    then have "?ps = []" by (simp add: q_def clean_segments_def clean_push_def)
    then show ?thesis using True by (simp add: cleanPath_def plain_path_def)
  next
    case False
    then have "cleanPath p = (if last q = CHR ''/'' \<and> path_Clean q \<noteq> ''/'' then path_Clean q @ ''/'' else path_Clean q)"
      by (simp add: cleanPath_def q_def Let_def)
    then show ?thesis unfolding np plain_path_root[OF ps] by (simp add: plain_path_def)
  qed
  with ps show ?thesis by blast
qed

lemma cleanPath_idem [simp]: "cleanPath (cleanPath p) = cleanPath p"
  by (metis cleanPath_result cleanPath_plain)

lemma clean_iff_plain: "cleanPath p = p \<longleftrightarrow> (\<exists>ps b. list_all plain_segment ps \<and> p = plain_path ps b)"
  by (metis cleanPath_result cleanPath_plain)

section \<open>Escaped paths\<close>

text \<open>\<^verbatim>\<open>url.PathUnescape\<close>\<close>

fun path_unescape :: "string \<Rightarrow> string option" where
  "path_unescape [] = Some []"
| "path_unescape (c # s) =
     (if c = CHR ''%'' then
        (case s of
           a # b # t \<Rightarrow>
             (case hex_value a of None \<Rightarrow> None
              | Some x \<Rightarrow> (case hex_value b of None \<Rightarrow> None
                 | Some y \<Rightarrow> map_option (Cons (char_of (16 * x + y))) (path_unescape t)))
         | _ \<Rightarrow> None)
      else map_option (Cons c) (path_unescape s))"

lemma path_unescape_plain [simp]: "CHR ''%'' \<notin> set s \<Longrightarrow> path_unescape s = Some s"
  by (induction s) auto

text \<open>A segment is compared unescaped, when it can be.\<close>

definition unescaped_segment :: "string \<Rightarrow> string" where
  "unescaped_segment seg = (case path_unescape seg of None \<Rightarrow> seg | Some u \<Rightarrow> u)"

section \<open>The multiplexer\<close>

record mux_request =
  q_star :: bool
  q_method :: string
  q_escaped :: string
  q_http :: request

type_synonym 'h mux = "(string \<times> 'h) list"

datatype 'h mux_result = Dispatch 'h | Redirect string | MuxNotFound | MuxBadRequest

definition path_segments :: "string \<Rightarrow> string list" where
  "path_segments path = map unescaped_segment (split_on CHR ''/'' (tl path))"

definition mux_match :: "'h mux \<Rightarrow> string \<Rightarrow> 'h option" where
  "mux_match mux path =
     (if path = [] then None
      else
        (case List.find (\<lambda>(pat, h). pat \<noteq> ''/'' \<and> path_segments path = split_on CHR ''/'' (tl pat)) mux of
           Some (pat, h) \<Rightarrow> Some h
         | None \<Rightarrow> map_of mux ''/''))"

text \<open>
  \<^verbatim>\<open>(*ServeMux).ServeHTTP\<close> up to the call of the handler. Only a CONNECT request keeps
  an unclean path. None of the patterns is a subtree other than the root, so the redirect
  that adds a slash never applies.
\<close>

definition mux_dispatch :: "'h mux \<Rightarrow> mux_request \<Rightarrow> 'h mux_result" where
  "mux_dispatch mux q =
     (if q_star q then MuxBadRequest
      else
        (let found = (\<lambda>path. case mux_match mux path of Some h \<Rightarrow> Dispatch h | None \<Rightarrow> MuxNotFound)
         in if q_method q = ''CONNECT'' then found (q_escaped q)
            else
              (let path = cleanPath (q_escaped q)
               in if path \<noteq> q_escaped q then Redirect path else found path)))"

lemma path_segments_plain:
  "list_all plain_segment ps \<Longrightarrow> list_all (\<lambda>p. CHR ''%'' \<notin> set p) ps \<Longrightarrow>
     path_segments (plain_path ps False) = (if ps = [] then [[]] else ps)"
proof -
  assume ps: "list_all plain_segment ps" "list_all (\<lambda>p. CHR ''%'' \<notin> set p) ps"
  have "map unescaped_segment ps = ps"
    using ps(2) by (induction ps) (simp_all add: unescaped_segment_def)
  moreover have "split_on CHR ''/'' (tl (plain_path ps False)) = (if ps = [] then [[]] else ps)"
    using split_plain_path[OF ps(1), of False] by (simp add: plain_path_def)
  ultimately show ?thesis by (simp add: path_segments_def unescaped_segment_def)
qed

section \<open>Handlers on the plain writer\<close>

text \<open>\<^verbatim>\<open>http.Error\<close>, \<^verbatim>\<open>w.Header().Set\<close> and \<^verbatim>\<open>w.Write\<close> on the server's own writer.\<close>

definition error_response :: "string \<Rightarrow> int \<Rightarrow> response_writer \<Rightarrow> response_writer" where
  "error_response msg code w = rec_writer (http_Error msg code (new_recorder w))"

definition writer_set :: "string \<Rightarrow> string \<Rightarrow> response_writer \<Rightarrow> response_writer" where
  "writer_set k v w = w\<lparr>w_header := header_set k v (w_header w)\<rparr>"

definition writer_write :: "string \<Rightarrow> response_writer \<Rightarrow> response_writer" where
  "writer_write s w = w\<lparr>w_body := w_body w @ s\<rparr>"

lemma error_response_codes: "w_codes (error_response msg code w) = w_codes w @ [code]"
  by (simp add: error_response_def http_Error_codes new_recorder_def)

section \<open>Cross-origin requests\<close>

text \<open>
  \<^verbatim>\<open>(*CrossOriginProtection).Check\<close> without exemptions; \<open>origin_host\<close> is the host of the
  parsed Origin header, nothing when it does not parse.
\<close>

definition cross_origin_allowed :: "(string \<Rightarrow> string option) \<Rightarrow> string \<Rightarrow> request \<Rightarrow> bool" where
  "cross_origin_allowed origin_host verb req =
     (if verb = ''GET'' \<or> verb = ''HEAD'' \<or> verb = ''OPTIONS'' then True
      else
        (let site = header_get (r_header req) ''Sec-Fetch-Site'' in
         if site = ''same-origin'' \<or> site = ''none'' then True
         else if site \<noteq> [] then False
         else
           (let origin = header_get (r_header req) ''Origin'' in
            if origin = [] then True else origin_host origin = Some (r_host req))))"

end
