(* ===== verification/Numbers.thy ===== *)
theory Numbers
  imports Float64
begin

text \<open>
  The part of \<^verbatim>\<open>strconv\<close> that the commands read their configuration with:
  \<^verbatim>\<open>Atoi\<close> and \<^verbatim>\<open>ParseFloat\<close>, and the conversions to \<^verbatim>\<open>float64\<close> and
  \<^verbatim>\<open>float32\<close> with their ranges: subnormal results are rounded to the smallest step, and a
  result above the largest finite value is out of range.
\<close>

section \<open>Integers\<close>

definition is_digit :: "char \<Rightarrow> bool" where
  "is_digit c \<longleftrightarrow> 48 \<le> (of_char c :: nat) \<and> (of_char c :: nat) \<le> 57"

definition split_sign :: "string \<Rightarrow> bool \<times> string" where
  "split_sign s =
     (case s of
        [] \<Rightarrow> (False, [])
      | c # t \<Rightarrow> if c = CHR ''-'' then (True, t) else if c = CHR ''+'' then (False, t) else (False, s))"

fun digits_value :: "nat \<Rightarrow> string \<Rightarrow> nat option" where
  "digits_value acc [] = Some acc"
| "digits_value acc (c # s) =
     (if is_digit c then digits_value (acc * 10 + (of_char c - 48)) s else None)"

definition min_int :: int where "min_int = - (2 ^ 63)"
definition max_int :: int where "max_int = 2 ^ 63 - 1"

text \<open>\<^verbatim>\<open>strconv.Atoi\<close>: nothing for a syntax or a range error.\<close>

definition Atoi :: "string \<Rightarrow> int option" where
  "Atoi s =
     (let (neg, t) = split_sign s in
      if t = [] then None
      else
        (case digits_value 0 t of
           None \<Rightarrow> None
         | Some n \<Rightarrow>
             (let v = (if neg then - int n else int n) in
              if v < min_int \<or> max_int < v then None else Some v)))"

lemma digits_value_append:
  "digits_value acc (s @ t) = (case digits_value acc s of None \<Rightarrow> None | Some n \<Rightarrow> digits_value n t)"
  by (induction acc s rule: digits_value.induct) auto

lemma of_char_digit: "d < 10 \<Longrightarrow> (of_char (digit d) :: nat) = 48 + d"
  by (simp add: digit_def)

lemma is_digit_digit [simp]: "d < 10 \<Longrightarrow> is_digit (digit d)"
  by (simp add: is_digit_def of_char_digit)

lemma digits_value_nat_digits: "digits_value 0 (nat_digits n) = Some n"
proof (induction n rule: nat_digits.induct)
  case (1 n)
  show ?case
  proof (cases "n < 10")
    case True
    then show ?thesis by (subst nat_digits.simps) (simp add: of_char_digit)
  next
    case False
    with 1 show ?thesis
      by (subst nat_digits.simps) (simp add: digits_value_append of_char_digit)
  qed
qed

lemma nat_digits_all: "list_all is_digit (nat_digits n)"
proof (induction n rule: nat_digits.induct)
  case (1 n)
  then show ?case by (subst nat_digits.simps) simp
qed

lemma nat_digits_ne [simp]: "nat_digits n \<noteq> []"
  by (subst nat_digits.simps) simp

lemma split_sign_digits: "list_all is_digit t \<Longrightarrow> split_sign t = (False, t)"
  by (cases t) (auto simp: split_sign_def is_digit_def)

lemma Atoi_itoa: "min_int \<le> n \<Longrightarrow> n \<le> max_int \<Longrightarrow> Atoi (itoa n) = Some n"
proof (cases "n < 0")
  case True
  assume "min_int \<le> n" "n \<le> max_int"
  with True show ?thesis
    by (simp add: Atoi_def itoa_def split_sign_def digits_value_nat_digits)
next
  case False
  assume "min_int \<le> n" "n \<le> max_int"
  with False show ?thesis
    using split_sign_digits[OF nat_digits_all, of "nat n"]
    by (simp add: Atoi_def itoa_def digits_value_nat_digits)
qed

lemma Atoi_range: "Atoi s = Some n \<Longrightarrow> min_int \<le> n \<and> n \<le> max_int"
  by (auto simp: Atoi_def Let_def split: prod.splits option.splits if_splits)

section \<open>Floating point formats\<close>

text \<open>
  Rounding to the nearest value with \<open>p\<close> significant bits and a step of at least \<open>2 powr lo\<close>:
  binary64 is \<open>ieee 53 (-1074)\<close>, binary32 is \<open>ieee 24 (-149)\<close>.
\<close>

definition ieee_step :: "int \<Rightarrow> int \<Rightarrow> real \<Rightarrow> int" where
  "ieee_step p lo x = max (f64_exp x - (p - 1)) lo"

definition ieee :: "int \<Rightarrow> int \<Rightarrow> real \<Rightarrow> real" where
  "ieee p lo x = of_int (rne (x / 2 powr of_int (ieee_step p lo x))) * 2 powr of_int (ieee_step p lo x)"

definition max_float64 :: real where "max_float64 = (2 ^ 53 - 1) * 2 ^ 971"
definition max_float32 :: real where "max_float32 = (2 ^ 24 - 1) * 2 ^ 104"

text \<open>The values of a format, without its bound on the exponent.\<close>

definition representable :: "int \<Rightarrow> int \<Rightarrow> real \<Rightarrow> bool" where
  "representable p lo v \<longleftrightarrow> (\<exists>m k. \<bar>m\<bar> \<le> 2 ^ nat p \<and> lo \<le> k \<and> v = of_int m * 2 powr of_int k)"

lemma rne_0 [simp]: "rne 0 = 0"
  using rne_of_int[of 0] by simp

lemma rne_numeral [simp]: "rne (numeral w) = numeral w"
  using rne_of_int[of "numeral w"] by simp

lemma ieee_0 [simp]: "ieee p lo 0 = 0"
  by (simp add: ieee_def)

lemma ieee_nonneg: "0 \<le> x \<Longrightarrow> 0 \<le> ieee p lo x"
proof -
  assume "0 \<le> x"
  then have "rne 0 \<le> rne (x / 2 powr of_int (ieee_step p lo x))" by (intro rne_mono) simp
  then show ?thesis using rne_of_int[of 0] by (simp add: ieee_def)
qed

lemma ieee_err: "\<bar>ieee p lo x - x\<bar> \<le> 2 powr of_int (ieee_step p lo x) / 2"
proof -
  let ?u = "2 powr of_int (ieee_step p lo x) :: real"
  have "ieee p lo x - x = (of_int (rne (x / ?u)) - x / ?u) * ?u" by (simp add: ieee_def algebra_simps)
  then have "\<bar>ieee p lo x - x\<bar> = \<bar>of_int (rne (x / ?u)) - x / ?u\<bar> * ?u" by (simp add: abs_mult)
  also have "\<dots> \<le> 1 / 2 * ?u" by (intro mult_right_mono rne_err) simp
  finally show ?thesis by simp
qed

lemma ieee_f64: "- 1022 \<le> f64_exp x \<Longrightarrow> ieee 53 (- 1074) x = f64 x"
proof -
  assume "- 1022 \<le> f64_exp x"
  then have "ieee_step 53 (- 1074) x = f64_exp x - 52" by (simp add: ieee_step_def)
  then show ?thesis by (cases "x = 0") (simp_all add: ieee_def f64_def f64_ulp_def)
qed

lemma ieee_of_int: "\<bar>n\<bar> \<le> 2 ^ 53 \<Longrightarrow> ieee 53 (- 1074) (of_int n) = of_int n"
proof (cases "n = 0")
  case False
  assume "\<bar>n\<bar> \<le> 2 ^ 53"
  have "1 \<le> \<bar>real_of_int n\<bar>" using False by linarith
  then have "0 \<le> f64_exp (of_int n)" by (simp add: f64_exp_def)
  then show ?thesis using \<open>\<bar>n\<bar> \<le> 2 ^ 53\<close> by (simp add: ieee_f64 f64_of_int)
qed simp

lemma ieee_representable:
  assumes "0 \<le> x" and "0 < p"
  shows "representable p lo (ieee p lo x)"
proof (cases "x = 0")
  case True
  then show ?thesis unfolding representable_def by (intro exI[of _ 0] exI[of _ lo]) simp
next
  case False
  let ?k = "ieee_step p lo x"
  have "x < 2 powr (of_int (f64_exp x) + 1)" using f64_exp_gt[OF False] assms(1) by simp
  also have "\<dots> \<le> 2 powr (of_int p + of_int ?k)" by (simp add: ieee_step_def)
  also have "\<dots> = 2 ^ nat p * 2 powr of_int ?k"
    using assms(2) by (simp add: powr_add flip: powr_realpow)
  finally have "x / 2 powr of_int ?k \<le> of_int (2 ^ nat p)" by (simp add: pos_divide_le_eq)
  then have "rne (x / 2 powr of_int ?k) \<le> 2 ^ nat p" by (metis rne_mono rne_of_int)
  moreover have "0 \<le> rne (x / 2 powr of_int ?k)"
    using rne_mono[of 0 "x / 2 powr of_int ?k"] rne_of_int[of 0] assms(1) by simp
  ultimately show ?thesis
    unfolding representable_def ieee_def
    by (intro exI[of _ "rne (x / 2 powr of_int ?k)"] exI[of _ ?k]) (simp add: ieee_step_def)
qed

section \<open>Floating point numbers\<close>

datatype float_value = FNaN | FInf bool | FNum real

definition lower_ascii :: "string \<Rightarrow> string" where
  "lower_ascii = map lower_byte"

definition special_value :: "string \<Rightarrow> float_value option" where
  "special_value s =
     (let (neg, t) = split_sign s in
      if lower_ascii t = ''inf'' \<or> lower_ascii t = ''infinity'' then Some (FInf neg)
      else if lower_ascii s = ''nan'' then Some FNaN else None)"

text \<open>
  Underscores must separate digits, or a base prefix and a digit. \<open>saw\<close> is the kind of the
  last byte: a digit, an underscore, or another one.
\<close>

datatype saw = SawStart | SawDigit | SawUnderscore | SawOther

fun underscore_scan :: "bool \<Rightarrow> saw \<Rightarrow> string \<Rightarrow> bool" where
  "underscore_scan hex saw [] \<longleftrightarrow> saw \<noteq> SawUnderscore"
| "underscore_scan hex saw (c # s) \<longleftrightarrow>
     (if is_digit c \<or> (hex \<and> hex_value c \<noteq> None) then underscore_scan hex SawDigit s
      else if c = CHR ''_'' then saw = SawDigit \<and> underscore_scan hex SawUnderscore s
      else saw \<noteq> SawUnderscore \<and> underscore_scan hex SawOther s)"

definition underscore_ok :: "string \<Rightarrow> bool" where
  "underscore_ok s \<longleftrightarrow>
     (let t = snd (split_sign s) in
      case t of
        a # b # u \<Rightarrow>
          if a = CHR ''0'' \<and> lower_byte b \<in> {CHR ''b'', CHR ''o'', CHR ''x''}
          then underscore_scan (lower_byte b = CHR ''x'') SawDigit u
          else underscore_scan False SawStart t
      | _ \<Rightarrow> underscore_scan False SawStart t)"

definition base_digit :: "bool \<Rightarrow> char \<Rightarrow> bool" where
  "base_digit hex c \<longleftrightarrow> is_digit c \<or> (hex \<and> hex_value c \<noteq> None)"

definition mantissa_value :: "nat \<Rightarrow> string \<Rightarrow> nat" where
  "mantissa_value base s = fold (\<lambda>c n. n * base + (case hex_value c of None \<Rightarrow> 0 | Some d \<Rightarrow> d)) s 0"

text \<open>The exponent is not read past 10000, which is out of range anyway.\<close>

definition exponent_value :: "string \<Rightarrow> int" where
  "exponent_value s = fold (\<lambda>c e. if e < 10000 then e * 10 + int (of_char c - 48) else e) s 0"

definition read_exponent :: "bool \<Rightarrow> string \<Rightarrow> int option" where
  "read_exponent hex s =
     (case s of
        [] \<Rightarrow> if hex then None else Some 0
      | c # t \<Rightarrow>
          if lower_byte c = (if hex then CHR ''p'' else CHR ''e'') then
            (let (neg, u) = split_sign t in
             if u = [] \<or> \<not> list_all is_digit u then None
             else Some (if neg then - exponent_value u else exponent_value u))
          else None)"

text \<open>\<^verbatim>\<open>readFloat\<close> after the sign: the exact value of the text.\<close>

definition read_unsigned :: "string \<Rightarrow> real option" where
  "read_unsigned s =
     (let hex = (2 < length s \<and> s ! 0 = CHR ''0'' \<and> lower_byte (s ! 1) = CHR ''x'');
          body = (if hex then drop 2 s else s);
          ip = takeWhile (base_digit hex) body;
          r = dropWhile (base_digit hex) body;
          dot = (r \<noteq> [] \<and> hd r = CHR ''.'');
          fp = (if dot then takeWhile (base_digit hex) (tl r) else []);
          rest = (if dot then dropWhile (base_digit hex) (tl r) else r)
      in if ip @ fp = [] then None
         else
           (case read_exponent hex rest of
              None \<Rightarrow> None
            | Some e \<Rightarrow>
                if hex then Some (of_nat (mantissa_value 16 (ip @ fp)) * 2 powr of_int (e - 4 * int (length fp)))
                else Some (of_nat (mantissa_value 10 (ip @ fp)) * 10 powr of_int (e - int (length fp)))))"

text \<open>\<^verbatim>\<open>strconv.ParseFloat(s, 64)\<close>: nothing for a syntax or a range error.\<close>

definition ParseFloat :: "string \<Rightarrow> float_value option" where
  "ParseFloat s =
     (case special_value s of
        Some v \<Rightarrow> Some v
      | None \<Rightarrow>
          if CHR ''_'' \<in> set s \<and> \<not> underscore_ok s then None
          else
            (let (neg, t) = split_sign (filter (\<lambda>c. c \<noteq> CHR ''_'') s) in
             case read_unsigned t of
               None \<Rightarrow> None
             | Some x \<Rightarrow>
                 (let v = ieee 53 (- 1074) x in
                  if max_float64 < v then None else Some (FNum (if neg then - v else v)))))"

text \<open>\<^verbatim>\<open>float32(v)\<close> for a value of the range of \<^verbatim>\<open>float32\<close>.\<close>

definition to_float32 :: "real \<Rightarrow> real" where
  "to_float32 v = ieee 24 (- 149) v"

lemma read_unsigned_nonneg: "read_unsigned s = Some x \<Longrightarrow> 0 \<le> x"
  by (auto simp: read_unsigned_def Let_def split: option.splits if_splits)

text \<open>A parsed number is a finite binary64 value.\<close>

lemma representable_minus: "representable p lo v \<Longrightarrow> representable p lo (- v)"
  unfolding representable_def by (metis abs_minus_cancel minus_mult_left of_int_minus)

lemma ParseFloat_rounded:
  "ParseFloat s = Some (FNum v) \<Longrightarrow>
     \<exists>x. 0 \<le> x \<and> ieee 53 (- 1074) x \<le> max_float64 \<and> (v = ieee 53 (- 1074) x \<or> v = - ieee 53 (- 1074) x)"
  by (auto simp: ParseFloat_def special_value_def Let_def not_less intro!: exI read_unsigned_nonneg
      split: option.splits prod.splits if_splits)

lemma ParseFloat_range:
  assumes "ParseFloat s = Some (FNum v)"
  shows "representable 53 (- 1074) v" and "\<bar>v\<bar> \<le> max_float64"
proof -
  from ParseFloat_rounded[OF assms] obtain x where x: "0 \<le> x" "ieee 53 (- 1074) x \<le> max_float64"
    and v: "v = ieee 53 (- 1074) x \<or> v = - ieee 53 (- 1074) x" by blast
  show "representable 53 (- 1074) v"
    using v ieee_representable[OF x(1), of 53 "- 1074"] representable_minus by auto
  show "\<bar>v\<bar> \<le> max_float64" using v x(2) ieee_nonneg[OF x(1), of 53 "- 1074"] by auto
qed

text \<open>The text of an integer is read back as that integer, exactly, up to \<open>2 ^ 53\<close>.\<close>

lemma digit_not_special:
  "is_digit c \<Longrightarrow> c \<notin> {CHR ''_'', CHR ''+'', CHR ''-'', CHR ''.'', CHR ''e'', CHR ''x''}
     \<and> lower_byte c = c \<and> hex_value c = Some (of_char c - 48)"
  by (auto simp: is_digit_def lower_byte_def hex_value_def)

lemma lower_digits: "list_all is_digit s \<Longrightarrow> lower_ascii s = s"
  using digit_not_special by (induction s) (auto simp: lower_ascii_def)

lemma special_value_digits: "list_all is_digit s \<Longrightarrow> special_value s = None"
  using lower_digits[of s] by (auto simp: special_value_def split_sign_digits is_digit_def)

lemma mantissa_digits:
  "list_all is_digit s \<Longrightarrow>
     digits_value n s = Some (fold (\<lambda>c n. n * 10 + (case hex_value c of None \<Rightarrow> 0 | Some d \<Rightarrow> d)) s n)"
  using digit_not_special by (induction s arbitrary: n) auto

lemma read_unsigned_digits:
  assumes "list_all is_digit s" and "s \<noteq> []"
  shows "read_unsigned s = Some (of_nat (mantissa_value 10 s))"
proof -
  have "lower_byte (s ! 1) \<noteq> CHR ''x''" if "2 < length s"
    using assms(1) digit_not_special[of "s ! 1"] that by (auto simp: list_all_length)
  then have hex: "(2 < length s \<and> s ! 0 = CHR ''0'' \<and> lower_byte (s ! 1) = CHR ''x'') = False" by blast
  have all: "\<forall>c \<in> set s. base_digit False c" using assms(1) by (auto simp: base_digit_def list_all_iff)
  then have tw: "takeWhile (base_digit False) s = s" "dropWhile (base_digit False) s = []" by auto
  show ?thesis
    unfolding read_unsigned_def hex using assms(2) by (simp add: read_exponent_def tw Let_def)
qed

lemma ParseFloat_itoa:
  assumes "0 \<le> n" and "n \<le> 2 ^ 53"
  shows "ParseFloat (itoa n) = Some (FNum (of_int n))"
proof -
  let ?s = "nat_digits (nat n)"
  have d: "list_all is_digit ?s" by (rule nat_digits_all)
  have plain: "CHR ''_'' \<notin> set ?s" using d digit_not_special by (auto simp: list_all_iff)
  then have "filter (\<lambda>c. c \<noteq> CHR ''_'') ?s = ?s" by (auto intro!: filter_True)
  moreover have "mantissa_value 10 ?s = nat n"
    using mantissa_digits[OF d, of 0] digits_value_nat_digits[of "nat n"] by (simp add: mantissa_value_def)
  moreover have "ieee 53 (- 1074) (of_int n) = of_int n" using assms by (intro ieee_of_int) simp
  moreover have "of_int n \<le> max_float64"
  proof -
    have "real_of_int n \<le> 2 ^ 53" using assms(2) by (simp flip: of_int_le_iff)
    also have "\<dots> \<le> max_float64" by (simp add: max_float64_def)
    finally show ?thesis .
  qed
  ultimately show ?thesis
    using assms(1) plain
    by (simp add: ParseFloat_def itoa_def special_value_digits[OF d] split_sign_digits[OF d]
        read_unsigned_digits[OF d] not_less)
qed

section \<open>Single precision\<close>

lemma to_float32_le:
  assumes "0 \<le> x" and "x \<le> max_float32"
  shows "to_float32 x \<le> max_float32"
proof (cases "x = 0")
  case False
  then have x: "0 < x" using assms(1) by simp
  have "x < 2 powr 128" using assms(2) by (simp add: max_float32_def powr_numeral)
  moreover have "2 powr of_int (f64_exp x) \<le> x" using f64_exp_le[of x] x by simp
  ultimately have "2 powr of_int (f64_exp x) < (2::real) powr 128" by (rule le_less_trans[rotated])
  from powr_less_cancel[OF this] have e: "f64_exp x \<le> 127" by simp
  show ?thesis
  proof (cases "f64_exp x = 127")
    case True
    then have k: "ieee_step 24 (- 149) x = 104" by (simp add: ieee_step_def)
    have "x / 2 powr 104 \<le> of_int (2 ^ 24 - 1)"
      using assms(2) by (simp add: max_float32_def pos_divide_le_eq powr_numeral)
    then have "rne (x / 2 powr 104) \<le> 2 ^ 24 - 1" by (metis rne_mono rne_of_int)
    then have "real_of_int (rne (x / 2 powr 104)) \<le> 2 ^ 24 - 1" by (simp flip: of_int_le_iff)
    then show ?thesis unfolding to_float32_def ieee_def k max_float32_def
      by (simp add: powr_numeral)
  next
    case False
    with e have e: "f64_exp x \<le> 126" by simp
    have k: "ieee_step 24 (- 149) x \<le> 103" using e by (simp add: ieee_step_def)
    have "x < 2 powr (of_int (f64_exp x) + 1)" using f64_exp_gt[of x] x by simp
    also have "\<dots> \<le> 2 powr 127" by (rule powr_mono) (use e in simp_all)
    finally have "x \<le> 2 ^ 127" by (simp add: powr_numeral)
    moreover have "2 powr of_int (ieee_step 24 (- 149) x) \<le> (2::real) powr 103" by (rule powr_mono) (use k in simp_all)
    then have "2 powr of_int (ieee_step 24 (- 149) x) \<le> (2::real) ^ 103" by (simp add: powr_numeral)
    ultimately have "to_float32 x \<le> 2 ^ 127 + 2 ^ 103"
      using ieee_err[of 24 "- 149" x] unfolding to_float32_def abs_le_iff by linarith
    then show ?thesis by (simp add: max_float32_def)
  qed
qed (simp add: to_float32_def max_float32_def)

lemma to_float32_representable: "0 \<le> x \<Longrightarrow> representable 24 (- 149) (to_float32 x)"
  unfolding to_float32_def by (rule ieee_representable) simp_all

end
