(* ===== verification/GatewayMain.thy ===== *)
theory GatewayMain
  imports GatewaySystem Mux Numbers
begin

text \<open>
  The gateway command (\<^verbatim>\<open>cmd/gateway/main.go\<close>): how the configuration is read from the
  process environment, in which order the start can fail, and what the running server does
  with a request before the router sees it.

  The process environment, the answers of the Kubernetes client libraries and the token
  reviewer are the record \<open>main_env\<close>; an error is its message, and \<open>quote\<close> is the
  \<^verbatim>\<open>%q\<close> verb. The registry's own start-up is \<open>open_registry\<close>.
\<close>

section \<open>Settings\<close>

definition positive_float_error :: "(string \<Rightarrow> string) \<Rightarrow> string \<Rightarrow> string \<Rightarrow> string" where
  "positive_float_error quote name s = ''invalid '' @ name @ ''='' @ quote s @ '': want a positive number''"

definition envFloat :: "(string \<Rightarrow> string) \<Rightarrow> (string \<Rightarrow> string) \<Rightarrow> string \<Rightarrow> real \<Rightarrow> string + real" where
  "envFloat quote getenv name def =
     (let s = getenv name in
      if s = [] then Inr def
      else
        (case ParseFloat s of
           Some (FNum v) \<Rightarrow> if v \<le> 0 then Inl (positive_float_error quote name s) else Inr v
         | _ \<Rightarrow> Inl (positive_float_error quote name s)))"

definition envFloat32 :: "(string \<Rightarrow> string) \<Rightarrow> (string \<Rightarrow> string) \<Rightarrow> string \<Rightarrow> real \<Rightarrow> string + real" where
  "envFloat32 quote getenv name def =
     (case envFloat quote getenv name def of
        Inl err \<Rightarrow> Inl err
      | Inr v \<Rightarrow>
          if max_float32 < v \<or> to_float32 v = 0 then Inl (name @ '' must fit in a positive float32'')
          else Inr (to_float32 v))"

definition envInt :: "(string \<Rightarrow> string) \<Rightarrow> (string \<Rightarrow> string) \<Rightarrow> string \<Rightarrow> int \<Rightarrow> string + int" where
  "envInt quote getenv name def =
     (let s = getenv name in
      if s = [] then Inr def
      else
        (case Atoi s of
           None \<Rightarrow> Inl (''invalid '' @ name @ ''='' @ quote s @ '': want a positive integer'')
         | Some v \<Rightarrow>
             if v < 1 then Inl (''invalid '' @ name @ ''='' @ quote s @ '': want a positive integer'')
             else Inr v))"

text \<open>The texts the parsers accept.\<close>

definition float_setting :: "(string \<Rightarrow> string) \<Rightarrow> string \<Rightarrow> real \<Rightarrow> real \<Rightarrow> bool" where
  "float_setting getenv name def v \<longleftrightarrow>
     (if getenv name = [] then v = def else ParseFloat (getenv name) = Some (FNum v) \<and> 0 < v)"

definition int_setting :: "(string \<Rightarrow> string) \<Rightarrow> string \<Rightarrow> int \<Rightarrow> int \<Rightarrow> bool" where
  "int_setting getenv name def v \<longleftrightarrow>
     (if getenv name = [] then v = def else Atoi (getenv name) = Some v \<and> 0 < v)"

lemma envFloat_Inr: "envFloat quote getenv name def = Inr v \<longleftrightarrow> float_setting getenv name def v"
  by (auto simp: envFloat_def float_setting_def Let_def split: option.splits float_value.splits)

lemma envInt_Inr: "envInt quote getenv name def = Inr v \<longleftrightarrow> int_setting getenv name def v"
  by (auto simp: envInt_def int_setting_def Let_def split: option.splits)

lemma envFloat32_Inr:
  "envFloat32 quote getenv name def = Inr q \<longleftrightarrow>
     (\<exists>v. float_setting getenv name def v \<and> v \<le> max_float32 \<and> q = to_float32 v \<and> q \<noteq> 0)"
proof (cases "envFloat quote getenv name def")
  case (Inl err)
  then have "\<not> float_setting getenv name def v" for v by (metis envFloat_Inr Inl_Inr_False)
  with Inl show ?thesis by (simp add: envFloat32_def)
next
  case (Inr w)
  then have "float_setting getenv name def v \<longleftrightarrow> v = w" for v by (metis envFloat_Inr sum.inject(2))
  with Inr show ?thesis by (auto simp: envFloat32_def not_less)
qed

section \<open>Start\<close>

record main_env =
  me_getenv :: "string \<Rightarrow> string"
  me_kube_config :: "string option"
  me_reviews :: "string + reviewer"
  me_registry_config :: "string option"
  me_scheme :: "string option"
  me_kube_client :: "string option"

text \<open>\<^verbatim>\<open>gateway.NewRegistry\<close>, with the errors of the client libraries.\<close>

definition open_registry :: "main_env \<Rightarrow> string + Registry" where
  "open_registry e =
     (case me_registry_config e of
        Some err \<Rightarrow> Inl (''loading kube config: '' @ err)
      | None \<Rightarrow>
          (case me_scheme e of
             Some err \<Rightarrow> Inl err
           | None \<Rightarrow>
               (case me_kube_client e of
                  Some err \<Rightarrow> Inl (''creating k8s client: '' @ err)
                | None \<Rightarrow> Inr NewRegistry)))"

record gateway_server =
  gs_addr :: string
  gs_qps :: real
  gs_review_burst :: int
  gs_reviewer :: reviewer
  gs_auth :: ServiceAccountAuthenticator
  gs_gateway :: Gateway
  gs_read_header_timeout :: duration

text \<open>\<open>Inl\<close> is the message of the fatal error that ends the process.\<close>

definition gateway_main :: "(string \<Rightarrow> string) \<Rightarrow> main_env \<Rightarrow> string + gateway_server" where
  "gateway_main quote e =
     (let addr0 = me_getenv e ''GATEWAY_ADDR'';
          addr = (if addr0 = [] then '':8080'' else addr0)
      in case envFloat quote (me_getenv e) ''GATEWAY_RATE_LIMIT_RPS'' 5 of
           Inl err \<Rightarrow> Inl err
         | Inr rps \<Rightarrow>
      (case envInt quote (me_getenv e) ''GATEWAY_RATE_LIMIT_BURST'' 10 of
         Inl err \<Rightarrow> Inl err
       | Inr b \<Rightarrow>
      (let audience0 = me_getenv e ''GATEWAY_AUTH_AUDIENCE'';
           audience = (if audience0 = [] then ''portkeeper'' else audience0)
       in case me_kube_config e of
            Some err \<Rightarrow> Inl (''loading authentication kube config: '' @ err)
          | None \<Rightarrow>
      (case envFloat32 quote (me_getenv e) ''GATEWAY_TOKEN_REVIEW_QPS'' 5 of
         Inl err \<Rightarrow> Inl err
       | Inr qps \<Rightarrow>
      (case envInt quote (me_getenv e) ''GATEWAY_TOKEN_REVIEW_BURST'' 10 of
         Inl err \<Rightarrow> Inl err
       | Inr review_burst \<Rightarrow>
      (case me_reviews e of
         Inl err \<Rightarrow> Inl (''creating authentication client: '' @ err)
       | Inr reviews \<Rightarrow>
      (case NewServiceAccountAuthenticator (Some reviews) audience of
         Inl err \<Rightarrow> Inl (error_message err)
       | Inr (rv, auth) \<Rightarrow>
      (case open_registry e of
         Inl err \<Rightarrow> Inl (''failed to start registry watcher: '' @ err)
       | Inr reg \<Rightarrow>
           Inr \<lparr>gs_addr = addr, gs_qps = qps, gs_review_burst = review_burst, gs_reviewer = rv,
             gs_auth = auth, gs_gateway = NewRouter reg (NewAgentLimiter f64 rps b),
             gs_read_header_timeout = 5 * second\<rparr>))))))))"

definition main_audience :: "main_env \<Rightarrow> string" where
  "main_audience e =
     (if me_getenv e ''GATEWAY_AUTH_AUDIENCE'' = [] then ''portkeeper'' else me_getenv e ''GATEWAY_AUTH_AUDIENCE'')"

definition main_addr :: "main_env \<Rightarrow> string" where
  "main_addr e = (if me_getenv e ''GATEWAY_ADDR'' = [] then '':8080'' else me_getenv e ''GATEWAY_ADDR'')"

lemma open_registry_Inr:
  "open_registry e = Inr r \<longleftrightarrow>
     me_registry_config e = None \<and> me_scheme e = None \<and> me_kube_client e = None \<and> r = NewRegistry"
  by (auto simp: open_registry_def split: option.splits)

lemma main_audience_ne [simp]: "main_audience e \<noteq> []"
  by (simp add: main_audience_def)

lemma NewServiceAccountAuthenticator_Inr:
  "audience \<noteq> [] \<Longrightarrow> NewServiceAccountAuthenticator (Some rv0) audience = Inr (rv, a) \<longleftrightarrow>
     go_trim_space audience = audience \<and> rv = rv0 \<and> a = \<lparr>sa_audience = audience, sa_inflight = 0\<rparr>"
  by (auto simp: NewServiceAccountAuthenticator_def)

lemma gateway_main_Inr:
  "gateway_main quote e = Inr s \<longleftrightarrow>
     (\<exists>rps b v qb rv.
        float_setting (me_getenv e) ''GATEWAY_RATE_LIMIT_RPS'' 5 rps \<and>
        int_setting (me_getenv e) ''GATEWAY_RATE_LIMIT_BURST'' 10 b \<and>
        float_setting (me_getenv e) ''GATEWAY_TOKEN_REVIEW_QPS'' 5 v \<and> v \<le> max_float32 \<and> to_float32 v \<noteq> 0 \<and>
        int_setting (me_getenv e) ''GATEWAY_TOKEN_REVIEW_BURST'' 10 qb \<and>
        go_trim_space (main_audience e) = main_audience e \<and>
        me_kube_config e = None \<and> me_reviews e = Inr rv \<and>
        me_registry_config e = None \<and> me_scheme e = None \<and> me_kube_client e = None \<and>
        s = \<lparr>gs_addr = main_addr e, gs_qps = to_float32 v, gs_review_burst = qb, gs_reviewer = rv,
             gs_auth = \<lparr>sa_audience = main_audience e, sa_inflight = 0\<rparr>,
             gs_gateway = new_gateway rps b, gs_read_header_timeout = 5 * second\<rparr>)"
proof -
  have bind: "(case x of Inl err \<Rightarrow> Inl (h err) | Inr y \<Rightarrow> k y) = Inr s \<longleftrightarrow> (\<exists>y. x = Inr y \<and> k y = Inr s)"
    for x :: "'x + 'y" and h :: "'x \<Rightarrow> string" and k :: "'y \<Rightarrow> string + gateway_server"
    by (cases x) auto
  have opt: "(case x of Some err \<Rightarrow> Inl (h err) | None \<Rightarrow> k) = Inr s \<longleftrightarrow> x = None \<and> k = Inr s"
    for x :: "string option" and h and k :: "string + gateway_server"
    by (cases x) auto
  show ?thesis
    unfolding gateway_main_def Let_def bind opt envFloat_Inr envInt_Inr envFloat32_Inr open_registry_Inr
      main_audience_def[symmetric] main_addr_def[symmetric] split_paired_Ex prod.case
      NewServiceAccountAuthenticator_Inr[OF main_audience_ne]
    by (simp add: new_gateway_def) blast
qed

text \<open>
  The gateway starts exactly when each setting is unset or a number of its kind, positive and
  in range, the audience has no outer white space, and the cluster is reachable; then it serves
  the configured address with an empty registry, a fresh limiter and no review in flight.
\<close>

theorem gateway_starts_iff:
  "gateway_main quote e = Inr s \<longleftrightarrow>
     (\<exists>rps b v qb rv.
        float_setting (me_getenv e) ''GATEWAY_RATE_LIMIT_RPS'' 5 rps \<and>
        int_setting (me_getenv e) ''GATEWAY_RATE_LIMIT_BURST'' 10 b \<and>
        float_setting (me_getenv e) ''GATEWAY_TOKEN_REVIEW_QPS'' 5 v \<and> v \<le> max_float32 \<and> to_float32 v \<noteq> 0 \<and>
        int_setting (me_getenv e) ''GATEWAY_TOKEN_REVIEW_BURST'' 10 qb \<and>
        go_trim_space (main_audience e) = main_audience e \<and>
        me_kube_config e = None \<and> me_reviews e = Inr rv \<and>
        me_registry_config e = None \<and> me_scheme e = None \<and> me_kube_client e = None \<and>
        s = \<lparr>gs_addr = main_addr e, gs_qps = to_float32 v, gs_review_burst = qb, gs_reviewer = rv,
             gs_auth = \<lparr>sa_audience = main_audience e, sa_inflight = 0\<rparr>,
             gs_gateway = new_gateway rps b, gs_read_header_timeout = 5 * second\<rparr>)"
  by (rule gateway_main_Inr)

lemma float_setting_range:
  assumes "float_setting getenv name (of_int d) v" and "0 < d" and "d \<le> 2 ^ 53"
  shows "representable 53 (- 1074) v" and "0 < v" and "v \<le> max_float64"
proof -
  have "representable 53 (- 1074) (of_int d)"
    unfolding representable_def using assms(2,3) by (intro exI[of _ d] exI[of _ 0]) simp
  moreover have "of_int d \<le> max_float64"
  proof -
    have "real_of_int d \<le> 2 ^ 53" using assms(3) by (simp flip: of_int_le_iff)
    then show ?thesis by (simp add: max_float64_def)
  qed
  moreover have "\<bar>v\<bar> \<le> max_float64 \<Longrightarrow> v \<le> max_float64" by simp
  ultimately show "representable 53 (- 1074) v" "0 < v" "v \<le> max_float64"
    using assms ParseFloat_range[of "getenv name" v] by (auto simp: float_setting_def split: if_splits)
qed

lemma int_setting_range:
  "int_setting getenv name d v \<Longrightarrow> 0 < d \<Longrightarrow> d \<le> max_int \<Longrightarrow> 1 \<le> v \<and> v \<le> max_int"
  using Atoi_range[of "getenv name" v] by (auto simp: int_setting_def split: if_splits)

lemma to_float32_positive: "0 < v \<Longrightarrow> to_float32 v \<noteq> 0 \<Longrightarrow> 0 < to_float32 v"
  using ieee_nonneg[of v 24 "- 149"] by (simp add: to_float32_def)

text \<open>
  C29. The values a running gateway works with are of their machine types and usable: a positive
  finite binary64 rate, a burst of at least one token, a positive finite binary32 rate and a
  positive int64 burst for the token reviews, a nonempty address and an unpadded audience; and
  the state it starts from satisfies the invariant of the router.
\<close>

theorem gateway_config_typed:
  assumes "gateway_main quote e = Inr s"
  shows "representable 53 (- 1074) (rate (g_limiter (gs_gateway s)))
    \<and> 0 < rate (g_limiter (gs_gateway s)) \<and> rate (g_limiter (gs_gateway s)) \<le> max_float64
    \<and> 1 \<le> burst (g_limiter (gs_gateway s)) \<and> burst (g_limiter (gs_gateway s)) \<le> 2 ^ 63
    \<and> representable 24 (- 149) (gs_qps s) \<and> 0 < gs_qps s \<and> gs_qps s \<le> max_float32
    \<and> 1 \<le> gs_review_burst s \<and> gs_review_burst s \<le> max_int
    \<and> gs_addr s \<noteq> [] \<and> sa_audience (gs_auth s) \<noteq> []
    \<and> go_trim_space (sa_audience (gs_auth s)) = sa_audience (gs_auth s)
    \<and> gateway_ok (gs_gateway s)"
proof -
  from assms obtain rps b v qb rv where
    rps: "float_setting (me_getenv e) ''GATEWAY_RATE_LIMIT_RPS'' (of_int 5) rps"
    and b: "int_setting (me_getenv e) ''GATEWAY_RATE_LIMIT_BURST'' 10 b"
    and v: "float_setting (me_getenv e) ''GATEWAY_TOKEN_REVIEW_QPS'' (of_int 5) v" "v \<le> max_float32" "to_float32 v \<noteq> 0"
    and qb: "int_setting (me_getenv e) ''GATEWAY_TOKEN_REVIEW_BURST'' 10 qb"
    and audience: "go_trim_space (main_audience e) = main_audience e"
    and s: "s = \<lparr>gs_addr = main_addr e, gs_qps = to_float32 v, gs_review_burst = qb, gs_reviewer = rv,
             gs_auth = \<lparr>sa_audience = main_audience e, sa_inflight = 0\<rparr>,
             gs_gateway = new_gateway rps b, gs_read_header_timeout = 5 * second\<rparr>"
    unfolding gateway_main_Inr by auto
  note r = float_setting_range[OF rps] and q = float_setting_range[OF v(1)]
  have b1: "1 \<le> b" "b \<le> max_int" using int_setting_range[OF b] by (simp_all add: max_int_def)
  have bf: "1 \<le> f64 (of_int b)" "f64 (of_int b) \<le> 2 ^ 63"
    using f64_mono[of 1 "of_int b"] f64_mono[of "of_int b" "2 ^ 63"] b1 f64_exact[of 1 63]
    by (simp_all add: max_int_def powr_numeral)
  show ?thesis
    using r b1 bf q v to_float32_positive[of v] to_float32_le[of v] to_float32_representable[of v]
      int_setting_range[OF qb] audience new_gateway_ok[of rps b]
    by (simp add: s new_gateway_def NewRouter_def NewAgentLimiter_def main_addr_def max_int_def)
qed

definition sample_main_env :: main_env where
  "sample_main_env = \<lparr>
     me_getenv = (\<lambda>name. if name = ''GATEWAY_RATE_LIMIT_RPS'' then itoa 50
       else if name = ''GATEWAY_RATE_LIMIT_BURST'' then itoa 20 else []),
     me_kube_config = None, me_reviews = Inr (\<lambda>token audiences. (None, Some ''unreachable'')),
     me_registry_config = None, me_scheme = None, me_kube_client = None\<rparr>"

lemma itoa_ne [simp]: "itoa n \<noteq> []"
  by (simp add: itoa_def)

lemma float32_five: "to_float32 5 = 5"
proof -
  have e: "f64_exp 5 = 2" unfolding f64_exp_def by (rule floor_unique) (simp_all add: le_log_iff log_less_iff powr_numeral)
  show ?thesis
    unfolding to_float32_def ieee_def ieee_step_def e by (simp add: max_def powr_minus powr_numeral)
qed

lemma sample_main_starts:
  "gateway_main quote sample_main_env = Inr \<lparr>gs_addr = '':8080'', gs_qps = 5, gs_review_burst = 10,
     gs_reviewer = (\<lambda>token audiences. (None, Some ''unreachable'')),
     gs_auth = \<lparr>sa_audience = ''portkeeper'', sa_inflight = 0\<rparr>,
     gs_gateway = new_gateway 50 20, gs_read_header_timeout = 5 * second\<rparr>"
proof -
  have "go_trim_space ''portkeeper'' = ''portkeeper''" by code_simp
  moreover have "ParseFloat (itoa 50) = Some (FNum 50)" using ParseFloat_itoa[of 50] by simp
  moreover have "Atoi (itoa 20) = Some 20" by (rule Atoi_itoa) (simp_all add: min_int_def max_int_def)
  moreover have "(5::real) \<le> max_float32" by (simp add: max_float32_def)
  ultimately show ?thesis
    unfolding gateway_main_Inr
    by (intro exI[of _ 50] exI[of _ 20] exI[of _ 5] exI[of _ 10])
      (simp add: sample_main_env_def float_setting_def int_setting_def main_audience_def main_addr_def float32_five)
qed

theorem gateway_config_typed_witness:
  "\<exists>s. gateway_main id sample_main_env = Inr s \<and> 0 < rate (g_limiter (gs_gateway s)) \<and>
     1 \<le> burst (g_limiter (gs_gateway s)) \<and> gs_qps s \<le> max_float32 \<and> gateway_ok (gs_gateway s)"
  using gateway_config_typed[OF sample_main_starts[of id]] sample_main_starts[of id] by blast

section \<open>Serving\<close>

datatype gateway_handler = ReadyzHandler | MetricsHandler | RouterHandler

definition gateway_mux :: "gateway_handler mux" where
  "gateway_mux = [(''/readyz'', ReadyzHandler), (''/metrics'', MetricsHandler), (''/'', RouterHandler)]"

definition readyz :: "Registry \<Rightarrow> response_writer \<Rightarrow> response_writer" where
  "readyz reg w =
     (if \<not> HasSynced reg then error_response ''waiting for initial registry sync'' 503 w
      else w\<lparr>w_codes := w_codes w @ [200]\<rparr>)"

text \<open>
  One request to the server: \<open>page\<close> is what \<^verbatim>\<open>promhttp.Handler\<close> writes for the current
  metrics. The answer tells the router's exchange from those of the other handlers and from
  the redirects and refusals of the multiplexer itself.
\<close>

datatype gateway_answer =
    Routed served
  | Probed response_writer
  | Page response_writer
  | Moved string
  | Refused int

definition gateway_serve :: "(Gateway \<Rightarrow> response_writer \<Rightarrow> response_writer) \<Rightarrow> (request \<Rightarrow> auth_result) option
    \<Rightarrow> env \<Rightarrow> mux_request \<Rightarrow> response_writer \<Rightarrow> Gateway \<Rightarrow> gateway_answer \<times> Gateway" where
  "gateway_serve page auth e q w g =
     (case mux_dispatch gateway_mux q of
        Dispatch h \<Rightarrow>
          (case h of
             ReadyzHandler \<Rightarrow> (Probed (readyz (g_registry g) w), g)
           | MetricsHandler \<Rightarrow> (Page (page g w), g)
           | RouterHandler \<Rightarrow>
               (let s = ServeHTTP auth e (q_http q) w g in (Routed s, s_gateway s)))
      | Redirect path \<Rightarrow> (Moved path, g)
      | MuxNotFound \<Rightarrow> (Refused 404, g)
      | MuxBadRequest \<Rightarrow> (Refused 400, g))"

text \<open>Runs of the whole server, and the part of them that the router sees.\<close>

datatype http_event =
    HttpPoll poll
  | HttpRequest "(request \<Rightarrow> auth_result) option" env mux_request response_writer

fun http_step :: "condition_finder \<Rightarrow> (Gateway \<Rightarrow> response_writer \<Rightarrow> response_writer) \<Rightarrow> http_event \<Rightarrow> Gateway \<Rightarrow> Gateway" where
  "http_step f page (HttpPoll p) g = g\<lparr>g_registry := refresh f p (g_registry g)\<rparr>"
| "http_step f page (HttpRequest auth e q w) g = snd (gateway_serve page auth e q w g)"

fun http_run :: "condition_finder \<Rightarrow> (Gateway \<Rightarrow> response_writer \<Rightarrow> response_writer) \<Rightarrow> http_event list \<Rightarrow> Gateway \<Rightarrow> Gateway" where
  "http_run f page [] g = g"
| "http_run f page (ev # evs) g = http_run f page evs (http_step f page ev g)"

fun router_events :: "http_event list \<Rightarrow> gw_event list" where
  "router_events [] = []"
| "router_events (HttpPoll p # evs) = Poll p # router_events evs"
| "router_events (HttpRequest auth e q w # evs) =
     (if mux_dispatch gateway_mux q = Dispatch RouterHandler
      then Request auth e (q_http q) w # router_events evs else router_events evs)"

fun http_polls :: "http_event list \<Rightarrow> poll list" where
  "http_polls [] = []"
| "http_polls (HttpPoll p # evs) = p # http_polls evs"
| "http_polls (HttpRequest _ _ _ _ # evs) = http_polls evs"

lemma polls_router_events [simp]: "polls_of (router_events evs) = http_polls evs"
  by (induction evs rule: router_events.induct) simp_all

lemma http_request_step:
  "http_step f page (HttpRequest auth e q w) g =
     (if mux_dispatch gateway_mux q = Dispatch RouterHandler
      then s_gateway (ServeHTTP auth e (q_http q) w g) else g)"
  by (simp add: gateway_serve_def Let_def split: mux_result.split gateway_handler.split)

lemma http_run_router: "http_run f page evs g = gw_run f (router_events evs) g"
proof (induction evs arbitrary: g rule: router_events.induct)
  case (3 auth e q w evs)
  then show ?case by (simp add: http_request_step del: http_step.simps(2))
qed simp_all

text \<open>
  Readiness probes, metrics scrapes, redirects and refused requests never change the state
  of the gateway: a run of the whole server is the run of the router on the requests that reach
  it, so what holds of every run of the router holds of the server.
\<close>

theorem server_run_is_router_run:
  "http_run f page evs g = gw_run f (router_events evs) g \<and> polls_of (router_events evs) = http_polls evs"
  by (simp add: http_run_router)

lemma gateway_mux_match:
  "mux_match gateway_mux path =
     (if path = [] then None
      else if path_segments path = [''readyz''] then Some ReadyzHandler
      else if path_segments path = [''metrics''] then Some MetricsHandler
      else Some RouterHandler)"
  by (simp add: mux_match_def gateway_mux_def)

lemma router_dispatch:
  "mux_dispatch gateway_mux q = Dispatch RouterHandler \<longleftrightarrow>
      \<not> q_star q \<and> q_escaped q \<noteq> [] \<and> path_segments (q_escaped q) \<notin> {[''readyz''], [''metrics'']} \<and>
      (q_method q = ''CONNECT'' \<or>
         (\<exists>ps trailing. list_all plain_segment ps \<and> q_escaped q = plain_path ps trailing))"
  unfolding clean_iff_plain[symmetric] by (auto simp: mux_dispatch_def gateway_mux_match Let_def)

lemma redirected_once:
  "mux_dispatch gateway_mux q = Redirect path \<Longrightarrow> q_method q \<noteq> ''CONNECT'' \<and> path \<noteq> q_escaped q \<and> path = cleanPath (q_escaped q)
     \<and> mux_dispatch gateway_mux (q\<lparr>q_escaped := path\<rparr>) \<noteq> Redirect target"
  by (auto simp: mux_dispatch_def Let_def split: if_splits option.splits)

lemma serve_moved: "fst (gateway_serve page auth e q w g) = Moved path \<longleftrightarrow> mux_dispatch gateway_mux q = Redirect path"
  by (auto simp: gateway_serve_def Let_def split: mux_result.split gateway_handler.split)

text \<open>
  C30. The server hands a request to the router, and answers what \<open>ServeHTTP\<close> answers with the
  state that \<open>ServeHTTP\<close> leaves, exactly when the request line is not \<^verbatim>\<open>*\<close>, its path is
  not empty and is neither of the two operational endpoints, and either the path is clean (its
  segments are neither empty nor dots) or the method is CONNECT, whose path the multiplexer does
  not clean. Any other request leaves the gateway as it was. A redirect answers a request that is
  not CONNECT and whose path is unclean, and leads to a clean path that is not redirected again.
\<close>

theorem router_reached_iff:
  "(if \<not> q_star q \<and> q_escaped q \<noteq> [] \<and> path_segments (q_escaped q) \<notin> {[''readyz''], [''metrics'']} \<and>
       (q_method q = ''CONNECT'' \<or>
          (\<exists>ps trailing. list_all plain_segment ps \<and> q_escaped q = plain_path ps trailing))
    then gateway_serve page auth e q w g =
       (Routed (ServeHTTP auth e (q_http q) w g), s_gateway (ServeHTTP auth e (q_http q) w g))
    else snd (gateway_serve page auth e q w g) = g \<and> (\<nexists>s. fst (gateway_serve page auth e q w g) = Routed s))
   \<and> (\<forall>path target. fst (gateway_serve page auth e q w g) = Moved path \<longrightarrow>
        q_method q \<noteq> ''CONNECT'' \<and> path \<noteq> q_escaped q \<and>
        (\<exists>ps trailing. list_all plain_segment ps \<and> path = plain_path ps trailing) \<and>
        fst (gateway_serve page auth e (q\<lparr>q_escaped := path\<rparr>) w g) \<noteq> Moved target)"
proof (rule conjI)
  show "if \<not> q_star q \<and> q_escaped q \<noteq> [] \<and> path_segments (q_escaped q) \<notin> {[''readyz''], [''metrics'']} \<and>
       (q_method q = ''CONNECT'' \<or>
          (\<exists>ps trailing. list_all plain_segment ps \<and> q_escaped q = plain_path ps trailing))
    then gateway_serve page auth e q w g =
       (Routed (ServeHTTP auth e (q_http q) w g), s_gateway (ServeHTTP auth e (q_http q) w g))
    else snd (gateway_serve page auth e q w g) = g \<and> (\<nexists>s. fst (gateway_serve page auth e q w g) = Routed s)"
    unfolding router_dispatch[symmetric]
    by (auto simp: gateway_serve_def Let_def split: mux_result.split gateway_handler.split)
qed (unfold serve_moved, use redirected_once cleanPath_result in blast)

definition sample_get :: "string \<Rightarrow> mux_request" where
  "sample_get path = \<lparr>q_star = False, q_method = ''GET'', q_escaped = path,
     q_http = \<lparr>r_path = path, r_header = [], r_host = ''gw'', r_client_ip = None, r_tls = False,
       r_proto_major = 1, r_has_body = False\<rparr>\<rparr>"

lemma sample_redirect: "mux_dispatch gateway_mux (sample_get ''/team/../metrics'') = Redirect ''/metrics''"
  by code_simp

theorem router_reached_iff_witness:
  "(\<forall>page auth e w g. gateway_serve page auth e (sample_get ''/team/tools'') w g =
      (Routed (ServeHTTP auth e (q_http (sample_get ''/team/tools'')) w g),
       s_gateway (ServeHTTP auth e (q_http (sample_get ''/team/tools'')) w g)))
   \<and> (\<forall>page auth e w g target. fst (gateway_serve page auth e (sample_get ''/team/../metrics'') w g) = Moved ''/metrics'' \<and>
      fst (gateway_serve page auth e ((sample_get ''/team/../metrics'')\<lparr>q_escaped := ''/metrics''\<rparr>) w g) \<noteq> Moved target)"
proof (intro conjI allI)
  fix page auth e w g target
  have "''/team/tools'' = plain_path [''team'', ''tools''] False" "list_all plain_segment [''team'', ''tools'']"
    "path_segments ''/team/tools'' = [''team'', ''tools'']" by code_simp+
  then have "path_segments ''/team/tools'' \<notin> {[''readyz''], [''metrics'']}"
    "\<exists>ps trailing. list_all plain_segment ps \<and> ''/team/tools'' = plain_path ps trailing" by (simp, blast)
  then show "gateway_serve page auth e (sample_get ''/team/tools'') w g =
      (Routed (ServeHTTP auth e (q_http (sample_get ''/team/tools'')) w g),
       s_gateway (ServeHTTP auth e (q_http (sample_get ''/team/tools'')) w g))"
    using router_reached_iff[of "sample_get ''/team/tools''" page auth e w g, THEN conjunct1]
    by (simp add: sample_get_def)
  show m: "fst (gateway_serve page auth e (sample_get ''/team/../metrics'') w g) = Moved ''/metrics''"
    by (simp add: serve_moved sample_redirect)
  then show "fst (gateway_serve page auth e ((sample_get ''/team/../metrics'')\<lparr>q_escaped := ''/metrics''\<rparr>) w g) \<noteq> Moved target"
    using router_reached_iff[of "sample_get ''/team/../metrics''" page auth e w g, THEN conjunct2] by blast
qed

lemma trim_plain_path:
  assumes "list_all plain_segment ps" and "ps \<noteq> []"
  shows "trim_char CHR ''/'' (plain_path ps b) = join_on CHR ''/'' ps"
proof -
  obtain q qs where ps: "ps = q # qs" using assms(2) by (cases ps) auto
  have q: "q \<noteq> []" "CHR ''/'' \<notin> set q" using assms(1) ps by (simp_all add: plain_segment_def)
  have "hd (join_on CHR ''/'' ps) = hd q" using q(1) ps by (cases qs) auto
  then have "hd (join_on CHR ''/'' ps) \<noteq> CHR ''/''" using q by (metis hd_in_set)
  moreover have "join_on CHR ''/'' ps \<noteq> []" using assms by (simp add: join_plain_ne)
  moreover have "plain_path ps b = replicate 1 CHR ''/'' @ join_on CHR ''/'' ps @ replicate (if b then 1 else 0) CHR ''/''"
    using assms(2) by (simp add: plain_path_def)
  ultimately show ?thesis using join_plain_last[OF assms] trim_char_pad by metis
qed

lemma parsePath_plain:
  assumes "list_all plain_segment ps" and "length ps = 2 \<or> length ps = 3"
  shows "parsePath (plain_path ps b) =
    (if length ps = 3 then (ps ! 0, ps ! 1, ps ! 2, True) else ([], ps ! 0, ps ! 1, True))"
proof -
  have ne: "ps \<noteq> []" using assms(2) by auto
  have "\<forall>p \<in> set ps. CHR ''/'' \<notin> set p" and full: "\<forall>p \<in> set ps. p \<noteq> []"
    using assms(1) by (simp_all add: list_all_iff plain_segment_def)
  from split_join[OF ne this(1)] have "split_on CHR ''/'' (trim_char CHR ''/'' (plain_path ps b)) = ps"
    by (simp only: trim_plain_path[OF assms(1) ne])
  then show ?thesis using full assms(2) by (auto simp: parsePath_def list_ex_iff)
qed

text \<open>
  No server is shadowed by the probe paths or by the cleaning of paths: a request for the
  path of two or three plain segments, with or without a slash at the end, is handled by the
  router, which reads the segments as the route.
\<close>

theorem routes_reach_router:
  assumes "list_all plain_segment ps" and "list_all (\<lambda>p. CHR ''%'' \<notin> set p) ps"
    and "length ps = 2 \<or> length ps = 3" and "\<not> q_star q"
    and "q_escaped q = plain_path ps b" and "r_path (q_http q) = q_escaped q"
  shows "gateway_serve page auth e q w g =
      (let s = ServeHTTP auth e (q_http q) w g in (Routed s, s_gateway s))
    \<and> parsePath (r_path (q_http q)) =
      (if length ps = 3 then (ps ! 0, ps ! 1, ps ! 2, True) else ([], ps ! 0, ps ! 1, True))"
proof
  have "\<forall>c. length (split_on CHR ''/'' (tl (plain_path ps b))) = 1 \<longrightarrow> False"
    using split_plain_path[OF assms(1), of b] assms(3) by (auto simp: plain_path_def split: if_splits)
  then have "path_segments (q_escaped q) \<noteq> [x]" for x
    using assms(5) by (metis One_nat_def length_0_conv length_Cons length_map path_segments_def)
  moreover have "q_escaped q \<noteq> []" using assms(5) by (simp add: plain_path_def)
  ultimately have "mux_match gateway_mux (q_escaped q) = Some RouterHandler" by (simp add: gateway_mux_match)
  moreover have "cleanPath (q_escaped q) = q_escaped q" using assms(1,5) by (simp add: cleanPath_plain)
  ultimately have "mux_dispatch gateway_mux q = Dispatch RouterHandler" using assms(4) by (simp add: mux_dispatch_def)
  then show "gateway_serve page auth e q w g =
      (let s = ServeHTTP auth e (q_http q) w g in (Routed s, s_gateway s))"
    by (simp add: gateway_serve_def)
qed (simp add: assms(5,6) parsePath_plain[OF assms(1,3)])

theorem routes_reach_router_witness:
  "snd (gateway_serve page auth e (sample_get ''/readyz/metrics'') w g)
     = s_gateway (ServeHTTP auth e (q_http (sample_get ''/readyz/metrics'')) w g)
   \<and> parsePath ''/readyz/metrics'' = ([], ''readyz'', ''metrics'', True)"
proof -
  have "list_all plain_segment [''readyz'', ''metrics'']" by code_simp
  moreover have "''/readyz/metrics'' = plain_path [''readyz'', ''metrics''] False" by code_simp
  ultimately show ?thesis
    using routes_reach_router[of "[''readyz'', ''metrics'']" "sample_get ''/readyz/metrics''" False page auth e w g]
    by (simp add: sample_get_def Let_def)
qed

lemma readyz_dispatch: "\<not> q_star q \<Longrightarrow> q_escaped q = ''/readyz'' \<Longrightarrow> mux_dispatch gateway_mux q = Dispatch ReadyzHandler"
proof -
  have "cleanPath ''/readyz'' = ''/readyz''" "mux_match gateway_mux ''/readyz'' = Some ReadyzHandler" by code_simp+
  then show "\<not> q_star q \<Longrightarrow> q_escaped q = ''/readyz'' \<Longrightarrow> mux_dispatch gateway_mux q = Dispatch ReadyzHandler"
    by (simp add: mux_dispatch_def)
qed

text \<open>
  C11. After any run of the server, of polls and requests of any kind, a request for \<^verbatim>\<open>/readyz\<close>
  is answered 200 when some list of the servers has succeeded, and 503 when none has; as long as
  it is 503 no route of any server resolves. It needs no credentials and leaves the gateway as it
  was.
\<close>

theorem readyz_reports_sync:
  assumes "\<not> q_star q" and "q_escaped q = ''/readyz''"
  shows "\<exists>r. gateway_serve page auth e q fresh_writer (http_run f page evs (new_gateway rps b))
      = (Probed r, http_run f page evs (new_gateway rps b)) \<and>
    (w_codes r = [200] \<and> (\<exists>p \<in> set (http_polls evs). poll_ok p) \<or>
     w_codes r = [503] \<and> list_all (\<lambda>p. \<not> poll_ok p) (http_polls evs) \<and>
       (\<forall>ns n. Resolve (g_registry (http_run f page evs (new_gateway rps b))) ns n = Inl ErrServerNotFound))"
proof -
  let ?g = "http_run f page evs (new_gateway rps b)"
  have reg: "g_registry ?g = Start f (http_polls evs) NewRegistry"
    by (simp add: http_run_router gw_run_registry new_gateway_def NewRouter_def)
  have sync: "HasSynced (g_registry ?g) \<longleftrightarrow> (\<exists>p \<in> set (http_polls evs). poll_ok p)"
    "HasSynced (g_registry ?g) \<or> Resolve (g_registry ?g) ns n = Inl ErrServerNotFound" for ns n
    using HasSynced_iff_listed[of f "http_polls evs"] unfolding reg by blast+
  have serve: "gateway_serve page auth e q fresh_writer ?g = (Probed (readyz (g_registry ?g) fresh_writer), ?g)"
    using readyz_dispatch[OF assms] by (simp add: gateway_serve_def)
  show ?thesis
  proof (cases "HasSynced (g_registry ?g)")
    case True
    with sync(1) serve show ?thesis by (intro exI[of _ "readyz (g_registry ?g) fresh_writer"])
      (simp add: readyz_def fresh_writer_def)
  next
    case False
    with sync serve show ?thesis by (intro exI[of _ "readyz (g_registry ?g) fresh_writer"])
      (auto simp: readyz_def error_response_def http_Error_codes new_recorder_def fresh_writer_def list_all_iff)
  qed
qed

theorem readyz_reports_sync_witness:
  "w_codes (readyz (g_registry (http_run first_condition (\<lambda>_ w. w) [HttpPoll \<lparr>p_observed = 0, p_host = [], p_list = Inl ''timeout''\<rparr>]
      (new_gateway 5 10))) fresh_writer) = [503] \<and>
   w_codes (readyz (g_registry (http_run first_condition (\<lambda>_ w. w) [HttpPoll \<lparr>p_observed = 0, p_host = [], p_list = Inr []\<rparr>]
      (new_gateway 5 10))) fresh_writer) = [200]"
proof -
  fix e :: env
  let ?bad = "HttpPoll \<lparr>p_observed = 0, p_host = [], p_list = Inl ''timeout''\<rparr>"
  have q: "\<not> q_star (sample_get ''/readyz'')" "q_escaped (sample_get ''/readyz'') = ''/readyz''" by (simp_all add: sample_get_def)
  have "\<not> poll_ok \<lparr>p_observed = 0, p_host = [], p_list = Inl ''timeout''\<rparr>" "poll_ok \<lparr>p_observed = 0, p_host = [], p_list = Inr []\<rparr>"
    by (simp_all add: poll_ok_def)
  then show ?thesis
    using readyz_reports_sync[OF q, of "\<lambda>_ w. w" None e first_condition "[?bad]" 5 10]
      readyz_reports_sync[OF q, of "\<lambda>_ w. w" None e first_condition "[HttpPoll \<lparr>p_observed = 0, p_host = [], p_list = Inr []\<rparr>]" 5 10] readyz_dispatch[OF q]
    by (auto simp: gateway_serve_def)
qed

end
