(* ===== verification/LimiterClock.thy ===== *)
theory LimiterClock
  imports Limiter
begin

text \<open>
  The rate limiter under load. \<^verbatim>\<open>Allow\<close> reads the clock before it takes the lock
  (\<^verbatim>\<open>internal/gateway/ratelimit.go\<close>), so concurrent calls reach \<open>allowAt\<close> in an order that
  need not be the order of their readings: time can go backwards from one call to the next,
  the elapsed time of a bucket can be negative, and so can its tokens. Here the rate limit is
  shown for the readings of an interval in any order, as long as no bucket of the agent is
  evicted inside it.
\<close>

section \<open>Refills over signed durations\<close>

context float_rounding
begin

lemma Seconds_err: "\<bar>Seconds fl d - of_int d / of_int second\<bar> \<le> (2 * u + u\<^sup>2) * (\<bar>of_int d\<bar> / of_int second)"
proof -
  define s where "s = quot_trunc d second"
  define n where "n = d - s * second"
  let ?S = "of_int s :: real" and ?N = "of_int n / 1000000000 :: real"
  have sn: "of_int d / of_int second = ?S + ?N"
    by (simp add: n_def second_def field_simps)
  have abs: "\<bar>?S\<bar> + \<bar>?N\<bar> = \<bar>of_int d\<bar> / of_int second"
  proof (cases "0 \<le> d")
    case True
    then have "0 \<le> s" "0 \<le> n"
      using pos_imp_zdiv_nonneg_iff[of second d]
      by (simp_all add: s_def n_def quot_trunc_nonneg minus_div_mult_eq_mod)
    then show ?thesis using True sn by simp
  next
    case False
    then have "s = - (- d div second)" "n = - (- d mod second)"
      by (simp_all add: s_def n_def quot_trunc_def second_def minus_div_mult_eq_mod[symmetric])
    moreover have "0 \<le> - d div second" "0 \<le> - d mod second"
      using False pos_imp_zdiv_nonneg_iff[of second "- d"] pos_mod_sign[of second "- d"] by auto
    ultimately have "s \<le> 0" "n \<le> 0" by linarith+
    then show ?thesis using False sn by simp
  qed
  have e1: "\<bar>fl ?N - ?N\<bar> \<le> u * \<bar>?N\<bar>" by (rule fl_err)
  have e2: "\<bar>fl (?S + fl ?N) - (?S + fl ?N)\<bar> \<le> u * \<bar>?S + fl ?N\<bar>" by (rule fl_err)
  have "\<bar>?S + fl ?N\<bar> \<le> \<bar>?S\<bar> + (1 + u) * \<bar>?N\<bar>"
    using e1 unfolding distrib_right mult_1_left by linarith
  then have "u * \<bar>?S + fl ?N\<bar> \<le> u * (\<bar>?S\<bar> + (1 + u) * \<bar>?N\<bar>)" using u_pos by simp
  also have "\<dots> \<le> (u + u\<^sup>2) * (\<bar>?S\<bar> + \<bar>?N\<bar>)"
    using mult_nonneg_nonneg[of "u\<^sup>2" "\<bar>?S\<bar>"] by (simp add: algebra_simps power2_eq_square)
  finally have "\<bar>Seconds fl d - (?S + ?N)\<bar> \<le> (u + u\<^sup>2) * (\<bar>?S\<bar> + \<bar>?N\<bar>) + u * \<bar>?N\<bar>"
    using e1 e2 unfolding Seconds_def Let_def s_def[symmetric] n_def[symmetric] by linarith
  also have "\<dots> \<le> (u + u\<^sup>2) * (\<bar>?S\<bar> + \<bar>?N\<bar>) + u * (\<bar>?S\<bar> + \<bar>?N\<bar>)"
    using u_pos by (intro add_left_mono mult_left_mono) auto
  also have "\<dots> = (2 * u + u\<^sup>2) * (\<bar>?S\<bar> + \<bar>?N\<bar>)"
    unfolding distrib_right[symmetric] by simp
  finally show ?thesis unfolding sn abs .
qed

lemma u_square: "u\<^sup>2 \<le> u / 1000"
  using u_small u_pos mult_left_mono[of u "1 / 1000" u] by (simp add: power2_eq_square)

lemma refilled_err:
  assumes "0 \<le> rate l"
  shows "\<bar>refilled fl l x d - (x + rate l * (of_int d / of_int second))\<bar>
    \<le> u * \<bar>x\<bar> + 6 * (u * (rate l * (\<bar>of_int d\<bar> / of_int second)))"
proof -
  define S D A where "S = Seconds fl d" and "D = (of_int d / of_int second :: real)"
    and "A = (\<bar>of_int d\<bar> / of_int second :: real)"
  define p P where "p = fl (S * rate l)" and "P = rate l * A"
  have A: "\<bar>D\<bar> = A" "0 \<le> A" using second_pos by (simp_all add: A_def D_def)
  then have P: "\<bar>D * rate l\<bar> = P" "0 \<le> P" using assms by (simp_all add: P_def abs_mult mult.commute)
  define U where "U = u * P"
  have U: "0 \<le> U" "U \<le> P / 1000" "u * U \<le> U / 1000"
    using P(2) u_pos u_small mult_right_mono[OF _ P(2), of u "1 / 1000"] mult_right_mono[of u "1 / 1000" "u * P"]
    by (simp_all add: U_def)
  have "(2 * u + u\<^sup>2) * A \<le> (5 / 2 * u) * A"
    using A(2) u_square u_pos by (intro mult_right_mono) auto
  then have "\<bar>S - D\<bar> \<le> 5 / 2 * u * A" using Seconds_err[of d] by (simp add: S_def D_def A_def)
  from mult_right_mono[OF this assms] have "\<bar>S - D\<bar> * rate l \<le> 5 / 2 * U"
    by (simp add: U_def P_def mult_ac)
  moreover have "\<bar>S * rate l - D * rate l\<bar> = \<bar>S - D\<bar> * rate l"
    using assms by (simp add: abs_mult left_diff_distrib[symmetric])
  ultimately have Sr: "\<bar>S * rate l - D * rate l\<bar> \<le> 5 / 2 * U" by simp
  then have "\<bar>S * rate l\<bar> \<le> P + 5 / 2 * U" using P(1) by linarith
  from mult_left_mono[OF this, of u] u_pos have "u * \<bar>S * rate l\<bar> \<le> U + 5 / 2 * (u * U)"
    by (simp add: U_def algebra_simps)
  then have p: "\<bar>p - D * rate l\<bar> \<le> 4 * U"
    using Sr U fl_err[of "S * rate l"] unfolding p_def by linarith
  then have "\<bar>x + p\<bar> \<le> \<bar>x\<bar> + P + 4 * U" using P(1) by linarith
  from mult_left_mono[OF this, of u] u_pos have "u * \<bar>x + p\<bar> \<le> u * \<bar>x\<bar> + U + 4 * (u * U)"
    by (simp add: U_def algebra_simps)
  moreover have "\<bar>fl (x + p) - (x + p)\<bar> \<le> u * \<bar>x + p\<bar>" by (rule fl_err)
  ultimately have "\<bar>fl (x + p) - (x + D * rate l)\<bar> \<le> u * \<bar>x\<bar> + 6 * U"
    using p U by linarith
  then show ?thesis
    by (simp add: refilled_def S_def p_def D_def A_def P_def U_def mult.commute)
qed

section \<open>One bucket\<close>

text \<open>
  \<open>signed_refill l s t\<close> is what the exact limiter adds from reading \<open>s\<close> to reading \<open>t\<close>, negative
  when the clock went back. \<open>slack l t0 t1\<close> bounds the rounding of one call in the interval.
\<close>

definition signed_refill :: "AgentLimiter \<Rightarrow> time \<Rightarrow> time \<Rightarrow> real" where
  "signed_refill l s t = rate l * (of_int (t - s) / of_int second)"

definition slack :: "AgentLimiter \<Rightarrow> time \<Rightarrow> time \<Rightarrow> real" where
  "slack l t0 t1 = 8 * u * (burst l + signed_refill l t0 t1)"

lemma signed_refill_add: "signed_refill l s t + signed_refill l t v = signed_refill l s v"
  unfolding signed_refill_def distrib_left[symmetric] add_divide_distrib[symmetric] by simp

lemma signed_refill_mono:
  "0 \<le> rate l \<Longrightarrow> t \<le> t' \<Longrightarrow> signed_refill l s t \<le> signed_refill l s t'"
  unfolding signed_refill_def using second_pos
  by (intro mult_left_mono divide_right_mono) (simp_all add: less_imp_le)

lemma signed_refill_self [simp]: "signed_refill l t t = 0"
  by (simp add: signed_refill_def)

text \<open>
  The state of one bucket after \<open>k\<close> calls of its agent in the interval, with \<open>G\<close> of them granted
  (or that much more than a real number counted before): what it was granted and what it holds is at most the burst and the refill to its last reading,
  and it is not deeper in debt than the way to the end of the interval.
\<close>

definition bucket_within :: "AgentLimiter \<Rightarrow> time \<Rightarrow> time \<Rightarrow> nat \<Rightarrow> real \<Rightarrow> bucket \<Rightarrow> bool" where
  "bucket_within l t0 t1 k G b \<longleftrightarrow> t0 \<le> last_at b \<and> last_at b \<le> t1 \<and> tokens b \<le> burst l \<and>
     G + tokens b \<le> burst l + signed_refill l t0 (last_at b) + of_nat k * slack l t0 t1 \<and>
     signed_refill l t1 (last_at b) - of_nat k * slack l t0 t1 \<le> tokens b"

definition tame :: "AgentLimiter \<Rightarrow> time \<Rightarrow> time \<Rightarrow> nat \<Rightarrow> bool" where
  "tame l t0 t1 n \<longleftrightarrow> 0 \<le> burst l \<and> fl (burst l) = burst l \<and> 0 \<le> rate l \<and>
     t0 \<le> t1 \<and> t1 - t0 \<le> max_duration \<and> 8 * u * of_nat n \<le> 1"

lemma take_token_bucket:
  "take_token fl l now b =
     (let t = min (burst l) (refilled fl l (tokens b) (time_sub now (last_at b)))
      in (1 \<le> t, \<lparr>tokens = (if 1 \<le> t then fl (t - 1) else t), last_at = now\<rparr>))"
  by (auto simp: take_token_eq Let_def)

lemma slack_nonneg: "tame l t0 t1 n \<Longrightarrow> 0 \<le> slack l t0 t1"
  using signed_refill_mono[of l t0 t1 t0] u_pos by (simp add: tame_def slack_def)

lemma granted_token:
  assumes "tame l t0 t1 n" and "1 \<le> t" and "t \<le> burst l"
  shows "0 \<le> fl (t - 1)" and "1 + fl (t - 1) \<le> t + u * burst l"
proof -
  show "0 \<le> fl (t - 1)" using assms(2) by (simp add: fl_nonneg)
  have "fl (t - 1) \<le> (t - 1) + u * (t - 1)" using fl_upper[of "t - 1"] assms(2) by (simp add: algebra_simps)
  moreover have "u * (t - 1) \<le> u * burst l" using u_pos assms(3) by (intro mult_left_mono) auto
  ultimately show "1 + fl (t - 1) \<le> t + u * burst l" by simp
qed

lemma time_sub_exact: "\<bar>t - s\<bar> \<le> max_duration \<Longrightarrow> time_sub t s = t - s"
  by (simp add: time_sub_def max_duration_def min_duration_def)

lemma bucket_first:
  assumes "tame l t0 t1 n" and "0 \<le> k" and "t0 \<le> now" and "now \<le> t1"
    and "0 \<le> refilled fl l (tokens b) (time_sub now (last_at b))"
  shows "bucket_within l t0 t1 (Suc k) (if fst (take_token fl l now b) then 1 else 0) (snd (take_token fl l now b))"
proof -
  define t where "t = min (burst l) (refilled fl l (tokens b) (time_sub now (last_at b)))"
  have r: "0 \<le> rate l" and B: "0 \<le> burst l" "fl (burst l) = burst l" using assms(1) by (simp_all add: tame_def)
  have t: "0 \<le> t" "t \<le> burst l" using assms(5) B by (simp_all add: t_def)
  have s0: "0 \<le> signed_refill l t0 now" "signed_refill l t1 now \<le> 0" "0 \<le> signed_refill l t0 t1"
    using signed_refill_mono[OF r assms(3), of t0] signed_refill_mono[OF r assms(4), of t1]
      signed_refill_mono[OF r order_trans[OF assms(3,4)], of t0] by simp_all
  have "u * burst l \<le> slack l t0 t1"
    using s0(3) B u_pos by (simp add: slack_def algebra_simps)
  moreover have sl: "slack l t0 t1 \<le> of_nat (Suc k) * slack l t0 t1" "0 \<le> slack l t0 t1"
    using slack_nonneg[OF assms(1)] by (simp_all add: algebra_simps)
  ultimately have e: "u * burst l \<le> of_nat (Suc k) * slack l t0 t1" by linarith
  have le: "fl (t - 1) \<le> burst l" using fl_mono[of "t - 1" "burst l"] t B by simp
  show ?thesis
    using granted_token[OF assms(1) _ t(2)] t s0 e le assms(3,4) sl
    unfolding bucket_within_def take_token_bucket Let_def t_def[symmetric] by auto
qed

lemma bucket_step:
  assumes "tame l t0 t1 n" and "bucket_within l t0 t1 k G b" and "k < n" and "t0 \<le> now" and "now \<le> t1"
  shows "bucket_within l t0 t1 (Suc k) (G + (if fst (take_token fl l now b) then 1 else 0)) (snd (take_token fl l now b))"
proof -
  define e where "e = slack l t0 t1"
  define R where "R = signed_refill l t0 t1"
  define B where "B = burst l"
  define K where "K = of_nat k * e"
  let ?x = "tokens b" and ?s = "last_at b"
  have r: "0 \<le> rate l" and B: "0 \<le> B" "fl B = B" "t0 \<le> t1" "t1 - t0 \<le> max_duration" "8 * u * of_nat n \<le> 1"
    using assms(1) by (simp_all add: tame_def B_def)
  have s: "t0 \<le> ?s" "?s \<le> t1" "?x \<le> B"
    and up: "G + ?x \<le> B + signed_refill l t0 ?s + K" and low: "signed_refill l t1 ?s - K \<le> ?x"
    using assms(2) by (simp_all add: bucket_within_def B_def K_def e_def)
  have e: "0 \<le> e" "e = 8 * (u * B) + 8 * (u * R)"
    using slack_nonneg[OF assms(1)] by (simp_all add: e_def slack_def B_def R_def algebra_simps)
  have K: "0 \<le> K" "of_nat (Suc k) * e = K + e" using e(1) by (simp_all add: K_def algebra_simps)
  have "8 * u * of_nat k \<le> 8 * u * of_nat n" using assms(3) u_pos by (intro mult_left_mono) auto
  then have "8 * u * of_nat k \<le> 1" using B(5) by linarith
  from mult_right_mono[OF this e(1)] have uK: "8 * (u * K) \<le> e" by (simp add: K_def mult_ac)
  have R0: "0 \<le> R" using signed_refill_mono[OF r B(3), of t0] by (simp add: R_def)
  have tot: "signed_refill l t1 ?s = signed_refill l t0 ?s - R" "signed_refill l t1 now = signed_refill l t0 now - R"
    "signed_refill l ?s now = signed_refill l t0 now - signed_refill l t0 ?s"
    using signed_refill_add[of l t0 t1] signed_refill_add[of l t0 ?s now] by (simp_all add: R_def algebra_simps)
  have bounds: "0 \<le> signed_refill l t0 ?s" "signed_refill l t0 now \<le> R" "0 \<le> signed_refill l t0 now"
    using signed_refill_mono[OF r s(1), of t0] signed_refill_mono[OF r assms(5), of t0]
      signed_refill_mono[OF r assms(4), of t0] by (simp_all add: R_def)
  define t' where "t' = refilled fl l ?x (time_sub now ?s)"
  have d: "time_sub now ?s = now - ?s" using s assms(4,5) B(4) by (intro time_sub_exact) linarith
  have "rate l * (\<bar>of_int (now - ?s)\<bar> / of_int second) \<le> R"
    unfolding R_def signed_refill_def using r s assms(4,5) second_pos
    by (intro mult_left_mono divide_right_mono) (simp_all flip: of_int_diff of_int_abs)
  from mult_left_mono[OF this less_imp_le[OF u_pos]]
  have "\<bar>t' - (?x + signed_refill l ?s now)\<bar> \<le> u * \<bar>?x\<bar> + 6 * (u * R)"
    using refilled_err[OF r, of ?x "now - ?s"] unfolding t'_def d signed_refill_def by linarith
  moreover have "\<bar>?x\<bar> \<le> B + R + K" using s(3) low tot(1) bounds(1) B(1) R0 K(1) by linarith
  from mult_left_mono[OF this less_imp_le[OF u_pos]] have "u * \<bar>?x\<bar> \<le> u * B + u * R + u * K"
    by (simp add: distrib_left)
  moreover have nn: "0 \<le> u * B" "0 \<le> u * R" using u_pos B(1) R0 by simp_all
  ultimately have t': "\<bar>t' - (?x + signed_refill l ?s now)\<bar> + u * B \<le> e" using uK e(2) by linarith
  define t where "t = min B t'"
  have tB: "t \<le> B" by (simp add: t_def)
  have upt: "G + t + u * B \<le> B + signed_refill l t0 now + (K + e)"
    using up t' tot(3) unfolding t_def by linarith
  have lowt: "signed_refill l t1 now - (K + e) \<le> t"
    using low t' tot bounds B(1) K(1) e(1) nn unfolding t_def by linarith
  have neg: "signed_refill l t1 now - (K + e) \<le> 0" using tot(2) bounds(2) K(1) e(1) by linarith
  have le: "fl (t - 1) \<le> B" using fl_mono[of "t - 1" B] tB B by simp
  show ?thesis
    using granted_token[OF assms(1), of t] tB upt lowt neg le assms(4,5) nn
    unfolding bucket_within_def take_token_bucket Let_def B_def[symmetric] t'_def[symmetric] t_def[symmetric]
      e_def[symmetric] K(2) by auto
qed

section \<open>Calls in any order\<close>

text \<open>
  No bucket touched in the interval is evicted in it: the interval is shorter than the idle time,
  or there is room for every agent.
\<close>

definition calm :: "AgentLimiter \<Rightarrow> time \<Rightarrow> time \<Rightarrow> string set \<Rightarrow> bool" where
  "calm l t0 t1 A \<longleftrightarrow> t1 - t0 < idleTTL l \<or>
     gomap_keys (buckets l) \<subseteq> A \<and> finite A \<and> int (card A) \<le> maxAgents l"

lemma keys_after_call: "gomap_keys (buckets (snd (allowAt fl l a now))) \<subseteq> insert a (gomap_keys (buckets l))"
proof -
  have sub: "gomap_keys (buckets (after_eviction fl l now)) \<subseteq> gomap_keys (buckets l)"
    using after_eviction_subset[of fl l now] by (fastforce simp: image_iff)
  show ?thesis
    by (cases "map_of (buckets l) a"; cases "maxAgents l \<le> int (length (buckets (after_eviction fl l now)))")
      (use sub in \<open>auto simp: allowAt_cases dom_update\<close>)
qed

lemma calm_after_call: "calm l t0 t1 A \<Longrightarrow> a \<in> A \<Longrightarrow> calm (snd (allowAt fl l a now)) t0 t1 A"
  using keys_after_call[of l a now] by (auto simp: calm_def)

lemma kept_through_eviction:
  assumes "limiter_ok fl l" and "calm l t0 t1 A" and "a' \<in> A" and "map_of (buckets l) a' = None"
    and "t0 \<le> now" and "now \<le> t1" and "map_of (buckets l) a = Some b"
  shows "map_of (buckets (after_eviction fl l now)) a = Some b \<or>
    map_of (buckets (after_eviction fl l now)) a = None \<and> last_at b < t0"
proof (cases "maxAgents l \<le> int (length (buckets l)) \<and> evictable fl l now b")
  case False
  then show ?thesis using assms(1,7) by (auto simp: after_eviction_map_of limiter_ok_def)
next
  case True
  have ok: "gomap_ok (buckets l)" using assms(1) by (simp add: limiter_ok_def)
  have "\<not> (gomap_keys (buckets l) \<subseteq> A \<and> finite A \<and> int (card A) \<le> maxAgents l)"
  proof
    assume room: "gomap_keys (buckets l) \<subseteq> A \<and> finite A \<and> int (card A) \<le> maxAgents l"
    have "a' \<notin> gomap_keys (buckets l)" using assms(4) by (simp add: map_of_eq_None_iff)
    then have "gomap_keys (buckets l) \<subset> A" using room assms(3) by auto
    then have "card (gomap_keys (buckets l)) < card A" using room by (intro psubset_card_mono) auto
    moreover have "card (gomap_keys (buckets l)) = length (buckets l)"
      using ok distinct_card[of "map fst (buckets l)"] by simp
    ultimately show False using True room by linarith
  qed
  then have "t1 - t0 < idleTTL l" using assms(2) unfolding calm_def by blast
  moreover have "idleTTL l \<le> time_sub now (last_at b)" using True by (simp add: evictable_def Let_def)
  moreover have "time_sub now (last_at b) \<le> max 0 (now - last_at b)"
    by (auto simp: time_sub_def max_duration_def min_duration_def max_def min_def)
  ultimately have "last_at b < t0" using assms(5,6) by linarith
  moreover have "map_of (buckets (after_eviction fl l now)) a = None"
    using True assms(7) ok by (simp add: after_eviction_map_of)
  ultimately show ?thesis by blast
qed

definition agent_within :: "AgentLimiter \<Rightarrow> time \<Rightarrow> time \<Rightarrow> nat \<Rightarrow> nat \<Rightarrow> string \<Rightarrow> bool" where
  "agent_within l t0 t1 k G a \<longleftrightarrow>
     (case map_of (buckets l) a of
        None \<Rightarrow> G = 0
      | Some b \<Rightarrow> G = 0 \<and> last_at b \<le> t0 \<and> 0 \<le> tokens b \<or> bucket_within l t0 t1 k (of_nat G) b)"

lemma bucket_within_params:
  "rate l' = rate l \<Longrightarrow> burst l' = burst l \<Longrightarrow> bucket_within l' = bucket_within l \<and> tame l' = tame l"
  by (simp add: fun_eq_iff bucket_within_def tame_def slack_def signed_refill_def)

lemma other_bucket:
  assumes "a' \<noteq> a \<or> \<not> has_room fl l a now"
  shows "map_of (buckets (snd (allowAt fl l a' now))) a = map_of (buckets l) a \<or>
    map_of (buckets l) a' = None \<and>
    map_of (buckets (snd (allowAt fl l a' now))) a = map_of (buckets (after_eviction fl l now)) a"
  using assms
  by (cases "map_of (buckets l) a'"; cases "maxAgents l \<le> int (length (buckets (after_eviction fl l now)))")
    (auto simp: allowAt_cases update_conv' has_room_def)

lemma other_agent_within:
  assumes "limiter_ok fl l" and "calm l t0 t1 A" and "a' \<in> A" and "t0 \<le> now" and "now \<le> t1"
    and "agent_within l t0 t1 k G a" and "a' \<noteq> a \<or> \<not> has_room fl l a now"
  shows "agent_within (snd (allowAt fl l a' now)) t0 t1 k G a"
proof -
  let ?l = "snd (allowAt fl l a' now)"
  have w: "bucket_within ?l = bucket_within l" using bucket_within_params[of ?l l] by simp
  from other_bucket[OF assms(7)] show ?thesis
  proof
    assume "map_of (buckets ?l) a = map_of (buckets l) a"
    with assms(6) show ?thesis unfolding agent_within_def w by simp
  next
    assume ev: "map_of (buckets l) a' = None \<and> map_of (buckets ?l) a = map_of (buckets (after_eviction fl l now)) a"
    show ?thesis
    proof (cases "map_of (buckets l) a")
      case None
      then have "map_of (buckets ?l) a = None"
        using ev assms(1) by (simp add: after_eviction_map_of limiter_ok_def)
      with None assms(6) show ?thesis by (simp add: agent_within_def)
    next
      case (Some b)
      from kept_through_eviction[OF assms(1-3) _ assms(4,5) Some] ev
      have "map_of (buckets ?l) a = Some b \<or> map_of (buckets ?l) a = None \<and> last_at b < t0" by simp
      with Some assms(6) w show ?thesis by (auto simp: agent_within_def bucket_within_def)
    qed
  qed
qed

lemma own_call_within:
  assumes "limiter_ok fl l" and "tame l t0 t1 n" and "k < n" and "t0 \<le> now" and "now \<le> t1"
    and "agent_within l t0 t1 k G a" and "has_room fl l a now"
  shows "agent_within (snd (allowAt fl l a now)) t0 t1 (Suc k) (G + (if fst (allowAt fl l a now) then 1 else 0)) a \<and>
    (fst (allowAt fl l a now) \<longrightarrow> of_nat (Suc G) \<le> burst l + signed_refill l t0 t1 + of_nat n * slack l t0 t1)"
proof -
  let ?l = "snd (allowAt fl l a now)"
  define b where "b = (case map_of (buckets l) a of None \<Rightarrow> \<lparr>tokens = burst l, last_at = now\<rparr> | Some b \<Rightarrow> b)"
  have call: "fst (allowAt fl l a now) = fst (take_token fl l now b)"
    "map_of (buckets ?l) a = Some (snd (take_token fl l now b))"
    using assms(7)
    by (cases "map_of (buckets l) a"; auto simp: allowAt_known allowAt_new has_room_def b_def update_conv' not_le)+
  have r: "0 \<le> rate l" "0 \<le> burst l" "fl (burst l) = burst l" using assms(2) by (simp_all add: tame_def)
  have w: "bucket_within l t0 t1 (Suc k) (of_nat (G + (if fst (take_token fl l now b) then 1 else 0))) (snd (take_token fl l now b))"
  proof (cases "G = 0 \<and> 0 \<le> refilled fl l (tokens b) (time_sub now (last_at b))")
    case True
    then show ?thesis using bucket_first[OF assms(2) _ assms(4,5), of k b] by (simp split: if_splits)
  next
    case False
    have "bucket_within l t0 t1 k (of_nat G) b"
    proof (cases "map_of (buckets l) a")
      case None
      then show ?thesis using False assms(6) r by (simp add: agent_within_def b_def refilled_0)
    next
      case (Some b')
      have "0 \<le> refilled fl l (tokens b') (time_sub now (last_at b'))" if "last_at b' \<le> t0" "0 \<le> tokens b'"
        using that assms(4) r by (intro refilled_nonneg time_sub_nonneg) auto
      then show ?thesis using False assms(6) Some by (auto simp: agent_within_def b_def)
    qed
    from bucket_step[OF assms(2) this assms(3-5)] show ?thesis by (simp split: if_splits)
  qed
  have params: "bucket_within ?l = bucket_within l" using bucket_within_params[of ?l l] by simp
  have "of_nat (Suc G) \<le> burst l + signed_refill l t0 t1 + of_nat n * slack l t0 t1" if "fst (take_token fl l now b)"
  proof -
    have "0 \<le> tokens (snd (take_token fl l now b))"
      using that by (simp add: take_token_bucket Let_def fl_nonneg split: if_splits)
    moreover have "signed_refill l t0 now \<le> signed_refill l t0 t1" by (rule signed_refill_mono[OF r(1) assms(5)])
    moreover have "of_nat (Suc k) * slack l t0 t1 \<le> of_nat n * slack l t0 t1"
      using assms(3) slack_nonneg[OF assms(2)] by (intro mult_right_mono) auto
    ultimately show ?thesis using w that by (simp add: bucket_within_def)
  qed
  with w params call show ?thesis by (simp add: agent_within_def)
qed

lemma shuffled_grants:
  assumes "limiter_ok fl l" and "tame l t0 t1 n" and "calm l t0 t1 A"
    and "\<forall>(a', t) \<in> set cs. a' \<in> A \<and> t0 \<le> t \<and> t \<le> t1" and "agent_within l t0 t1 k G a"
    and "k + calls_by a cs \<le> n" and "of_nat G \<le> burst l + signed_refill l t0 t1 + of_nat n * slack l t0 t1"
  shows "of_nat (G + count_granted a cs (fst (run_calls fl l cs)))
    \<le> burst l + signed_refill l t0 t1 + of_nat n * slack l t0 t1"
  using assms
proof (induction cs arbitrary: l k G)
  case (Cons c cs)
  obtain a' t where c: "c = (a', t)" by (cases c)
  let ?l = "snd (allowAt fl l a' t)"
  have t: "a' \<in> A" "t0 \<le> t" "t \<le> t1" and rest: "\<forall>(a', t) \<in> set cs. a' \<in> A \<and> t0 \<le> t \<and> t \<le> t1"
    using Cons.prems(4) c by auto
  have ok: "limiter_ok fl ?l" and cl: "calm ?l t0 t1 A"
    using limiter_ok_allowAt[OF Cons.prems(1)] calm_after_call[OF Cons.prems(3) t(1)] by auto
  have tm: "tame ?l t0 t1 n" using Cons.prems(2) bucket_within_params[of ?l l] by simp
  have same: "signed_refill ?l = signed_refill l" "slack ?l = slack l"
    by (simp_all add: fun_eq_iff slack_def signed_refill_def)
  note IH = Cons.IH[OF ok tm cl rest, unfolded same, simplified]
  show ?case
  proof (cases "a' = a \<and> has_room fl l a t")
    case False
    from False have w: "agent_within ?l t0 t1 k G a"
      by (intro other_agent_within[OF Cons.prems(1,3) t Cons.prems(5)]) auto
    have "k + calls_by a cs \<le> n" using Cons.prems(6) by (auto simp: calls_by_def c split: if_splits)
    from IH[OF w this] Cons.prems(7) have "of_nat (G + count_granted a cs (fst (run_calls fl ?l cs)))
        \<le> burst l + signed_refill l t0 t1 + of_nat n * slack l t0 t1" by simp
    moreover have "\<not> (a' = a \<and> fst (allowAt fl l a' t))" using False allowAt_no_room(1) by auto
    ultimately show ?thesis by (auto simp: c run_calls_Cons)
  next
    case True
    have k: "k < n" "Suc k + calls_by a cs \<le> n" using Cons.prems(6) True by (auto simp: calls_by_def c)
    from own_call_within[OF Cons.prems(1,2) k(1) t(2,3) Cons.prems(5)] True
    have w: "agent_within ?l t0 t1 (Suc k) (G + (if fst (allowAt fl l a t) then 1 else 0)) a"
      and g: "fst (allowAt fl l a t) \<longrightarrow> of_nat (Suc G) \<le> burst l + signed_refill l t0 t1 + of_nat n * slack l t0 t1"
      by auto
    from IH[OF w k(2)] g Cons.prems(7) True show ?thesis
      by (auto simp: c run_calls_Cons add.assoc split: if_splits)
  qed
qed simp

end

section \<open>A window of a longer run\<close>

text \<open>
  The grants of an agent with readings from \<open>t0\<close> to \<open>t1\<close> inside a run of any length. Nothing is
  asked of the readings outside the window, except that no call is overtaken by more than \<open>D\<close>:
  the clock does not go back, and a call takes the lock at most \<open>D\<close> after it has read the clock.
\<close>

definition granted_in :: "string \<Rightarrow> time \<Rightarrow> time \<Rightarrow> (string \<times> time) list \<Rightarrow> bool list \<Rightarrow> nat" where
  "granted_in a t0 t1 cs oks = length (filter (\<lambda>((a', t), ok). a' = a \<and> t0 \<le> t \<and> t \<le> t1 \<and> ok) (zip cs oks))"

definition calls_in :: "string \<Rightarrow> time \<Rightarrow> time \<Rightarrow> (string \<times> time) list \<Rightarrow> nat" where
  "calls_in a t0 t1 cs = length (filter (\<lambda>(a', t). a' = a \<and> t0 \<le> t \<and> t \<le> t1) cs)"

definition prompt :: "duration \<Rightarrow> (string \<times> time) list \<Rightarrow> bool" where
  "prompt D cs \<longleftrightarrow> sorted_wrt (\<lambda>x y. snd x \<le> snd y + D) cs"

lemma granted_in_Cons:
  "granted_in a t0 t1 ((a', t) # cs) (ok # oks) =
     (if a' = a \<and> t0 \<le> t \<and> t \<le> t1 \<and> ok then 1 else 0) + granted_in a t0 t1 cs oks"
  by (simp add: granted_in_def)

lemma calls_in_Cons:
  "calls_in a t0 t1 ((a', t) # cs) = (if a' = a \<and> t0 \<le> t \<and> t \<le> t1 then 1 else 0) + calls_in a t0 t1 cs"
  by (simp add: calls_in_def)

lemma granted_in_later: "\<forall>x \<in> set cs. t1 < snd x \<Longrightarrow> granted_in a t0 t1 cs oks = 0"
  by (fastforce simp: granted_in_def filter_empty_conv dest: set_zip_leftD)

text \<open>
  The condition says just this: there are times \<open>ls\<close>, in order, at which the calls take the lock,
  each not before the reading of its call and at most \<open>D\<close> after it.
\<close>

lemma prompt_lock_times:
  assumes "0 \<le> D"
  shows "prompt D cs \<longleftrightarrow>
    (\<exists>ls. sorted ls \<and> list_all2 (\<lambda>c l. snd c \<le> l \<and> l \<le> snd c + D) cs ls)"
proof
  assume "prompt D cs"
  then have "\<exists>ls. sorted ls \<and> list_all2 (\<lambda>c l. snd c \<le> l \<and> l \<le> snd c + D) cs ls \<and> set ls \<subseteq> snd ` set cs"
  proof (induction cs rule: rev_induct)
    case (snoc c cs)
    then obtain ls where ls: "sorted ls" "list_all2 (\<lambda>c l. snd c \<le> l \<and> l \<le> snd c + D) cs ls" "set ls \<subseteq> snd ` set cs"
      by (auto simp: prompt_def sorted_wrt_append)
    define l where "l = (if ls = [] then snd c else max (last ls) (snd c))"
    have "\<forall>x \<in> set ls. x \<le> snd c + D" using ls(3) snoc.prems by (auto simp: prompt_def sorted_wrt_append)
    then have "l \<le> snd c + D" "snd c \<le> l" using assms by (auto simp: l_def)
    moreover have "\<forall>x \<in> set ls. x \<le> l"
      using ls(1) by (cases ls rule: rev_cases) (auto simp: l_def sorted_append max_def)
    moreover have "l \<in> snd ` set (cs @ [c])" using ls(3) by (auto simp: l_def max_def)
    ultimately show ?case
      using ls by (intro exI[of _ "ls @ [l]"]) (auto simp: sorted_append intro!: list_all2_appendI)
  qed simp
  then show "\<exists>ls. sorted ls \<and> list_all2 (\<lambda>c l. snd c \<le> l \<and> l \<le> snd c + D) cs ls" by blast
next
  assume "\<exists>ls. sorted ls \<and> list_all2 (\<lambda>c l. snd c \<le> l \<and> l \<le> snd c + D) cs ls"
  then obtain ls where ls: "sorted ls" "list_all2 (\<lambda>c l. snd c \<le> l \<and> l \<le> snd c + D) cs ls" by blast
  have "snd (cs ! i) \<le> snd (cs ! j) + D" if "i < j" "j < length cs" for i j
  proof -
    have "length ls = length cs" using ls(2) by (simp add: list_all2_lengthD)
    then have "snd (cs ! i) \<le> ls ! i" "ls ! i \<le> ls ! j" "ls ! j \<le> snd (cs ! j) + D"
      using that ls by (auto simp: list_all2_conv_all_nth sorted_iff_nth_mono)
    then show ?thesis by linarith
  qed
  then show "prompt D cs" by (simp add: prompt_def sorted_wrt_iff_nth_less)
qed

lemma prompt_Cons: "prompt D (c # cs) \<longleftrightarrow> (\<forall>x \<in> set cs. snd c \<le> snd x + D) \<and> prompt D cs"
  by (simp add: prompt_def)

context float_rounding
begin

definition held :: "AgentLimiter \<Rightarrow> time \<Rightarrow> time \<Rightarrow> nat \<Rightarrow> real \<Rightarrow> string \<Rightarrow> bool" where
  "held l t0 t1 k C a \<longleftrightarrow> (\<exists>b. map_of (buckets l) a = Some b \<and> bucket_within l t0 t1 k C b)"

lemma held_less: "held l t0 t1 k C a \<Longrightarrow> C' \<le> C \<Longrightarrow> held l t0 t1 k C' a"
  by (force simp: held_def bucket_within_def)

lemma held_params: "bucket_within (snd (allowAt fl l a now)) = bucket_within l"
  using bucket_within_params[of "snd (allowAt fl l a now)" l] by simp

lemma held_other:
  assumes "limiter_ok fl l" and "calm l t0 t1 A" and "a' \<in> A" and "t0 \<le> now" and "now \<le> t1"
    and "held l t0 t1 k C a" and "a' \<noteq> a"
  shows "held (snd (allowAt fl l a' now)) t0 t1 k C a"
proof -
  obtain b where b: "map_of (buckets l) a = Some b" "bucket_within l t0 t1 k C b"
    using assms(6) by (auto simp: held_def)
  have "map_of (buckets (snd (allowAt fl l a' now))) a = Some b"
    using other_bucket[of a' a l now] assms(7) kept_through_eviction[OF assms(1-3) _ assms(4,5) b(1)] b
    by (auto simp: bucket_within_def)
  with b(2) show ?thesis by (simp add: held_def held_params)
qed

lemma held_own:
  assumes "tame l t0 t1 n" and "held l t0 t1 k C a" and "k < n" and "t0 \<le> now" and "now \<le> t1"
  shows "held (snd (allowAt fl l a now)) t0 t1 (Suc k) (C + (if fst (allowAt fl l a now) then 1 else 0)) a \<and>
    (fst (allowAt fl l a now) \<longrightarrow> C + 1 \<le> burst l + signed_refill l t0 now + of_nat n * slack l t0 t1)"
proof -
  obtain b where b: "map_of (buckets l) a = Some b" "bucket_within l t0 t1 k C b"
    using assms(2) by (auto simp: held_def)
  have w: "bucket_within l t0 t1 (Suc k) (C + (if fst (take_token fl l now b) then 1 else 0)) (snd (take_token fl l now b))"
    by (rule bucket_step[OF assms(1) b(2) assms(3-5)])
  have "of_nat (Suc k) * slack l t0 t1 \<le> of_nat n * slack l t0 t1"
    using assms(3) slack_nonneg[OF assms(1)] by (intro mult_right_mono) auto
  moreover have "0 \<le> tokens (snd (take_token fl l now b)) \<and> last_at (snd (take_token fl l now b)) = now"
    if "fst (take_token fl l now b)"
    using that by (simp add: take_token_bucket Let_def fl_nonneg split: if_splits)
  ultimately have "C + 1 \<le> burst l + signed_refill l t0 now + of_nat n * slack l t0 t1" if "fst (take_token fl l now b)"
    using w that by (simp add: bucket_within_def)
  moreover have "fst (allowAt fl l a now) = fst (take_token fl l now b)"
    "map_of (buckets (snd (allowAt fl l a now))) a = Some (snd (take_token fl l now b))"
    by (simp_all add: allowAt_known[OF b(1)] update_conv')
  ultimately show ?thesis using w by (simp only: held_def held_params) blast
qed

lemma held_first:
  assumes "tame l T0 T1 n" and "T0 \<le> t0" and "t0 \<le> now" and "now \<le> T1" and "fst (allowAt fl l a now)"
  shows "held (snd (allowAt fl l a now)) T0 T1 1 (signed_refill l T0 t0 + 1) a" and "1 \<le> burst l"
proof -
  define b where "b = (case map_of (buckets l) a of None \<Rightarrow> \<lparr>tokens = burst l, last_at = now\<rparr> | Some b \<Rightarrow> b)"
  have "has_room fl l a now" using assms(5) allowAt_no_room(1) by blast
  then have call: "fst (take_token fl l now b)" "map_of (buckets (snd (allowAt fl l a now))) a = Some (snd (take_token fl l now b))"
    using assms(5)
    by (cases "map_of (buckets l) a"; auto simp: allowAt_known allowAt_new has_room_def b_def update_conv' not_le)+
  define t where "t = min (burst l) (refilled fl l (tokens b) (time_sub now (last_at b)))"
  have r: "0 \<le> rate l" "0 \<le> burst l" "fl (burst l) = burst l" using assms(1) by (simp_all add: tame_def)
  have t: "1 \<le> t" "t \<le> burst l" using call(1) by (simp_all add: take_token_bucket Let_def t_def)
  then show "1 \<le> burst l" by linarith
  have le: "fl (t - 1) \<le> burst l" using fl_mono[of "t - 1" "burst l"] t r by simp
  have s: "signed_refill l T0 t0 \<le> signed_refill l T0 now" "signed_refill l T1 now \<le> 0" "0 \<le> signed_refill l T0 T1"
    using signed_refill_mono[OF r(1) assms(3), of T0] signed_refill_mono[OF r(1) assms(4), of T1]
      signed_refill_mono[OF r(1), of T0 T1 T0] assms(1) by (simp_all add: tame_def)
  have "u * burst l \<le> slack l T0 T1" using s(3) r(2) u_pos by (simp add: slack_def algebra_simps)
  with granted_token[OF assms(1) t] le s assms(2-4) t slack_nonneg[OF assms(1)]
  have "bucket_within l T0 T1 1 (signed_refill l T0 t0 + 1) (snd (take_token fl l now b))"
    by (auto simp: bucket_within_def take_token_bucket Let_def t_def[symmetric])
  with call(2) show "held (snd (allowAt fl l a now)) T0 T1 1 (signed_refill l T0 t0 + 1) a"
    by (simp add: held_def held_params)
qed

text \<open>Every later grant of the window is counted, until a call comes that the window cannot follow.\<close>

lemma window_after:
  assumes "limiter_ok fl l" and "tame l T0 (t1 + D) n" and "calm l T0 (t1 + D) A" and "held l T0 (t1 + D) k C a"
    and "fst ` set cs \<subseteq> A" and "prompt D cs" and "\<forall>x \<in> set cs. T0 \<le> snd x" and "0 \<le> D"
    and "k + calls_in a T0 (t1 + D) cs \<le> n"
    and "C \<le> burst l + signed_refill l T0 t1 + of_nat n * slack l T0 (t1 + D)"
  shows "C + of_nat (granted_in a t0 t1 cs (fst (run_calls fl l cs)))
    \<le> burst l + signed_refill l T0 t1 + of_nat n * slack l T0 (t1 + D)"
  using assms
proof (induction cs arbitrary: l k C)
  case (Cons c cs)
  obtain a' t where c: "c = (a', t)" by (cases c)
  let ?l = "snd (allowAt fl l a' t)"
  show ?case
  proof (cases "t1 + D < t")
    case True
    have "\<forall>x \<in> set (c # cs). t1 < snd x" using True Cons.prems(6,8) by (auto simp: c prompt_Cons)
    then show ?thesis using Cons.prems(10) by (simp add: granted_in_later)
  next
    case False
    have t: "a' \<in> A" "T0 \<le> t" "t \<le> t1 + D" and rest: "fst ` set cs \<subseteq> A" "prompt D cs" "\<forall>x \<in> set cs. T0 \<le> snd x"
      using Cons.prems(5-7) False by (auto simp: c prompt_Cons)
    have ok: "limiter_ok fl ?l" and cl: "calm ?l T0 (t1 + D) A"
      using limiter_ok_allowAt[OF Cons.prems(1)] calm_after_call[OF Cons.prems(3) t(1)] by auto
    have tm: "tame ?l T0 (t1 + D) n" using Cons.prems(2) bucket_within_params[of ?l l] by simp
    have same: "signed_refill ?l = signed_refill l" "slack ?l = slack l"
      by (simp_all add: fun_eq_iff slack_def signed_refill_def)
    note IH = Cons.IH[OF ok tm cl _ rest Cons.prems(8), unfolded same, simplified]
    show ?thesis
    proof (cases "a' = a")
      case other: False
      from IH[OF held_other[OF Cons.prems(1,3) t Cons.prems(4) other]] Cons.prems(9,10) other
      show ?thesis by (auto simp: c run_calls_Cons granted_in_Cons calls_in_Cons)
    next
      case own: True
      have k: "k < n" "Suc k + calls_in a T0 (t1 + D) cs \<le> n" using Cons.prems(9) own t by (auto simp: c calls_in_Cons)
      from held_own[OF Cons.prems(2,4) k(1) t(2,3)] own
      have h: "held ?l T0 (t1 + D) (Suc k) (C + (if fst (allowAt fl l a t) then 1 else 0)) a"
        and g: "fst (allowAt fl l a t) \<longrightarrow>
          C + 1 \<le> burst l + signed_refill l T0 t + of_nat n * slack l T0 (t1 + D)" by auto
      show ?thesis
      proof (cases "fst (allowAt fl l a t) \<and> t0 \<le> t \<and> t \<le> t1")
        case True
        have "signed_refill l T0 t \<le> signed_refill l T0 t1"
          using signed_refill_mono[of l t t1 T0] Cons.prems(2) True by (simp add: tame_def)
        then have "C + 1 \<le> burst l + signed_refill l T0 t1 + of_nat n * slack l T0 (t1 + D)" using g True by linarith
        from IH[OF _ k(2) this] h True own show ?thesis
          by (auto simp: c run_calls_Cons granted_in_Cons)
      next
        case skip: False
        have "held ?l T0 (t1 + D) (Suc k) C a" using held_less[OF h] by simp
        from IH[OF this k(2) Cons.prems(10)] skip own show ?thesis
          by (auto simp: c run_calls_Cons granted_in_Cons)
      qed
    qed
  qed
qed (simp add: granted_in_def)

lemma window_grants:
  assumes "limiter_ok fl l" and "tame l (t0 - D) (t1 + D) n" and "calm l (t0 - D) (t1 + D) A"
    and "fst ` set cs \<subseteq> A" and "prompt D cs" and "0 \<le> D" and "t0 \<le> t1"
    and "calls_in a (t0 - D) (t1 + D) cs \<le> n"
  shows "of_nat (granted_in a t0 t1 cs (fst (run_calls fl l cs)))
    \<le> burst l + signed_refill l t0 t1 + of_nat n * slack l (t0 - D) (t1 + D)"
  using assms
proof (induction cs arbitrary: l)
  case Nil
  then show ?case
    using signed_refill_mono[of l t0 t1 t0] slack_nonneg[OF Nil.prems(2)] by (simp add: granted_in_def tame_def)
next
  case (Cons c cs)
  obtain a' t where c: "c = (a', t)" by (cases c)
  let ?l = "snd (allowAt fl l a' t)"
  have A: "a' \<in> A" and rest: "fst ` set cs \<subseteq> A" "prompt D cs" using Cons.prems(4,5) by (auto simp: c prompt_Cons)
  have ok: "limiter_ok fl ?l" and cl: "calm ?l (t0 - D) (t1 + D) A"
    using limiter_ok_allowAt[OF Cons.prems(1)] calm_after_call[OF Cons.prems(3) A] by auto
  have tm: "tame ?l (t0 - D) (t1 + D) n" using Cons.prems(2) bucket_within_params[of ?l l] by simp
  have same: "signed_refill ?l = signed_refill l" "slack ?l = slack l"
    by (simp_all add: fun_eq_iff slack_def signed_refill_def)
  show ?case
  proof (cases "a' = a \<and> t0 \<le> t \<and> t \<le> t1 \<and> fst (allowAt fl l a t)")
    case False
    have "calls_in a (t0 - D) (t1 + D) cs \<le> n" using Cons.prems(8) by (auto simp: c calls_in_Cons split: if_splits)
    from Cons.IH[OF ok tm cl rest Cons.prems(6,7) this] False show ?thesis
      by (auto simp: same c run_calls_Cons granted_in_Cons)
  next
    case True
    have w: "t0 - D \<le> t0" "t \<le> t1 + D" using True Cons.prems(6) by auto
    note first = held_first[OF Cons.prems(2) w(1) _ w(2), of a]
    have h: "held ?l (t0 - D) (t1 + D) 1 (signed_refill l (t0 - D) t0 + 1) a" and B: "1 \<le> burst l"
      using first True by simp_all
    have later: "\<forall>x \<in> set cs. t0 - D \<le> snd x" using Cons.prems(5) True by (auto simp: c prompt_Cons)
    have n: "1 + calls_in a (t0 - D) (t1 + D) cs \<le> n" using Cons.prems(6,8) True by (auto simp: c calls_in_Cons)
    have r: "0 \<le> rate l" using Cons.prems(2) by (simp add: tame_def)
    have base: "signed_refill l (t0 - D) t0 + 1 \<le>
        burst l + signed_refill l (t0 - D) t1 + of_nat n * slack l (t0 - D) (t1 + D)"
      using B signed_refill_mono[OF r Cons.prems(7), of "t0 - D"] slack_nonneg[OF Cons.prems(2)] by (smt (verit) of_nat_0_le_iff mult_nonneg_nonneg)
    from window_after[OF ok tm cl h rest later Cons.prems(6) n, unfolded same, of t0] base
    have "signed_refill l (t0 - D) t0 + 1 + of_nat (granted_in a t0 t1 cs (fst (run_calls fl ?l cs)))
      \<le> burst l + signed_refill l (t0 - D) t1 + of_nat n * slack l (t0 - D) (t1 + D)" by simp
    with signed_refill_add[of l "t0 - D" t0 t1] True show ?thesis
      by (simp add: c run_calls_Cons granted_in_Cons)
  qed
qed

end

lemma window_grants_f64:
  assumes "limiter_ok f64 l" and "prompt D cs" and "0 \<le> D" and "t0 \<le> t1" and "t1 - t0 + 2 * D \<le> max_duration"
    and "calls_in a (t0 - D) (t1 + D) cs \<le> 2 ^ 50"
    and "t1 - t0 + 2 * D < idleTTL l \<or> buckets l = [] \<and> int (card (fst ` set cs)) \<le> maxAgents l"
  shows "real (granted_in a t0 t1 cs (fst (run_calls f64 l cs)))
    \<le> burst l + rate l * (real_of_int (t1 - t0) / real_of_int second)
      + (burst l + rate l * (real_of_int (t1 - t0 + 2 * D) / real_of_int second))
        * (real (calls_in a (t0 - D) (t1 + D) cs) / 2 ^ 50)"
proof -
  let ?n = "calls_in a (t0 - D) (t1 + D) cs"
  have n: "real ?n \<le> 2 ^ 50" using assms(6) by (metis of_nat_le_iff of_nat_numeral of_nat_power)
  have ok: "0 \<le> rate l" "0 \<le> burst l" "f64 (burst l) = burst l" using assms(1) by (auto simp: limiter_ok_def)
  have span: "t1 + D - (t0 - D) = t1 - t0 + 2 * D" by simp
  have tame: "f64.tame l (t0 - D) (t1 + D) ?n"
    using ok assms(3-5) n unfolding f64.tame_def span by simp
  have calm: "f64.calm l (t0 - D) (t1 + D) (fst ` set cs)"
    unfolding f64.calm_def span using assms(7) by auto
  have slack: "n * f64.slack l (t0 - D) (t1 + D) =
      (burst l + rate l * (real_of_int (t1 - t0 + 2 * D) / real_of_int second)) * (n / 2 ^ 50)" for n
    unfolding f64.slack_def f64.signed_refill_def span by (simp add: field_simps)
  from f64.window_grants[OF assms(1) tame calm _ assms(2-4)]
  show ?thesis unfolding slack f64.signed_refill_def by simp
qed

section \<open>The rate limit without an order of the clock readings\<close>

lemma shuffled_grants_f64:
  assumes "limiter_ok f64 l" and "settled l t0" and "\<forall>(a', t) \<in> set cs. a' \<in> A \<and> t0 \<le> t \<and> t \<le> t1"
    and "t0 \<le> t1" and "t1 - t0 \<le> max_duration" and "calls_by a cs \<le> 2 ^ 50"
    and "t1 - t0 < idleTTL l \<or> gomap_keys (buckets l) \<subseteq> A \<and> finite A \<and> int (card A) \<le> maxAgents l"
  shows "real (count_granted a cs (fst (run_calls f64 l cs)))
    \<le> (burst l + rate l * (real_of_int (t1 - t0) / real_of_int second))
      * (1 + real (calls_by a cs) / 2 ^ 50)"
proof -
  have n: "real (calls_by a cs) \<le> 2 ^ 50"
    using assms(6) by (metis of_nat_le_iff of_nat_numeral of_nat_power)
  have ok: "0 \<le> rate l" "0 \<le> burst l" "f64 (burst l) = burst l" using assms(1) by (auto simp: limiter_ok_def)
  then have tame: "f64.tame l t0 t1 (calls_by a cs)"
    using assms(4,5) n unfolding f64.tame_def by simp
  have "f64.agent_within l t0 t1 0 0 a"
    unfolding f64.agent_within_def using assms(2)
    by (auto simp: settled_def dest!: map_of_SomeD split: option.split)
  moreover have "0 \<le> f64.signed_refill l t0 t1"
    using f64.signed_refill_mono[OF ok(1) assms(4), of t0] by simp
  ultimately have "real (0 + count_granted a cs (fst (run_calls f64 l cs)))
      \<le> burst l + f64.signed_refill l t0 t1 + real (calls_by a cs) * f64.slack l t0 t1"
    using ok f64.slack_nonneg[OF tame] assms(7)
    by (intro f64.shuffled_grants[OF assms(1) tame _ assms(3)]) (simp_all add: f64.calm_def)
  moreover have "B + R + n * (8 * (1 / 2 ^ 53) * (B + R)) = (B + R) * (1 + n / 2 ^ 50)" for B R n :: real
    by (simp add: field_simps)
  ultimately show ?thesis
    unfolding f64.slack_def f64.signed_refill_def by simp
qed

text \<open>
  C17. The rate limit under concurrency: in any run of calls whose clock readings lie between \<open>t0\<close>
  and \<open>t1\<close>, in whatever order they reach the lock, an agent is granted at most its burst plus
  its rate times the length of the interval, up to a relative rounding error of \<open>2^-50\<close> for
  each of its calls. Readings that go back in time win nothing: what a negative refill takes
  is what a later refill gives back. The interval is shorter than the idle time of a bucket,
  or the calls are of no more agents than the limiter has room for.
\<close>

theorem shuffled_grants_bounded:
  assumes "limiter_ok f64 l" and "settled l t0" and "\<forall>(a', t) \<in> set cs. a' \<in> A \<and> t0 \<le> t \<and> t \<le> t1"
    and "t0 \<le> t1" and "t1 - t0 \<le> max_duration" and "calls_by a cs \<le> 2 ^ 50"
    and "t1 - t0 < idleTTL l \<or> gomap_keys (buckets l) \<subseteq> A \<and> finite A \<and> int (card A) \<le> maxAgents l"
  shows "real (count_granted a cs (fst (run_calls f64 l cs)))
    \<le> (burst l + rate l * (real_of_int (t1 - t0) / real_of_int second))
      * (1 + real (calls_by a cs) / 2 ^ 50)"
  by (rule shuffled_grants_f64[OF assms])

theorem shuffled_grants_bounded_witness:
  "count_granted ''agent'' (map (Pair ''agent'') (concat (replicate 8 [second, 0])))
     (fst (run_calls f64 (NewAgentLimiter f64 5 10) (map (Pair ''agent'') (concat (replicate 8 [second, 0]))))) \<le> 15"
proof -
  define cs where "cs = map (Pair ''agent'') (concat (replicate 8 [second, 0 :: time]))"
  have calls: "calls_by ''agent'' cs = 16" by (simp add: cs_def calls_by_def filter_map o_def length_concat sum_list_replicate)
  have "\<forall>(a', t) \<in> set cs. a' \<in> {''agent''} \<and> 0 \<le> t \<and> t \<le> second"
    by (auto simp: cs_def second_def)
  from shuffled_grants_bounded[OF New_ok New_settled this, of 5 10 "''agent''"]
  have "real (count_granted ''agent'' cs (fst (run_calls f64 (NewAgentLimiter f64 5 10) cs))) < 16"
    by (simp add: calls NewAgentLimiter_def second_def max_duration_def)
  then show ?thesis unfolding cs_def by linarith
qed

end
