(* ===== verification/Binary64.thy ===== *)
theory Binary64
  imports Numbers LimiterClock
begin

text \<open>
  The rate limiter on the bounded format. \<open>Limiter\<close> computes with \<open>f64\<close>, whose exponents have no
  bounds; here its runs are shown to be the same with any rounding that is binary64's where
  that does not overflow, with its subnormals and whatever it does beyond the largest number:
  for rates between \<open>2 powr -800\<close> and \<open>2 powr 800\<close> no operation leaves the range in which the two
  agree. The reason is a grid: the values of a bucket are multiples of \<open>2 powr -1000\<close>, so they
  cannot become smaller than that without being zero.
\<close>

definition binary64_rounding :: "(real \<Rightarrow> real) \<Rightarrow> bool" where
  "binary64_rounding fl \<longleftrightarrow> (\<forall>x. \<bar>x\<bar> \<le> max_float64 \<longrightarrow> fl x = ieee 53 (- 1074) x)"

section \<open>Where the formats agree\<close>

definition tame :: "real \<Rightarrow> bool" where
  "tame x \<longleftrightarrow> \<bar>x\<bar> \<le> 2 powr 1000 \<and> (x = 0 \<or> 2 powr - 1000 \<le> \<bar>x\<bar>)"

lemma tame_agree:
  assumes "binary64_rounding fl" and "tame x"
  shows "fl x = f64 x"
proof -
  have "(2::real) powr 1000 = 2 ^ 1000" by (simp add: powr_realpow [symmetric])
  then have "\<bar>x\<bar> \<le> max_float64" using assms(2) by (simp add: tame_def max_float64_def)
  then have fl: "fl x = ieee 53 (- 1074) x" using assms(1) by (simp add: binary64_rounding_def)
  show ?thesis
  proof (cases "x = 0")
    case False
    with assms(2) have "2 powr - 1000 \<le> \<bar>x\<bar>" by (simp add: tame_def)
    then have "- 1000 \<le> log 2 \<bar>x\<bar>" using False by (simp add: le_log_iff)
    then have "- 1022 \<le> f64_exp x" unfolding f64_exp_def by linarith
    then show ?thesis by (simp add: fl ieee_f64)
  qed (use fl in simp)
qed

section \<open>Grids\<close>

definition on_grid :: "int \<Rightarrow> real \<Rightarrow> bool" where
  "on_grid k x \<longleftrightarrow> (\<exists>n :: int. x = of_int n * 2 powr of_int k)"

lemma on_grid_0 [simp]: "on_grid k 0"
  unfolding on_grid_def by (intro exI[of _ 0]) simp

lemma on_grid_coarser: "on_grid k x \<Longrightarrow> j \<le> k \<Longrightarrow> on_grid j x"
proof -
  assume "on_grid k x" "j \<le> k"
  then obtain n :: int where n: "x = of_int n * 2 powr of_int k" by (auto simp: on_grid_def)
  have "(2::real) powr of_int k = 2 ^ nat (k - j) * 2 powr of_int j"
    using \<open>j \<le> k\<close> by (simp flip: powr_realpow powr_add)
  then have "x = of_int (n * 2 ^ nat (k - j)) * 2 powr of_int j" by (simp add: n)
  then show ?thesis unfolding on_grid_def by blast
qed

lemma on_grid_add: "on_grid k x \<Longrightarrow> on_grid k y \<Longrightarrow> on_grid k (x + y)"
  unfolding on_grid_def by (metis of_int_add distrib_right)

lemma on_grid_of_int: "k \<le> 0 \<Longrightarrow> on_grid k (of_int n)"
  by (rule on_grid_coarser[of 0]) (auto simp: on_grid_def)

lemma on_grid_large: "on_grid k x \<Longrightarrow> x = 0 \<or> 2 powr of_int k \<le> \<bar>x\<bar>"
proof -
  assume "on_grid k x"
  then obtain n :: int where n: "x = of_int n * 2 powr of_int k" by (auto simp: on_grid_def)
  have "n = 0 \<or> 1 \<le> \<bar>real_of_int n\<bar>" by linarith
  then show ?thesis by (auto simp: n abs_mult)
qed

text \<open>Rounding stays on a grid, and lands on one when the value is not small.\<close>

lemma f64_grid:
  assumes "on_grid k x"
  shows "on_grid k (f64 x)"
proof (cases "x = 0 \<or> k \<le> f64_exp x - 52")
  case True
  have "on_grid (f64_exp x - 52) (f64 x)" if "x \<noteq> 0"
    using that by (auto simp: f64_def f64_ulp_def on_grid_def)
  from on_grid_coarser[OF this] True show ?thesis by (cases "x = 0") simp_all
next
  case False
  obtain n :: int where n: "x = of_int n * 2 powr of_int k" using assms by (auto simp: on_grid_def)
  have "(2::real) powr of_int k = 2 ^ nat (k - (f64_exp x - 52)) * f64_ulp x"
    using False by (simp add: f64_ulp_def flip: powr_realpow powr_add)
  then have "x = of_int (n * 2 ^ nat (k - (f64_exp x - 52))) * f64_ulp x"
    using n by (metis mult.assoc of_int_mult of_int_numeral of_int_power)
  then have "x / f64_ulp x = of_int (n * 2 ^ nat (k - (f64_exp x - 52)))" by (metis f64_ulp_ne nonzero_mult_div_cancel_right)
  then have "f64 x = x" using False unfolding f64_def by (simp only: rne_of_int) (simp add: field_simps)
  with assms show ?thesis by simp
qed

lemma f64_lands: "2 powr of_int (k + 52) \<le> \<bar>x\<bar> \<Longrightarrow> on_grid k (f64 x)"
proof (cases "x = 0")
  case False
  assume "2 powr of_int (k + 52) \<le> \<bar>x\<bar>"
  then have "of_int (k + 52) \<le> log 2 \<bar>x\<bar>" using False by (simp add: le_log_iff)
  then have "k \<le> f64_exp x - 52" unfolding f64_exp_def by linarith
  moreover have "on_grid (f64_exp x - 52) (f64 x)" using False by (auto simp: f64_def f64_ulp_def on_grid_def)
  ultimately show ?thesis by (rule on_grid_coarser[rotated])
qed simp

lemma f64_abs_le: "\<bar>x\<bar> \<le> b \<Longrightarrow> f64 b = b \<Longrightarrow> \<bar>f64 x\<bar> \<le> b"
  using f64_mono[of x b] f64_mono[of "- x" b] by (simp add: f64_minus abs_le_iff)

lemma f64_powr [simp]: "f64 (2 powr of_int j) = 2 powr of_int j"
  using f64_exact[of 1 j] by simp

lemma grid_tame: "on_grid k x \<Longrightarrow> - 1000 \<le> k \<Longrightarrow> \<bar>x\<bar> \<le> 2 powr 1000 \<Longrightarrow> tame x"
  using on_grid_large[OF on_grid_coarser, of k x "- 1000"] by (auto simp: tame_def)

section \<open>The seconds of a duration\<close>

lemma quot_trunc_rest: "0 < b \<Longrightarrow> \<bar>a - quot_trunc a b * b\<bar> < b"
proof -
  assume b: "0 < b"
  then have "a - quot_trunc a b * b = sgn a * (\<bar>a\<bar> mod b)"
    by (cases "0 \<le> a") (auto simp: quot_trunc_def sgn_if minus_div_mult_eq_mod [symmetric] algebra_simps)
  with b show ?thesis by (simp add: abs_mult abs_sgn_eq)
qed

lemma quot_trunc_abs: "0 < b \<Longrightarrow> \<bar>quot_trunc a b\<bar> \<le> \<bar>a\<bar>"
proof -
  assume b: "0 < b"
  have "\<bar>a\<bar> div b \<le> \<bar>a\<bar>" "0 \<le> \<bar>a\<bar> div b" using b zdiv_mono2[of "\<bar>a\<bar>" 1 b] by (simp_all add: pos_imp_zdiv_nonneg_iff)
  with b show ?thesis by (simp add: quot_trunc_def abs_mult abs_sgn_eq)
qed

lemma Seconds_binary64:
  assumes "binary64_rounding fl" and "\<bar>d\<bar> \<le> 2 ^ 63"
  shows "Seconds fl d = Seconds f64 d" and "on_grid (- 82) (Seconds f64 d)" and "\<bar>Seconds f64 d\<bar> \<le> 2 powr 64"
proof -
  define sec nsec where "sec = quot_trunc d second" and "nsec = d - sec * second"
  have n: "\<bar>nsec\<bar> < 1000000000" using quot_trunc_rest[of second d] by (simp add: nsec_def sec_def second_def)
  let ?q = "of_int nsec / 1000000000 :: real"
  have q: "\<bar>?q\<bar> \<le> 1" "?q = 0 \<or> 2 powr of_int (- 30) \<le> \<bar>?q\<bar>"
  proof -
    show "\<bar>?q\<bar> \<le> 1" using n by (simp flip: of_int_abs)
    have "nsec = 0 \<or> 1 \<le> \<bar>real_of_int nsec\<bar>" by linarith
    moreover have "2 powr of_int (- 30) \<le> (1 / 1000000000 :: real)" by (simp add: powr_minus divide_simps)
    ultimately show "?q = 0 \<or> 2 powr of_int (- 30) \<le> \<bar>?q\<bar>" by auto
  qed
  have "tame ?q"
    using q order_trans[of "2 powr - 1000" "2 powr of_int (- 30)" "\<bar>?q\<bar>"] by (auto simp: tame_def intro: order_trans)
  then have fq: "fl ?q = f64 ?q" by (rule tame_agree[OF assms(1)])
  have gq: "on_grid (- 82) (f64 ?q)" using q(2) f64_lands[of "- 82" ?q] by auto
  have aq: "\<bar>f64 ?q\<bar> \<le> 1" using q(1) by (rule f64_abs_le) simp
  let ?s = "of_int sec + f64 ?q"
  have gs: "on_grid (- 82) ?s" by (intro on_grid_add on_grid_of_int gq) simp
  have "\<bar>sec\<bar> \<le> 2 ^ 63" using quot_trunc_abs[of second d] assms(2) by (simp add: sec_def)
  then have "\<bar>real_of_int sec\<bar> \<le> 2 ^ 63" by (simp flip: of_int_abs)
  with aq have as: "\<bar>?s\<bar> \<le> 2 powr 64" by (simp add: abs_le_iff)
  also have "\<dots> \<le> 2 powr 1000" by simp
  finally have "tame ?s" using gs by (intro grid_tame[of "- 82"]) simp_all
  then have fs: "fl ?s = f64 ?s" by (rule tame_agree[OF assms(1)])
  have S: "Seconds f64 d = f64 ?s" "Seconds fl d = fl (of_int sec + fl ?q)"
    by (simp_all add: Seconds_def Let_def sec_def nsec_def)
  show "Seconds fl d = Seconds f64 d" by (simp only: S fq fs)
  show "on_grid (- 82) (Seconds f64 d)" unfolding S by (rule f64_grid[OF gs])
  show "\<bar>Seconds f64 d\<bar> \<le> 2 powr 64" unfolding S using as f64_powr[of 64] by (intro f64_abs_le) simp_all
qed

section \<open>One call\<close>

text \<open>A value of a bucket after \<open>m\<close> calls: on the grid, and no larger than the refills so far.\<close>

definition fits :: "int \<Rightarrow> real \<Rightarrow> bool" where
  "fits m x \<longleftrightarrow> on_grid (- 1000) x \<and> \<bar>x\<bar> \<le> of_int m * 2 powr 870"

definition sane_rate :: "real \<Rightarrow> bool" where
  "sane_rate r \<longleftrightarrow> 2 powr - 800 \<le> r \<and> r \<le> 2 powr 800"

lemma fits_mono: "fits m x \<Longrightarrow> m \<le> n \<Longrightarrow> fits n x"
  by (auto simp: fits_def intro: order_trans mult_right_mono)

lemma fits_tame:
  assumes "fits m x" and "m \<le> 2 ^ 53"
  shows "tame x"
proof -
  have "real_of_int m \<le> 2 ^ 53" using assms(2) by (simp add: of_int_le_numeral_power_cancel_iff)
  then have "of_int m * 2 powr 870 \<le> (2 ^ 53 * 2 powr 870 :: real)" by (intro mult_right_mono) simp_all
  also have "\<dots> = 2 powr 923" by (simp flip: powr_realpow powr_add)
  also have "\<dots> \<le> 2 powr 1000" by simp
  finally show ?thesis using assms(1) by (auto simp: fits_def intro: grid_tame[of "- 1000"])
qed

lemma fits_f64:
  assumes "fits m x" and "m \<le> 2 ^ 53" and "0 \<le> m"
  shows "fits m (f64 x)"
  using assms f64_grid[of "- 1000" x] f64_abs_le[of x "of_int m * 2 powr 870"] f64_exact[of m 870]
  by (auto simp: fits_def)

lemma refill_binary64:
  assumes fl: "binary64_rounding fl" and r: "sane_rate r" and d: "\<bar>d\<bar> \<le> 2 ^ 63"
  shows "fl (Seconds fl d * r) = f64 (Seconds f64 d * r)" and "fits 1 (f64 (Seconds f64 d * r))"
proof -
  note S = Seconds_binary64[OF fl d]
  let ?y = "Seconds f64 d * r"
  have r': "2 powr - 800 \<le> r" "r \<le> 2 powr 800" "0 \<le> r"
    using r order_trans[of 0 "2 powr - 800" r] by (simp_all add: sane_rate_def)
  have "\<bar>Seconds f64 d\<bar> * \<bar>r\<bar> \<le> 2 powr 64 * 2 powr 800"
    by (rule mult_mono[OF S(3)]) (use r' in auto)
  then have "\<bar>?y\<bar> \<le> 2 powr 64 * 2 powr 800" by (simp only: abs_mult)
  also have "\<dots> = 2 powr 864" by (simp flip: powr_add)
  finally have up: "\<bar>?y\<bar> \<le> 2 powr 864" .
  have lo: "?y = 0 \<or> 2 powr of_int (- 882) \<le> \<bar>?y\<bar>"
  proof (cases "Seconds f64 d = 0")
    case False
    with on_grid_large[OF S(2)] have "2 powr - 82 \<le> \<bar>Seconds f64 d\<bar>" by simp
    then have "2 powr - 82 * 2 powr - 800 \<le> \<bar>Seconds f64 d\<bar> * r" using r' by (intro mult_mono) simp_all
    moreover have "2 powr - 82 * 2 powr - 800 = (2 powr of_int (- 882) :: real)" by (simp flip: powr_add)
    ultimately show ?thesis using r' by (simp add: abs_mult)
  qed simp
  have "tame ?y"
    using up lo order_trans[of "2 powr - 1000" "2 powr of_int (- 882)" "\<bar>?y\<bar>"] order_trans[OF up, of "2 powr 1000"]
    by (auto simp: tame_def)
  then show "fl (Seconds fl d * r) = f64 ?y" unfolding S(1) by (rule tame_agree[OF fl])
  have "on_grid (- 934) (f64 ?y)" using lo f64_lands[of "- 934" ?y] by auto
  moreover have "\<bar>f64 ?y\<bar> \<le> 2 powr 864" using up f64_powr[of 864] by (intro f64_abs_le) simp_all
  then have "\<bar>f64 ?y\<bar> \<le> 2 powr 870" using order_trans by fastforce
  ultimately show "fits 1 (f64 ?y)" by (auto simp: fits_def intro: on_grid_coarser)
qed

lemma time_sub_abs: "\<bar>time_sub t u\<bar> \<le> 2 ^ 63"
  by (auto simp: time_sub_def min_duration_def max_duration_def)

lemma refilled_binary64:
  assumes fl: "binary64_rounding fl" and r: "sane_rate (rate l)" and x: "fits m x" and m: "0 \<le> m" "m < 2 ^ 53"
    and d: "\<bar>d\<bar> \<le> 2 ^ 63"
  shows "refilled fl l x d = refilled f64 l x d" and "fits (m + 1) (refilled f64 l x d)"
proof -
  note y = refill_binary64[OF fl r d]
  let ?y = "f64 (Seconds f64 d * rate l)"
  have s: "fits (m + 1) (x + ?y)"
    using x y(2) by (auto simp: fits_def distrib_right intro: on_grid_add)
  have "fl (x + ?y) = f64 (x + ?y)" using fits_tame[OF s] m by (intro tame_agree[OF fl]) simp
  then show "refilled fl l x d = refilled f64 l x d" by (simp add: refilled_def y(1))
  show "fits (m + 1) (refilled f64 l x d)" unfolding refilled_def using s m by (intro fits_f64) simp_all
qed

lemma take_token_binary64:
  assumes fl: "binary64_rounding fl" and r: "sane_rate (rate l)" and x: "fits m (tokens b)" and B: "fits m (burst l)"
    and m: "0 \<le> m" "m < 2 ^ 53"
  shows "take_token fl l now b = take_token f64 l now b" and "fits (m + 1) (tokens (snd (take_token f64 l now b)))"
proof -
  let ?r = "refilled f64 l (tokens b) (time_sub now (last_at b))"
  define t where "t = (if burst l < ?r then burst l else ?r)"
  note R = refilled_binary64[OF fl r x m time_sub_abs, of now "last_at b"]
  have t: "fits (m + 1) t" using R(2) fits_mono[OF B] by (simp add: t_def)
  have pred: "fits (m + 1) (t - 1)" if "1 \<le> t"
    using t that on_grid_add[of "- 1000" t "- 1"] on_grid_of_int[of "- 1000" "- 1"] by (auto simp: fits_def)
  then have "fl (t - 1) = f64 (t - 1)" if "1 \<le> t"
    using that fits_tame[of "m + 1" "t - 1"] m by (intro tame_agree[OF fl]) simp
  then show "take_token fl l now b = take_token f64 l now b"
    by (auto simp: take_token_def R(1) Let_def t_def[symmetric])
  show "fits (m + 1) (tokens (snd (take_token f64 l now b)))"
    using t fits_f64[OF pred] m by (auto simp: take_token_def Let_def t_def[symmetric])
qed

section \<open>Runs\<close>

definition limiter_fits :: "int \<Rightarrow> AgentLimiter \<Rightarrow> bool" where
  "limiter_fits m l \<longleftrightarrow> sane_rate (rate l) \<and> fits m (burst l) \<and> (\<forall>(k, b) \<in> set (buckets l). fits m (tokens b))"

lemma evict_loop_binary64:
  assumes fl: "binary64_rounding fl" and r: "sane_rate (rate l)" and m: "0 \<le> m" "m < 2 ^ 53"
    and "\<forall>(k, b) \<in> set bs. fits m (tokens b)"
  shows "evict_loop fl l now bs = evict_loop f64 l now bs"
  using assms(5)
proof (induction bs)
  case (Cons kb bs)
  obtain k b where kb: "kb = (k, b)" by fastforce
  have "evictable fl l now b = evictable f64 l now b"
    using refilled_binary64(1)[OF fl r _ m time_sub_abs] Cons.prems by (simp add: evictable_def kb Let_def)
  with Cons show ?case by (simp add: kb)
qed simp

lemma allowAt_binary64:
  assumes fl: "binary64_rounding fl" and l: "limiter_fits m l" and m: "0 \<le> m" "m < 2 ^ 53"
  shows "allowAt fl l a now = allowAt f64 l a now" and "limiter_fits (m + 1) (snd (allowAt f64 l a now))"
proof -
  have r: "sane_rate (rate l)" and B: "fits m (burst l)" and bs: "\<forall>(k, b) \<in> set (buckets l). fits m (tokens b)"
    using l by (simp_all add: limiter_fits_def)
  have ev: "after_eviction fl l now = after_eviction f64 l now"
    using evict_loop_binary64[OF fl r m bs] by (simp add: after_eviction_def)
  have known: "fits m (tokens b)" if "map_of (buckets l) a = Some b" for b
    using bs that by (auto dest: map_of_SomeD)
  have kept: "\<forall>(k, b) \<in> set (buckets (after_eviction f64 l now)). fits (m + 1) (tokens b)"
    if "\<forall>(k, b) \<in> set (buckets l). fits (m + 1) (tokens b)"
    using that after_eviction_subset[of f64 l now] by auto
  have old: "\<forall>(k, b) \<in> set (buckets l). fits (m + 1) (tokens b)"
    using bs fits_mono[of m _ "m + 1"] by auto
  have B': "fits (m + 1) (burst l)" using B by (rule fits_mono) simp
  note T = take_token_binary64[OF fl r _ B m]
  show "allowAt fl l a now = allowAt f64 l a now"
  proof (cases "map_of (buckets l) a")
    case None
    then show ?thesis
      by (cases "maxAgents l \<le> int (length (buckets (after_eviction f64 l now)))")
        (simp_all add: allowAt_full allowAt_new ev T(1) B)
  qed (simp add: allowAt_known T(1) known)
  show "limiter_fits (m + 1) (snd (allowAt f64 l a now))"
  proof (cases "map_of (buckets l) a")
    case None
    then show ?thesis
      using r B' kept[OF old] T(2)[of "\<lparr>tokens = burst l, last_at = now\<rparr>" now] B
      by (cases "maxAgents l \<le> int (length (buckets (after_eviction f64 l now)))")
        (auto simp: allowAt_full allowAt_new limiter_fits_def dest!: set_update_sub[THEN subsetD])
  next
    case (Some b)
    then show ?thesis
      using r B' old T(2)[OF known[OF Some], of now]
      by (auto simp: allowAt_known limiter_fits_def dest!: set_update_sub[THEN subsetD])
  qed
qed

lemma run_calls_binary64:
  assumes fl: "binary64_rounding fl"
  shows "limiter_fits m l \<Longrightarrow> 0 \<le> m \<Longrightarrow> m + int (length cs) \<le> 2 ^ 53 \<Longrightarrow> run_calls fl l cs = run_calls f64 l cs"
proof (induction cs arbitrary: l m)
  case (Cons c cs)
  obtain a t where c: "c = (a, t)" by fastforce
  have m: "0 \<le> m" "m < 2 ^ 53" using Cons.prems by simp_all
  note step = allowAt_binary64[OF fl Cons.prems(1) m, of a t]
  have "run_calls fl (snd (allowAt f64 l a t)) cs = run_calls f64 (snd (allowAt f64 l a t)) cs"
    using Cons.IH[OF step(2)] Cons.prems m by simp
  then show ?case by (simp add: c run_calls_Cons step(1))
qed simp

lemma New_binary64:
  assumes fl: "binary64_rounding fl" and "sane_rate rps" and "0 \<le> b" and "b < 2 ^ 63"
  shows "NewAgentLimiter fl rps b = NewAgentLimiter f64 rps b" and "limiter_fits 1 (NewAgentLimiter f64 rps b)"
proof -
  have "real_of_int b \<le> 2 ^ 63" using assms(4) by (simp add: of_int_le_numeral_power_cancel_iff less_imp_le)
  then have "\<bar>real_of_int b\<bar> \<le> of_int 1 * 2 powr 870" using assms(3) by (rule_tac order_trans[of _ "2 ^ 63"]) simp_all
  then have b: "fits 1 (of_int b)" by (simp add: fits_def on_grid_of_int)
  then have "fl (of_int b) = f64 (of_int b)" by (intro tame_agree[OF fl] fits_tame[of 1]) simp_all
  then show "NewAgentLimiter fl rps b = NewAgentLimiter f64 rps b" by (simp add: NewAgentLimiter_def)
  show "limiter_fits 1 (NewAgentLimiter f64 rps b)"
    using fits_f64[OF b] assms(2) by (simp add: limiter_fits_def NewAgentLimiter_def)
qed

section \<open>The limiter is the same on the bounded format\<close>

text \<open>
  C28. The bounds of \<^verbatim>\<open>float64\<close> do not show: with a rate between \<open>2 powr -800\<close> and \<open>2 powr 800\<close> and
  any burst of Go's int, a limiter answers and ends up the same with every rounding that is
  binary64's, subnormals included, up to the largest number (and arbitrary beyond), as with
  the unbounded exponents of \<open>f64\<close>, for any agents, any readings of the clock and at most
  \<open>2^50\<close> calls. So what the other properties say of \<open>f64\<close> holds of the machine's numbers.
\<close>

theorem limiter_in_binary64:
  assumes "binary64_rounding fl" and "2 powr - 800 \<le> rps" and "rps \<le> 2 powr 800" and "0 \<le> b" and "b < 2 ^ 63"
    and "length cs \<le> 2 ^ 50"
  shows "run_calls fl (NewAgentLimiter fl rps b) cs = run_calls f64 (NewAgentLimiter f64 rps b) cs"
proof -
  have r: "sane_rate rps" using assms(2,3) by (simp add: sane_rate_def)
  have "int (length cs) \<le> 2 ^ 50" using assms(6) by (simp flip: of_nat_le_iff)
  then have "1 + int (length cs) \<le> 2 ^ 53" by simp
  with run_calls_binary64[OF assms(1) New_binary64(2)[OF assms(1) r assms(4,5)]] show ?thesis
    by (simp add: New_binary64(1)[OF assms(1) r assms(4,5)])
qed

text \<open>The default settings of the gateway, on binary64 with an overflow to zero.\<close>

theorem limiter_in_binary64_witness:
  "run_calls (\<lambda>x. if \<bar>x\<bar> \<le> max_float64 then ieee 53 (- 1074) x else 0)
       (NewAgentLimiter (\<lambda>x. if \<bar>x\<bar> \<le> max_float64 then ieee 53 (- 1074) x else 0) 5 10) [(''agent'', 0), (''agent'', second)]
     = run_calls f64 (NewAgentLimiter f64 5 10) [(''agent'', 0), (''agent'', second)]"
proof -
  have "binary64_rounding (\<lambda>x. if \<bar>x\<bar> \<le> max_float64 then ieee 53 (- 1074) x else 0)" by (simp add: binary64_rounding_def)
  then show ?thesis by (rule limiter_in_binary64) (simp_all add: powr_minus divide_simps)
qed

end
