(* ===== verification/Samples.thy ===== *)
theory Samples
  imports GatewaySystem
begin

text \<open>
  A listed server, its policy, an agent that the policy names and a request of that agent that
  is forwarded: the concrete run on which the properties of the gateway are exercised.
\<close>

text \<open>A server, its policy and an agent on which the properties are exercised.\<close>

definition sample_poll :: poll where
  "sample_poll = \<lparr>p_observed = 0, p_host = [], p_list = Inr [sample_server]\<rparr>"

definition sample_reviewer :: reviewer where
  "sample_reviewer token audiences =
     (Some \<lparr>tr_authenticated = True, tr_error = [], tr_audiences = audiences, tr_uid = ''u1'',
        tr_username = ''system:serviceaccount:team:agent''\<rparr>, None)"

definition sample_request :: request where
  "sample_request = \<lparr>r_path = ''/team/tools/mcp'', r_header = [(''Authorization'', [''Bearer t''])],
     r_host = ''gw'', r_client_ip = Some ''10.0.0.1'', r_tls = False, r_proto_major = 1, r_has_body = True\<rparr>"

definition sample_env :: env where
  "sample_env = \<lparr>e_start = 5, e_allow = 6, e_policy = 7, e_end = 8, e_full_duplex = None,
     e_hop = id, e_upstream = \<lambda>out. \<lparr>u_header = id, u_codes = [200], u_body = ''ok'', u_aborted = False\<rparr>\<rparr>"

definition sample_auth :: "request \<Rightarrow> auth_result" where
  "sample_auth req = fst (Authenticate (\<lambda>_. []) (\<lambda>_. []) sample_reviewer
     \<lparr>sa_audience = ''portkeeper'', sa_inflight = 0\<rparr> req)"

definition sample_out :: outbound where
  "sample_out = rewrite ''tools-svc.team.svc.cluster.local:8080'' ''system:serviceaccount:team:agent''
     (sample_request\<lparr>r_path := ''/mcp''\<rparr>) (r_header sample_request)"

lemma sample_authenticated:
  "sample_auth sample_request = (''system:serviceaccount:team:agent'', None)"
  by (simp add: sample_auth_def) code_simp

lemma sample_route: "parsePath (r_path sample_request) = (''team'', ''tools'', ''mcp'', True)"
  by code_simp

lemma sample_port: "itoa 8080 = ''8080''"
  by (simp add: itoa_def nat_digits.simps digit_def) code_simp

lemma sample_ready: "IsReady first_condition (Some sample_server)"
  by code_simp

lemma sample_resolved:
  "\<exists>bk. Resolve (g_registry (gw_run first_condition [Poll sample_poll] (new_gateway 5 10))) ''team'' ''tools''
      = Inr bk \<and> b_address bk = ''tools-svc.team.svc.cluster.local:8080'' \<and> b_ready bk \<and>
    b_allowed bk = [\<lparr>sa_namespace = ''team'', sa_name = ''agent''\<rparr>] \<and> b_observed bk = 0"
proof -
  have "g_registry (gw_run first_condition [Poll sample_poll] (new_gateway 5 10)) =
      \<lparr>backends = [(item_key sample_server, item_backend first_condition [] 0 sample_server)], synced = True\<rparr>"
    by (simp add: refresh_def sample_poll_def new_gateway_def NewRouter_def NewRegistry_def)
  moreover have "item_key sample_server = NamespacedName ''team'' ''tools''"
    by (simp add: item_key_def sample_server_def)
  moreover have "item_backend first_condition [] 0 sample_server =
      \<lparr>b_namespace = ''team'', b_name = ''tools'', b_address = ''tools-svc.team.svc.cluster.local:8080'',
       b_ready = True, b_allowed = [\<lparr>sa_namespace = ''team'', sa_name = ''agent''\<rparr>], b_observed = 0\<rparr>"
    unfolding item_backend_def backend_address_def using sample_ready
    by (simp add: sample_server_def sample_port Let_def)
  ultimately show ?thesis by (simp add: Resolve_def)
qed

lemma sample_allowed:
  "fst (allowAt f64 (g_limiter (gw_run first_condition [Poll sample_poll] (new_gateway 5 10))) a t)"
proof -
  let ?l = "NewAgentLimiter f64 5 10"
  have "limiter_ok f64 ?l" "has_room f64 ?l a t" "budget f64 ?l a t = 10"
    by (simp_all add: New_ok) (simp_all add: has_room_def budget_def after_eviction_def
        NewAgentLimiter_def maxLimiterAgents_def)
  then have "fst (allowAt f64 ?l a t)" using f64.allowAt_room(1)[of ?l a t] by simp
  then show ?thesis by (simp add: new_gateway_def NewRouter_def)
qed

lemma sample_forwarded:
  "s_out (ServeHTTP (Some sample_auth) sample_env sample_request fresh_writer
     (gw_run first_condition [Poll sample_poll] (new_gateway 5 10))) = Some sample_out"
proof -
  obtain bk where bk: "Resolve (g_registry (gw_run first_condition [Poll sample_poll] (new_gateway 5 10)))
      ''team'' ''tools'' = Inr bk" "b_address bk = ''tools-svc.team.svc.cluster.local:8080''" "b_ready bk"
    "b_allowed bk = [\<lparr>sa_namespace = ''team'', sa_name = ''agent''\<rparr>]" "b_observed bk = 0"
    using sample_resolved by blast
  have "may_proxy sample_env sample_request ''system:serviceaccount:team:agent'' bk"
    using bk by (simp add: may_proxy_def sample_env_def allows_iff sa_username_def policyMaxAge_def
        time_sub_def second_def min_duration_def max_duration_def)
  moreover have "sample_out = rewrite (b_address bk) ''system:serviceaccount:team:agent''
      (sample_request\<lparr>r_path := ''/'' @ ''mcp''\<rparr>) (e_hop sample_env (r_header sample_request))"
    by (simp add: sample_out_def sample_env_def bk(2))
  ultimately show ?thesis
    unfolding ServeHTTP_out using bk(1) sample_authenticated sample_route sample_allowed by blast
qed

end
