(* ===== verification/Interleaving.thy ===== *)
theory Interleaving
  imports Samples
begin

text \<open>
  The gateway under load: every request runs in its own goroutine, and the goroutines and the
  registry's poll interleave between the operations on what they share. \<open>thread_step\<close> is one
  such operation of \<^verbatim>\<open>ServeHTTP\<close> (\<^verbatim>\<open>internal/gateway/router.go\<close>): a call that takes a
  lock, an update of a metric, or a line of the log. What a request does without shared state,
  the authentication call and the proxied exchange, is a step of its own too.

  A request that runs alone does what theory \<open>Router\<close> says (\<open>alone_handled\<close>); the
  properties of the runs of theory \<open>GatewaySystem\<close> are shown here for every interleaving.
\<close>

section \<open>One request\<close>

record gw_input =
  in_auth :: "(request \<Rightarrow> auth_result) option"
  in_env :: env
  in_req :: request
  in_writer :: response_writer

definition sample_input :: gw_input where
  "sample_input = \<lparr>in_auth = Some sample_auth, in_env = sample_env, in_req = sample_request,
     in_writer = fresh_writer\<rparr>"

text \<open>What the body of the handler has decided, for its deferred functions.\<close>

record answer =
  a_rec :: statusCapturingWriter
  a_agent :: string
  a_namespace :: string
  a_labels :: "string \<times> string \<times> string"
  a_completed :: bool
  a_out :: "outbound option"

datatype thread =
    Arrived
  | Entered
  | Authenticated string
  | Resolved string "go_error + Backend"
  | Labelled string "go_error + Backend" "string \<times> string"
  | Allowed string "go_error + Backend" "string \<times> string"
  | Denied string "go_error + Backend" "string \<times> string"
  | DeniedAs string "go_error + Backend" "string \<times> string" string
  | Answered answer
  | Logged answer
  | Counted answer
  | Observed answer
  | Departed answer

definition resolved_namespace :: "string \<Rightarrow> go_error + Backend \<Rightarrow> string" where
  "resolved_namespace ns res = (case res of Inl _ \<Rightarrow> ns | Inr b \<Rightarrow> b_namespace b)"

definition answer_of :: "gw_input \<Rightarrow> string \<Rightarrow> go_error + Backend \<Rightarrow> string \<times> string
    \<Rightarrow> statusCapturingWriter \<Rightarrow> bool \<Rightarrow> outbound option \<Rightarrow> answer" where
  "answer_of inp agentID res l r completed out =
     (let (ns, serverName, toolName, ok) = parsePath (r_path (in_req inp)) in
      \<lparr>a_rec = r, a_agent = agentID, a_namespace = resolved_namespace ns res,
       a_labels = (fst l, snd l, observedEndpoint toolName), a_completed = completed, a_out = out\<rparr>)"

definition emit_event :: "metric_event \<Rightarrow> Gateway \<Rightarrow> Gateway" where
  "emit_event ev g = g\<lparr>g_metrics := emit [ev] (g_metrics g)\<rparr>"

definition answer_line :: "gw_input \<Rightarrow> answer \<Rightarrow> log_line" where
  "answer_line inp a =
     (let (_, serverName, toolName, _) = parsePath (r_path (in_req inp)) in
      \<lparr>l_namespace = a_namespace a, l_server = serverName, l_endpoint = toolName, l_agent = a_agent a,
       l_status = rec_status (a_rec a), l_completed = a_completed a,
       l_latency = time_sub (e_end (in_env inp)) (e_start (in_env inp))\<rparr>)"

definition authenticate_step :: "gw_input \<Rightarrow> thread" where
  "authenticate_step inp =
     (let (ns, serverName, toolName, ok) = parsePath (r_path (in_req inp));
          recorder = new_recorder (in_writer inp);
          (agentID, authErr) =
            (case in_auth inp of None \<Rightarrow> ([], Some ErrAuthenticationUnavailable) | Some a \<Rightarrow> a (in_req inp))
      in if authErr \<noteq> None \<or> agentID = [] then
           Answered \<lparr>a_rec = (if authErr = Some ErrUnauthenticated
               then http_Error (error_message ErrUnauthenticated) 401
                 (set_response_header ''WWW-Authenticate'' ''Bearer realm=\"portkeeper\"'' recorder)
               else retry_after ''5'' (error_message ErrAuthenticationUnavailable) 503 recorder),
             a_agent = agentID, a_namespace = ns, a_labels = ([], ''_unauthenticated'', ''other''),
             a_completed = True, a_out = None\<rparr>
         else if \<not> ok then
           Answered \<lparr>a_rec = http_Error ''expected /<namespace>/<server>/<endpoint> or /<server>/<endpoint>'' 400 recorder,
             a_agent = agentID, a_namespace = ns, a_labels = ([], ''_unresolved'', observedEndpoint toolName),
             a_completed = True, a_out = None\<rparr>
         else Authenticated agentID)"

definition allowed_step :: "gw_input \<Rightarrow> string \<Rightarrow> go_error + Backend \<Rightarrow> string \<times> string \<Rightarrow> thread" where
  "allowed_step inp agentID res l =
     (let (ns, serverName, toolName, ok) = parsePath (r_path (in_req inp));
          recorder = new_recorder (in_writer inp)
      in case res of
           Inl err \<Rightarrow> Answered (answer_of inp agentID res l
             (http_Error (error_message err) (resolve_status err) recorder) True None)
         | Inr backend \<Rightarrow>
             (let (r, completed, out) = serve_backend (in_env inp) (in_req inp) agentID toolName backend recorder
              in Answered (answer_of inp agentID res l r completed out)))"

fun thread_step :: "gw_input \<Rightarrow> thread \<Rightarrow> Gateway \<Rightarrow> thread \<times> Gateway" where
  "thread_step inp Arrived g = (Entered, emit_event InFlightInc g)"
| "thread_step inp Entered g = (authenticate_step inp, g)"
| "thread_step inp (Authenticated p) g =
     (let (ns, serverName, toolName, ok) = parsePath (r_path (in_req inp))
      in (Resolved p (Resolve (g_registry g) ns serverName), g))"
| "thread_step inp (Resolved p res) g =
     (case res of
        Inl err \<Rightarrow> (Labelled p res ([], ''_unresolved''), g)
      | Inr b \<Rightarrow> (let (l, m) = observedServer b (g_metrics g) in (Labelled p res l, g\<lparr>g_metrics := m\<rparr>)))"
| "thread_step inp (Labelled p res l) g =
     (let (allowed, lim) = allowAt f64 (g_limiter g) p (e_allow (in_env inp))
      in (if allowed then Allowed p res l else Denied p res l, g\<lparr>g_limiter := lim\<rparr>))"
| "thread_step inp (Denied p res l) g =
     (let (ok, ls) = admit (agentMetricLabels (g_metrics g)) p
      in (DeniedAs p res l (if \<not> ok then ''_overflow'' else p),
          g\<lparr>g_metrics := (g_metrics g)\<lparr>agentMetricLabels := ls\<rparr>\<rparr>))"
| "thread_step inp (DeniedAs p res l label) g =
     (Answered (answer_of inp p res l
        (retry_after ''1'' ''agent rate limit or limiter capacity exceeded'' 429 (new_recorder (in_writer inp))) True None),
      emit_event (RateLimitedInc label) g)"
| "thread_step inp (Allowed p res l) g = (allowed_step inp p res l, g)"
| "thread_step inp (Answered a) g = (Logged a, g\<lparr>g_log := g_log g @ [answer_line inp a]\<rparr>)"
| "thread_step inp (Logged a) g =
     (let (ns, server, endpoint) = a_labels a
      in (Counted a, emit_event (RequestInc ns server endpoint (status_label (rec_status (a_rec a)))
            (if \<not> a_completed a then ''aborted'' else ''complete'')) g))"
| "thread_step inp (Counted a) g =
     (let (ns, server, endpoint) = a_labels a
      in (Observed a, emit_event (DurationObserve ns server endpoint
            (Seconds f64 (time_sub (e_end (in_env inp)) (e_start (in_env inp))))) g))"
| "thread_step inp (Observed a) g = (Departed a, emit_event InFlightDec g)"
| "thread_step inp (Departed a) g = (Departed a, g)"

text \<open>A request on its own, for a number of steps; eleven are enough for every path.\<close>

fun run_alone :: "gw_input \<Rightarrow> nat \<Rightarrow> thread \<times> Gateway \<Rightarrow> thread \<times> Gateway" where
  "run_alone inp 0 s = s"
| "run_alone inp (Suc n) (th, g) = run_alone inp n (thread_step inp th g)"

definition handled_answer :: "handled \<Rightarrow> answer" where
  "handled_answer h = \<lparr>a_rec = h_rec h, a_agent = h_agent h, a_namespace = h_namespace h, a_labels = h_labels h,
     a_completed = h_completed h, a_out = h_out h\<rparr>"

lemma run_alone_add: "run_alone inp (m + n) s = run_alone inp n (run_alone inp m s)"
  by (induction inp m s rule: run_alone.induct) simp_all

lemma run_departed: "run_alone inp n (Departed a, g) = (Departed a, g)"
  by (induction n) simp_all

lemma run_deferred:
  "run_alone inp 4 (Answered (handled_answer h), h_gateway h) =
     (Departed (handled_answer h), deferred (in_env inp) (in_req inp) h)"
proof -
  obtain ns server tool ok where path: "parsePath (r_path (in_req inp)) = (ns, server, tool, ok)"
    by (metis prod_cases4)
  obtain mns mserver mendpoint where l: "h_labels h = (mns, mserver, mendpoint)" by (metis prod_cases3)
  show ?thesis
    by (simp add: eval_nat_numeral handled_answer_def l deferred_def path answer_line_def emit_event_def
        recordRequest_def Let_def) (simp add: emit_def)
qed

lemma run_body:
  "\<exists>n \<le> 7. run_alone inp n (Arrived, g) =
     (let h = serve_body (in_auth inp) (in_env inp) (in_req inp) (in_writer inp)
          (g\<lparr>g_metrics := emit [InFlightInc] (g_metrics g)\<rparr>)
      in (Answered (handled_answer h), h_gateway h))"
proof -
  let ?h = "serve_body (in_auth inp) (in_env inp) (in_req inp) (in_writer inp)
     (g\<lparr>g_metrics := emit [InFlightInc] (g_metrics g)\<rparr>)"
  obtain ns server tool ok where path: "parsePath (r_path (in_req inp)) = (ns, server, tool, ok)"
    by (metis prod_cases4)
  obtain p err where auth: "(case in_auth inp of None \<Rightarrow> ([], Some ErrAuthenticationUnavailable)
      | Some a \<Rightarrow> a (in_req inp)) = (p, err)" by fastforce
  obtain ok' lim where allow: "allowAt f64 (g_limiter g) p (e_allow (in_env inp)) = (ok', lim)" by fastforce
  consider "err \<noteq> None \<or> p = [] \<or> \<not> ok" | "err = None" "p \<noteq> []" "ok" by blast
  then show ?thesis
  proof cases
    case 1
    then have "run_alone inp (Suc (Suc 0)) (Arrived, g) = (Answered (handled_answer ?h), h_gateway ?h)"
      by (auto simp: emit_event_def authenticate_step_def serve_body_def handled_answer_def path auth Let_def)
    then show ?thesis unfolding Let_def by (intro exI[of _ "Suc (Suc 0)"]) simp
  next
    case 2
    then have start: "run_alone inp (Suc (Suc (Suc 0))) (Arrived, g) =
        (Resolved p (Resolve (g_registry g) ns server), g\<lparr>g_metrics := emit [InFlightInc] (g_metrics g)\<rparr>)"
      by (simp add: emit_event_def authenticate_step_def path auth Let_def)
    obtain l m where obs: "(case Resolve (g_registry g) ns server of
        Inl _ \<Rightarrow> (([], ''_unresolved''), emit [InFlightInc] (g_metrics g))
      | Inr b \<Rightarrow> observedServer b (emit [InFlightInc] (g_metrics g))) = (l, m)" by fastforce
    have labelled: "run_alone inp (3 + Suc (Suc 0)) (Arrived, g) =
        (if ok' then Allowed p (Resolve (g_registry g) ns server) l else Denied p (Resolve (g_registry g) ns server) l,
         g\<lparr>g_metrics := m, g_limiter := lim\<rparr>)"
      unfolding run_alone_add numeral_3_eq_3 start using obs allow by (auto split: sum.splits)
    show ?thesis
    proof (cases ok')
      case True
      have "run_alone inp (3 + Suc (Suc 0) + Suc 0) (Arrived, g) = (Answered (handled_answer ?h), h_gateway ?h)"
        unfolding run_alone_add[of _ "3 + Suc (Suc 0)"] labelled
        using 2 True obs allow by (auto simp: allowed_step_def answer_of_def resolved_namespace_def serve_body_def
            handled_answer_def path auth Let_def split_beta split: sum.splits)
      then show ?thesis unfolding Let_def by (intro exI[of _ "3 + Suc (Suc 0) + Suc 0"]) simp
    next
      case False
      have "run_alone inp (3 + Suc (Suc 0) + Suc (Suc 0)) (Arrived, g) = (Answered (handled_answer ?h), h_gateway ?h)"
        unfolding run_alone_add[of _ "3 + Suc (Suc 0)"] labelled
        using 2 False obs allow by (auto simp: answer_of_def resolved_namespace_def serve_body_def
            handled_answer_def emit_event_def recordRateLimit_def path auth Let_def split_beta split: sum.splits)
      then show ?thesis unfolding Let_def by (intro exI[of _ "3 + Suc (Suc 0) + Suc (Suc 0)"]) simp
    qed
  qed
qed

text \<open>
  The steps of a request that runs without interference add up to the handler: after eleven of
  them it has departed, with the response, the outbound request and the panic of \<open>ServeHTTP\<close>,
  and the gateway is in the state that \<open>ServeHTTP\<close> leaves.
\<close>

lemma alone_handled:
  "\<exists>a. run_alone inp 11 (Arrived, g)
      = (Departed a, s_gateway (ServeHTTP (in_auth inp) (in_env inp) (in_req inp) (in_writer inp) g)) \<and>
     rec_writer (a_rec a) = s_response (ServeHTTP (in_auth inp) (in_env inp) (in_req inp) (in_writer inp) g) \<and>
     a_out a = s_out (ServeHTTP (in_auth inp) (in_env inp) (in_req inp) (in_writer inp) g) \<and>
     (\<not> a_completed a) = s_panicked (ServeHTTP (in_auth inp) (in_env inp) (in_req inp) (in_writer inp) g)"
proof -
  let ?h = "serve_body (in_auth inp) (in_env inp) (in_req inp) (in_writer inp)
     (g\<lparr>g_metrics := emit [InFlightInc] (g_metrics g)\<rparr>)"
  obtain n where n: "n \<le> 7" "run_alone inp n (Arrived, g) = (Answered (handled_answer ?h), h_gateway ?h)"
    using run_body[of inp g] unfolding Let_def by blast
  have "(11::nat) = n + 4 + (7 - n)" using n(1) by simp
  then have "run_alone inp 11 (Arrived, g) = (Departed (handled_answer ?h), deferred (in_env inp) (in_req inp) ?h)"
    by (simp only: run_alone_add n(2) run_deferred run_departed)
  then show ?thesis by (simp add: ServeHTTP_def Let_def) (simp add: handled_answer_def)
qed

text \<open>Every step but the last brings a request closer to its departure.\<close>

fun remaining :: "thread \<Rightarrow> nat" where
  "remaining Arrived = 11"
| "remaining Entered = 10"
| "remaining (Authenticated _) = 9"
| "remaining (Resolved _ _) = 8"
| "remaining (Labelled _ _ _) = 7"
| "remaining (Allowed _ _ _) = 5"
| "remaining (Denied _ _ _) = 6"
| "remaining (DeniedAs _ _ _ _) = 5"
| "remaining (Answered _) = 4"
| "remaining (Logged _) = 3"
| "remaining (Counted _) = 2"
| "remaining (Observed _) = 1"
| "remaining (Departed _) = 0"

lemma authenticate_step_cases:
  "(\<exists>a. authenticate_step inp = Answered a) \<or> (\<exists>p. authenticate_step inp = Authenticated p)"
  by (auto simp: authenticate_step_def Let_def split_beta)

lemma allowed_step_cases: "\<exists>a. allowed_step inp p res l = Answered a"
  by (auto simp: allowed_step_def Let_def split_beta split: sum.splits)

lemma remaining_step: "remaining (fst (thread_step inp th g)) \<le> remaining th - 1"
proof (cases th)
  case Entered
  then show ?thesis using authenticate_step_cases[of inp] by auto
next
  case (Allowed p res l)
  then show ?thesis using allowed_step_cases[of inp p res l] by auto
qed (auto simp: Let_def split_beta split: sum.splits)

text \<open>The steps of one request, each in the state that the others have left the gateway in.\<close>

fun interfered :: "gw_input \<Rightarrow> thread \<Rightarrow> Gateway list \<Rightarrow> thread" where
  "interfered inp th [] = th"
| "interfered inp th (g # gs) = interfered inp (fst (thread_step inp th g)) gs"

lemma remaining_interfered: "remaining (interfered inp th gs) \<le> remaining th - length gs"
proof (induction inp th gs rule: interfered.induct)
  case (2 inp th g gs)
  then show ?case using remaining_step[of inp th g] by simp
qed simp

lemma remaining_zero: "remaining th = 0 \<longleftrightarrow> (\<exists>a. th = Departed a)"
  by (cases th) auto

text \<open>
  Whatever the other requests and the polls do to the gateway between the steps of a request,
  it has departed after eleven steps of its own.
\<close>

theorem departs_under_interference:
  assumes "11 \<le> length gs"
  shows "\<exists>a. interfered inp Arrived gs = Departed a"
  using remaining_interfered[of inp Arrived gs] assms by (simp add: remaining_zero)

theorem departs_under_interference_witness:
  "\<exists>a. interfered sample_input Arrived (replicate 12 (new_gateway 5 10)) = Departed a"
  using departs_under_interference[of "replicate 12 (new_gateway 5 10)" sample_input] by simp

section \<open>All requests\<close>

record gw_system =
  sy_gateway :: Gateway
  sy_polls :: "poll list"
  sy_threads :: "(gw_input \<times> thread) list"

inductive system_step :: "condition_finder \<Rightarrow> gw_system \<Rightarrow> gw_system \<Rightarrow> bool" for f where
  poll: "system_step f s (s\<lparr>sy_gateway := (sy_gateway s)\<lparr>g_registry := refresh f p (g_registry (sy_gateway s))\<rparr>,
      sy_polls := sy_polls s @ [p]\<rparr>)"
| arrive: "system_step f s (s\<lparr>sy_threads := sy_threads s @ [(inp, Arrived)]\<rparr>)"
| act: "i < length (sy_threads s) \<Longrightarrow> sy_threads s ! i = (inp, th) \<Longrightarrow>
    thread_step inp th (sy_gateway s) = (th', g') \<Longrightarrow>
    system_step f s (s\<lparr>sy_gateway := g', sy_threads := (sy_threads s)[i := (inp, th')]\<rparr>)"

inductive reachable :: "condition_finder \<Rightarrow> real \<Rightarrow> int \<Rightarrow> gw_system \<Rightarrow> bool" for f rps b where
  start: "reachable f rps b \<lparr>sy_gateway = new_gateway rps b, sy_polls = [], sy_threads = []\<rparr>"
| run: "reachable f rps b s \<Longrightarrow> system_step f s s' \<Longrightarrow> reachable f rps b s'"

lemma thread_step_registry: "g_registry (snd (thread_step inp th g)) = g_registry g"
  by (cases th) (auto simp: emit_event_def Let_def split_beta split: sum.splits)

lemma reachable_registry:
  "reachable f rps b s \<Longrightarrow> g_registry (sy_gateway s) = Start f (sy_polls s) NewRegistry"
proof (induction rule: reachable.induct)
  case (run s s')
  from run.hyps(2) show ?case
  proof (cases rule: system_step.cases)
    case (act i inp th th' g')
    then show ?thesis using thread_step_registry[of inp th "sy_gateway s"] run.IH by simp
  qed (simp_all add: run.IH Start_append)
qed (simp add: new_gateway_def NewRouter_def)

section \<open>What is forwarded\<close>

fun outcome :: "thread \<Rightarrow> answer option" where
  "outcome (Answered a) = Some a"
| "outcome (Logged a) = Some a"
| "outcome (Counted a) = Some a"
| "outcome (Observed a) = Some a"
| "outcome (Departed a) = Some a"
| "outcome _ = None"

definition identified :: "gw_input \<Rightarrow> string \<Rightarrow> bool" where
  "identified inp p \<longleftrightarrow> (\<exists>a. in_auth inp = Some a \<and> a (in_req inp) = (p, None))"

definition looked_up :: "condition_finder \<Rightarrow> poll list \<Rightarrow> gw_input \<Rightarrow> go_error + Backend \<Rightarrow> bool" where
  "looked_up f ps inp res \<longleftrightarrow> (\<exists>ns server tool qs rs. ps = qs @ rs \<and>
     parsePath (r_path (in_req inp)) = (ns, server, tool, True) \<and>
     res = Resolve (Start f qs NewRegistry) ns server)"

definition forwarded_by :: "condition_finder \<Rightarrow> poll list \<Rightarrow> gw_input \<Rightarrow> outbound \<Rightarrow> bool" where
  "forwarded_by f ps inp out \<longleftrightarrow> (\<exists>p ns server tool bk qs rs. ps = qs @ rs \<and> identified inp p \<and>
     parsePath (r_path (in_req inp)) = (ns, server, tool, True) \<and>
     Resolve (Start f qs NewRegistry) ns server = Inr bk \<and> may_proxy (in_env inp) (in_req inp) p bk \<and>
     out = rewrite (b_address bk) p ((in_req inp)\<lparr>r_path := ''/'' @ tool\<rparr>)
       (e_hop (in_env inp) (r_header (in_req inp))))"

text \<open>What a request that has come this far has passed.\<close>

fun justified :: "condition_finder \<Rightarrow> poll list \<Rightarrow> gw_input \<Rightarrow> thread \<Rightarrow> bool" where
  "justified f ps inp Arrived = True"
| "justified f ps inp Entered = True"
| "justified f ps inp (Authenticated p) =
     (identified inp p \<and> (\<exists>ns server tool. parsePath (r_path (in_req inp)) = (ns, server, tool, True)))"
| "justified f ps inp (Resolved p res) = (identified inp p \<and> looked_up f ps inp res)"
| "justified f ps inp (Labelled p res l) = (identified inp p \<and> looked_up f ps inp res)"
| "justified f ps inp (Allowed p res l) = (identified inp p \<and> looked_up f ps inp res)"
| "justified f ps inp (Denied p res l) = True"
| "justified f ps inp (DeniedAs p res l label) = True"
| "justified f ps inp th = (case outcome th of None \<Rightarrow> True | Some a \<Rightarrow>
     (case a_out a of None \<Rightarrow> True | Some out \<Rightarrow> forwarded_by f ps inp out))"

lemma justified_outcome:
  "justified f ps inp th \<Longrightarrow> outcome th = Some a \<Longrightarrow> a_out a = Some out \<Longrightarrow> forwarded_by f ps inp out"
  by (cases th) auto

lemma justified_more_polls: "justified f ps inp th \<Longrightarrow> justified f (ps @ [p]) inp th"
proof -
  assume j: "justified f ps inp th"
  have "looked_up f ps inp res \<Longrightarrow> looked_up f (ps @ [p]) inp res" for res
    unfolding looked_up_def by (metis append.assoc)
  moreover have "forwarded_by f ps inp out \<Longrightarrow> forwarded_by f (ps @ [p]) inp out" for out
    unfolding forwarded_by_def by (metis append.assoc)
  ultimately show ?thesis using j by (cases th) (auto split: option.splits)
qed

lemma justified_authenticate: "justified f ps inp (authenticate_step inp)"
  by (auto simp: authenticate_step_def identified_def Let_def split_beta split: option.splits if_splits)
    (metis prod.collapse)+

lemma justified_allowed:
  assumes "identified inp p" and "looked_up f ps inp res"
  shows "justified f ps inp (allowed_step inp p res l)"
proof -
  from assms(2) obtain ns server tool qs rs where path: "parsePath (r_path (in_req inp)) = (ns, server, tool, True)"
    and res: "ps = qs @ rs" "res = Resolve (Start f qs NewRegistry) ns server"
    unfolding looked_up_def by blast
  show ?thesis
  proof (cases res)
    case (Inl err)
    then show ?thesis by (simp add: allowed_step_def answer_of_def path)
  next
    case (Inr bk)
    then have a: "a_out (the (outcome (allowed_step inp p res l)))
        = snd (snd (serve_backend (in_env inp) (in_req inp) p tool bk (new_recorder (in_writer inp))))"
      by (simp add: allowed_step_def answer_of_def path split_beta Let_def)
    have "forwarded_by f ps inp (rewrite (b_address bk) p ((in_req inp)\<lparr>r_path := ''/'' @ tool\<rparr>)
        (e_hop (in_env inp) (r_header (in_req inp))))" if "may_proxy (in_env inp) (in_req inp) p bk"
      unfolding forwarded_by_def using assms(1) res path Inr that by metis
    with a show ?thesis
      using allowed_step_cases[of inp p res l] by (auto simp: serve_backend_out split: option.splits if_splits)
  qed
qed

lemma justified_step:
  assumes "justified f ps inp th" and "g_registry g = Start f ps NewRegistry"
  shows "justified f ps inp (fst (thread_step inp th g))"
proof (cases th)
  case Entered
  then show ?thesis by (simp add: justified_authenticate)
next
  case (Authenticated p)
  then obtain ns server tool where "parsePath (r_path (in_req inp)) = (ns, server, tool, True)" "identified inp p"
    using assms(1) by auto
  moreover have "ps = ps @ []" by simp
  ultimately have "looked_up f ps inp (Resolve (Start f ps NewRegistry) ns server)"
    unfolding looked_up_def by blast
  with \<open>parsePath _ = _\<close> \<open>identified inp p\<close> Authenticated assms(2) show ?thesis by simp
next
  case (Allowed p res l)
  then show ?thesis using assms(1) by (simp add: justified_allowed)
next
  case (DeniedAs p res l label)
  then show ?thesis by (simp add: answer_of_def Let_def split_beta)
qed (use assms(1) in \<open>auto simp: Let_def split_beta split: sum.splits\<close>)

lemma thread_updated:
  "\<forall>(inp, th) \<in> set xs. P inp th \<Longrightarrow> P inp th' \<Longrightarrow> \<forall>(inp, th) \<in> set (xs[i := (inp, th')]). P inp th"
  using set_update_subset_insert[of xs i "(inp, th')"] by auto

lemma reachable_justified:
  "reachable f rps b s \<Longrightarrow> \<forall>(inp, th) \<in> set (sy_threads s). justified f (sy_polls s) inp th"
proof (induction rule: reachable.induct)
  case (run s s')
  from run.hyps(2) show ?case
  proof (cases rule: system_step.cases)
    case (poll p)
    then show ?thesis using run.IH justified_more_polls by fastforce
  next
    case (arrive inp)
    then show ?thesis using run.IH by auto
  next
    case (act i inp th th' g')
    then have "justified f (sy_polls s) inp th" using run.IH nth_mem by fastforce
    then have "justified f (sy_polls s) inp th'"
      using justified_step[OF _ reachable_registry[OF run.hyps(1)]] act(4) by (metis fst_conv)
    with run.IH act(1) show ?thesis by (simp add: thread_updated)
  qed
qed simp

text \<open>
  C2. The gateway under load: however requests and polls interleave, a request is forwarded only
  when its verified principal is a ServiceAccount that a ready server of a list names in its
  policy, the route names that server, and the request goes there as that principal. The list
  is the one that was current when the request looked its server up, and it is at most 15
  seconds old when the policy is checked, however many polls have replaced it since.
\<close>

theorem interleaved_only_if_authorized:
  assumes "finds_conditions f" and "reachable f rps b s" and "(inp, th) \<in> set (sy_threads s)"
    and "in_auth inp = Some (\<lambda>req. fst (Authenticate dl ds rv au req))"
    and "outcome th = Some a" and "a_out a = Some out"
  shows "\<exists>account qs rs q items item ns tool. sy_polls s = qs @ rs \<and>
    fst (Authenticate dl ds rv au (in_req inp)) = (sa_username account, None) \<and>
    header_values (o_header out) ''X-Agent-ID'' = [sa_username account] \<and>
    last_poll qs = Some q \<and> e_policy (in_env inp) - p_observed q \<le> 15 * second \<and>
    p_list q = Inr items \<and> item \<in> set items \<and> current_ready item \<and>
    account \<in> set (spec_allowed (m_spec item)) \<and>
    parsePath (r_path (in_req inp)) = (ns, m_name item, tool, True) \<and> (ns = [] \<or> ns = m_namespace item) \<and>
    o_url_host out = backend_address (p_host q) item \<and> o_url_path out = ''/'' @ tool"
proof -
  have "justified f (sy_polls s) inp th" using reachable_justified[OF assms(2)] assms(3) by blast
  from justified_outcome[OF this assms(5,6)] obtain p ns server tool bk qs rs where
    polls: "sy_polls s = qs @ rs" and p: "fst (Authenticate dl ds rv au (in_req inp)) = (p, None)"
    and path: "parsePath (r_path (in_req inp)) = (ns, server, tool, True)"
    and bk: "Resolve (Start f qs NewRegistry) ns server = Inr bk" "may_proxy (in_env inp) (in_req inp) p bk"
    "out = rewrite (b_address bk) p ((in_req inp)\<lparr>r_path := ''/'' @ tool\<rparr>)
       (e_hop (in_env inp) (r_header (in_req inp)))"
    unfolding forwarded_by_def identified_def assms(4) by auto
  from listed_backend[OF assms(1) bk] polls p path show ?thesis by metis
qed

text \<open>A run in which one request is served alone.\<close>

lemma reachable_alone:
  "reachable f rps b s \<Longrightarrow> sy_threads s = [(inp, th)] \<Longrightarrow>
     reachable f rps b (s\<lparr>sy_gateway := snd (run_alone inp n (th, sy_gateway s)),
       sy_threads := [(inp, fst (run_alone inp n (th, sy_gateway s)))]\<rparr>)"
proof (induction n arbitrary: s th)
  case 0
  then show ?case by (cases s) simp
next
  case (Suc n)
  obtain th' g' where step: "thread_step inp th (sy_gateway s) = (th', g')" by fastforce
  have "system_step f s (s\<lparr>sy_gateway := g', sy_threads := (sy_threads s)[0 := (inp, th')]\<rparr>)"
    by (rule system_step.act) (use Suc.prems step in auto)
  then have "reachable f rps b (s\<lparr>sy_gateway := g', sy_threads := [(inp, th')]\<rparr>)"
    using Suc.prems by (simp add: reachable.run)
  from Suc.IH[OF this] show ?case by (simp add: step)
qed

definition sample_system :: gw_system where
  "sample_system = \<lparr>sy_gateway = snd (run_alone sample_input 11
       (Arrived, gw_run first_condition [Poll sample_poll] (new_gateway 5 10))),
     sy_polls = [sample_poll],
     sy_threads = [(sample_input, fst (run_alone sample_input 11
       (Arrived, gw_run first_condition [Poll sample_poll] (new_gateway 5 10))))]\<rparr>"

lemma sample_reachable: "reachable first_condition 5 10 sample_system"
proof -
  have "reachable first_condition 5 10 \<lparr>sy_gateway = gw_run first_condition [Poll sample_poll] (new_gateway 5 10),
      sy_polls = [sample_poll], sy_threads = []\<rparr>"
    using reachable.run[OF reachable.start system_step.poll, of first_condition 5 10 sample_poll] by simp
  from reachable.run[OF this system_step.arrive, of sample_input]
  have "reachable first_condition 5 10 \<lparr>sy_gateway = gw_run first_condition [Poll sample_poll] (new_gateway 5 10),
      sy_polls = [sample_poll], sy_threads = [(sample_input, Arrived)]\<rparr>" by simp
  from reachable_alone[OF this, of sample_input Arrived 11] show ?thesis by (simp add: sample_system_def)
qed

theorem interleaved_only_if_authorized_witness:
  "\<exists>account item. header_values (o_header sample_out) ''X-Agent-ID'' = [sa_username account] \<and>
     current_ready item \<and> account \<in> set (spec_allowed (m_spec item))"
proof -
  obtain a where a: "run_alone sample_input 11 (Arrived, gw_run first_condition [Poll sample_poll] (new_gateway 5 10))
      = (Departed a, s_gateway (ServeHTTP (Some sample_auth) sample_env sample_request fresh_writer
          (gw_run first_condition [Poll sample_poll] (new_gateway 5 10))))"
    "a_out a = Some sample_out"
    using alone_handled[of sample_input "gw_run first_condition [Poll sample_poll] (new_gateway 5 10)"]
    by (auto simp: sample_input_def sample_forwarded simp del: gw_run.simps)
  then have "(sample_input, Departed a) \<in> set (sy_threads sample_system)" by (simp add: sample_system_def)
  moreover have "in_auth sample_input = Some (\<lambda>req. fst (Authenticate (\<lambda>_. []) (\<lambda>_. []) sample_reviewer
      \<lparr>sa_audience = ''portkeeper'', sa_inflight = 0\<rparr> req))"
    by (simp add: sample_input_def sample_auth_def fun_eq_iff)
  moreover have "outcome (Departed a) = Some a" by simp
  ultimately show ?thesis
    using interleaved_only_if_authorized[OF finds_first_condition sample_reachable _ _ _ a(2)] by blast
qed

section \<open>What is counted\<close>

fun in_flight :: "thread \<Rightarrow> bool" where
  "in_flight Arrived = False"
| "in_flight (Departed a) = False"
| "in_flight _ = True"

fun logged :: "gw_input \<times> thread \<Rightarrow> log_line option" where
  "logged (inp, Logged a) = Some (answer_line inp a)"
| "logged (inp, Counted a) = Some (answer_line inp a)"
| "logged (inp, Observed a) = Some (answer_line inp a)"
| "logged (inp, Departed a) = Some (answer_line inp a)"
| "logged _ = None"

fun counted_line :: "gw_input \<times> thread \<Rightarrow> log_line option" where
  "counted_line (inp, Counted a) = Some (answer_line inp a)"
| "counted_line (inp, Observed a) = Some (answer_line inp a)"
| "counted_line (inp, Departed a) = Some (answer_line inp a)"
| "counted_line _ = None"

fun observed_line :: "gw_input \<times> thread \<Rightarrow> log_line option" where
  "observed_line (inp, Observed a) = Some (answer_line inp a)"
| "observed_line (inp, Departed a) = Some (answer_line inp a)"
| "observed_line _ = None"

definition request_labels :: "log_line \<Rightarrow> string \<times> string" where
  "request_labels l = (status_label (l_status l), result_label (l_completed l))"

definition request_seconds :: "log_line \<Rightarrow> real" where
  "request_seconds l = Seconds f64 (l_latency l)"

text \<open>The lines that a function of the threads selects, and how one step of a thread moves them.\<close>

definition lines :: "(gw_input \<times> thread \<Rightarrow> 'l option) \<Rightarrow> (gw_input \<times> thread) list \<Rightarrow> 'l multiset" where
  "lines h ths = mset (List.map_filter h ths)"

lemma lines_simps [simp]:
  "lines h [] = {#}"
  "lines h (x # xs) = (case h x of None \<Rightarrow> lines h xs | Some l \<Rightarrow> add_mset l (lines h xs))"
  "lines h (xs @ ys) = lines h xs + lines h ys"
  by (auto simp: lines_def map_filter_def split: option.splits)

lemma lines_update:
  "i < length xs \<Longrightarrow> lines h (xs[i := y]) + lines h [xs ! i] = lines h xs + lines h [y]"
proof (induction xs arbitrary: i)
  case (Cons x xs)
  then show ?case by (cases i) (auto split: option.splits)
qed simp

definition flight :: "gw_input \<times> thread \<Rightarrow> unit option" where
  "flight x = (if in_flight (snd x) then Some () else None)"

definition tallied :: "Gateway \<Rightarrow> (gw_input \<times> thread) list \<Rightarrow> bool" where
  "tallied g ths \<longleftrightarrow> gauge (events (g_metrics g)) = int (size (lines flight ths)) \<and>
     mset (g_log g) = lines logged ths \<and>
     mset (counted (events (g_metrics g))) = image_mset request_labels (lines counted_line ths) \<and>
     mset (durations (events (g_metrics g))) = image_mset request_seconds (lines observed_line ths)"

lemma answer_line_simps [simp]:
  "l_status (answer_line inp a) = rec_status (a_rec a)"
  "l_completed (answer_line inp a) = a_completed a"
  "l_latency (answer_line inp a) = time_sub (e_end (in_env inp)) (e_start (in_env inp))"
  by (simp_all add: answer_line_def Let_def split_beta)

text \<open>What one step adds to each reading is what it adds to the threads' lines.\<close>

lemma thread_step_readings:
  assumes "thread_step inp th g = (th', g')"
  shows "(gauge (events (g_metrics g')) + int (size (lines flight [(inp, th)]))
      = gauge (events (g_metrics g)) + int (size (lines flight [(inp, th')]))) \<and>
    (mset (g_log g') + lines logged [(inp, th)] = mset (g_log g) + lines logged [(inp, th')]) \<and>
    (mset (counted (events (g_metrics g'))) + image_mset request_labels (lines counted_line [(inp, th)])
      = mset (counted (events (g_metrics g))) + image_mset request_labels (lines counted_line [(inp, th')])) \<and>
    (mset (durations (events (g_metrics g'))) + image_mset request_seconds (lines observed_line [(inp, th)])
      = mset (durations (events (g_metrics g))) + image_mset request_seconds (lines observed_line [(inp, th')]))"
proof -
  note defs = emit_event_def emit_def flight_def request_labels_def request_seconds_def result_label_def Let_def
  show ?thesis
  proof (cases th)
    case Entered
    then show ?thesis using assms authenticate_step_cases[of inp] by (auto simp: flight_def)
  next
    case (Allowed p res l)
    then show ?thesis using assms allowed_step_cases[of inp p res l] by (auto simp: flight_def)
  next
    case (Resolved p res)
    then show ?thesis using assms by (auto simp: defs split_beta split: sum.splits)
  qed (use assms in \<open>auto simp: defs split_beta split: if_splits\<close>)
qed

lemma moved_alike:
  fixes r :: "'a :: cancel_comm_monoid_add"
  assumes "r' + d = r + d'" and "r = l" and "l' + d = l + d'"
  shows "r' = l'"
  using assms by (metis add_right_cancel)

lemma tallied_step:
  assumes "tallied g ths" and "i < length ths" and "ths ! i = (inp, th)" and "thread_step inp th g = (th', g')"
  shows "tallied g' (ths[i := (inp, th')])"
proof -
  note upd = lines_update[OF assms(2), where y = "(inp, th')", unfolded assms(3)]
  note step = thread_step_readings[OF assms(4)]
  have size: "int (size (lines flight (ths[i := (inp, th')]))) + int (size (lines flight [(inp, th)]))
      = int (size (lines flight ths)) + int (size (lines flight [(inp, th')]))"
    using arg_cong[OF upd[of flight], of size] unfolding size_union of_nat_add[symmetric] by (rule arg_cong)
  have image: "image_mset k (lines h (ths[i := (inp, th')])) + image_mset k (lines h [(inp, th)])
      = image_mset k (lines h ths) + image_mset k (lines h [(inp, th')])" for k :: "log_line \<Rightarrow> 'k" and h
    using arg_cong[OF upd[of h], of "image_mset k"] unfolding image_mset_union .
  show ?thesis
    unfolding tallied_def
  proof (intro conjI)
    show "gauge (events (g_metrics g')) = int (size (lines flight (ths[i := (inp, th')])))"
      by (rule moved_alike[OF step[THEN conjunct1] _ size]) (use assms(1) in \<open>simp add: tallied_def\<close>)
    show "mset (g_log g') = lines logged (ths[i := (inp, th')])"
      by (rule moved_alike[OF step[THEN conjunct2, THEN conjunct1] _ upd]) (use assms(1) in \<open>simp add: tallied_def\<close>)
    show "mset (counted (events (g_metrics g'))) = image_mset request_labels (lines counted_line (ths[i := (inp, th')]))"
      by (rule moved_alike[OF step[THEN conjunct2, THEN conjunct2, THEN conjunct1] _ image])
        (use assms(1) in \<open>simp add: tallied_def\<close>)
    show "mset (durations (events (g_metrics g'))) = image_mset request_seconds (lines observed_line (ths[i := (inp, th')]))"
      by (rule moved_alike[OF step[THEN conjunct2, THEN conjunct2, THEN conjunct2] _ image])
        (use assms(1) in \<open>simp add: tallied_def\<close>)
  qed
qed

lemma reachable_tallied: "reachable f rps b s \<Longrightarrow> tallied (sy_gateway s) (sy_threads s)"
proof (induction rule: reachable.induct)
  case start
  then show ?case by (simp add: tallied_def new_gateway_def NewRouter_def init_metrics_def)
next
  case (run s s')
  from run.hyps(2) show ?case
  proof (cases rule: system_step.cases)
    case (act i inp th th' g')
    then show ?thesis using tallied_step[OF run.IH] by simp
  qed (use run.IH in \<open>simp_all add: tallied_def flight_def\<close>)
qed

lemma size_lines_flight: "size (lines flight ths) = length (filter (in_flight \<circ> snd) ths)"
  by (induction ths) (auto simp: flight_def)

text \<open>
  C12. Accounting under load: in every reachable state the in-flight gauge is the number of requests
  that have entered the handler and not left it, and log, request counter and latency histogram
  hold exactly one entry for each request that has come far enough, with its own status, result
  and latency, in whatever order the requests wrote them.
\<close>

theorem interleaved_accounting:
  assumes "reachable f rps b s"
  shows "gauge (events (g_metrics (sy_gateway s))) = int (length (filter (in_flight \<circ> snd) (sy_threads s))) \<and>
    mset (g_log (sy_gateway s)) = mset (List.map_filter logged (sy_threads s)) \<and>
    mset (counted (events (g_metrics (sy_gateway s)))) =
      mset (map (\<lambda>l. (status_label (l_status l), result_label (l_completed l)))
        (List.map_filter counted_line (sy_threads s))) \<and>
    mset (durations (events (g_metrics (sy_gateway s)))) =
      mset (map (\<lambda>l. Seconds f64 (l_latency l)) (List.map_filter observed_line (sy_threads s)))"
  using reachable_tallied[OF assms] unfolding tallied_def size_lines_flight
  by (simp add: lines_def request_labels_def[abs_def] request_seconds_def[abs_def])

theorem interleaved_accounting_witness:
  "gauge (events (g_metrics (sy_gateway sample_system))) =
     int (length (filter (in_flight \<circ> snd) (sy_threads sample_system)))"
  using interleaved_accounting[OF sample_reachable] by blast

section \<open>What is allocated\<close>

fun labels_held :: "metrics \<Rightarrow> thread \<Rightarrow> bool" where
  "labels_held m (Resolved p res) = (case res of Inl _ \<Rightarrow> True | Inr b \<Rightarrow> CHR ''/'' \<notin> set (b_namespace b))"
| "labels_held m (Labelled p res l) = (\<forall>t. label_sane m (fst l, snd l, observedEndpoint t))"
| "labels_held m (Allowed p res l) = (\<forall>t. label_sane m (fst l, snd l, observedEndpoint t))"
| "labels_held m (Denied p res l) = (\<forall>t. label_sane m (fst l, snd l, observedEndpoint t))"
| "labels_held m (DeniedAs p res l label) = ((\<forall>t. label_sane m (fst l, snd l, observedEndpoint t)) \<and>
     (label = ''_overflow'' \<or> label \<in> set (bl_values (agentMetricLabels m))))"
| "labels_held m (Answered a) = label_sane m (a_labels a)"
| "labels_held m (Logged a) = label_sane m (a_labels a)"
| "labels_held m (Counted a) = label_sane m (a_labels a)"
| "labels_held m (Observed a) = label_sane m (a_labels a)"
| "labels_held m th = True"

lemma labels_held_grow: "labels_grow m m' \<Longrightarrow> labels_held m th \<Longrightarrow> labels_held m' th"
  using label_sane_grow[of m m'] by (cases th) (auto simp: labels_grow_def)

lemma labels_grow_refl [simp]: "labels_grow m m" "labels_grow m (emit es m)"
  by (simp_all add: labels_grow_def) (simp_all add: emit_def)

lemma labels_held_emit [simp]: "labels_held (emit es m) = labels_held m"
proof
  fix th
  show "labels_held (emit es m) th = labels_held m th"
    by (cases th) (simp_all, simp add: emit_def)
qed

lemma emit_event_metrics [simp]: "g_metrics (emit_event ev g) = emit [ev] (g_metrics g)"
  by (simp add: emit_event_def)

lemma gateway_ok_emit:
  "gateway_ok g \<Longrightarrow> event_sane (g_metrics g) ev \<Longrightarrow> gateway_ok (emit_event ev g)"
  by (simp add: gateway_ok_def emit_event_def metrics_ok_emit)

lemma authenticate_step_labels: "labels_held m (authenticate_step inp)"
  by (auto simp: authenticate_step_def label_sane_def observedEndpoint_def Let_def split_beta)

lemma allowed_step_labels:
  "\<forall>t. label_sane m (fst l, snd l, observedEndpoint t) \<Longrightarrow> labels_held m (allowed_step inp p res l)"
  by (auto simp: allowed_step_def answer_of_def Let_def split_beta split: sum.splits)

lemma thread_step_ok:
  assumes "gateway_ok g" and "labels_held (g_metrics g) th" and "thread_step inp th g = (th', g')"
  shows "gateway_ok g' \<and> labels_held (g_metrics g') th' \<and> labels_grow (g_metrics g) (g_metrics g')"
proof (cases th)
  case Entered
  then show ?thesis using assms by (auto simp: authenticate_step_labels)
next
  case (Authenticated p)
  obtain ns server tool ok where path: "parsePath (r_path (in_req inp)) = (ns, server, tool, ok)"
    by (metis prod_cases4)
  have "labels_held (g_metrics g) (Resolved p (Resolve (g_registry g) ns server))"
  proof (cases "Resolve (g_registry g) ns server")
    case (Inr b)
    then obtain k where "(k, b) \<in> set (backends (g_registry g))"
      using Resolve_backend assms(1) unfolding gateway_ok_def by metis
    with Inr assms(1) show ?thesis by (auto simp: gateway_ok_def)
  qed simp
  then show ?thesis using Authenticated assms path by auto
next
  case (Resolved p res)
  show ?thesis
  proof (cases res)
    case (Inl err)
    then show ?thesis using Resolved assms by (auto simp: label_sane_def observedEndpoint_def)
  next
    case (Inr b)
    obtain mns mserver m where obs: "observedServer b (g_metrics g) = ((mns, mserver), m)" by (metis surj_pair)
    have "metrics_ok (g_metrics g)" "CHR ''/'' \<notin> set (b_namespace b)"
      using assms(1,2) Resolved Inr by (simp_all add: gateway_ok_def)
    from observedServer_ok[OF this obs] show ?thesis
      using Resolved Inr obs assms by (auto simp: gateway_ok_def)
  qed
next
  case (Labelled p res l)
  obtain allowed lim where allow: "allowAt f64 (g_limiter g) p (e_allow (in_env inp)) = (allowed, lim)" by fastforce
  then have "limiter_ok f64 lim"
    using f64.limiter_ok_allowAt[of "g_limiter g" p "e_allow (in_env inp)"] assms(1) by (simp add: gateway_ok_def)
  then show ?thesis using Labelled allow assms by (auto simp: gateway_ok_def)
next
  case (Denied p res l)
  obtain ok ls where adm: "admit (agentMetricLabels (g_metrics g)) p = (ok, ls)" by fastforce
  let ?m = "(g_metrics g)\<lparr>agentMetricLabels := ls\<rparr>"
  have m: "metrics_ok (g_metrics g)" using assms(1) by (simp add: gateway_ok_def)
  have ls: "labels_ok 128 ls"
    using labels_ok_admit[of 128 "agentMetricLabels (g_metrics g)" p] m adm by (simp add: metrics_ok_def)
  have grow: "labels_grow (g_metrics g) ?m" and new: "ok \<Longrightarrow> p \<in> set (bl_values ls)"
    using adm by (auto simp: labels_grow_def admit_def split: if_splits)
  have "metrics_ok ?m"
    by (rule metrics_ok_grow[OF m grow]) (use ls m in \<open>simp_all add: metrics_ok_def\<close>)
  moreover have "\<forall>t. label_sane ?m (fst l, snd l, observedEndpoint t)"
    using label_sane_grow[OF grow] assms(2) Denied by simp
  ultimately show ?thesis using Denied adm grow new assms by (auto simp: gateway_ok_def)
next
  case (DeniedAs p res l label)
  have "\<forall>t. label_sane (g_metrics g) (fst l, snd l, observedEndpoint t)" "event_sane (g_metrics g) (RateLimitedInc label)"
    using assms(2) DeniedAs by auto
  with DeniedAs assms(1,3) show ?thesis
    by (auto simp: gateway_ok_emit answer_of_def Let_def split_beta)
next
  case (Allowed p res l)
  then show ?thesis using assms by (auto simp: allowed_step_labels)
next
  case (Answered a)
  then show ?thesis using assms by (auto simp: gateway_ok_def)
next
  case (Logged a)
  obtain ns server endpoint where l: "a_labels a = (ns, server, endpoint)" by (metis prod_cases3)
  show ?thesis using assms Logged by (auto simp: l gateway_ok_emit status_label_in)
next
  case (Counted a)
  obtain ns server endpoint where l: "a_labels a = (ns, server, endpoint)" by (metis prod_cases3)
  show ?thesis using assms Counted by (auto simp: l gateway_ok_emit)
qed (use assms in \<open>auto simp: gateway_ok_emit\<close>)

lemma reachable_ok:
  assumes "0 < rps" and "0 \<le> b"
  shows "reachable f rps b s \<Longrightarrow> \<forall>p \<in> set (sy_polls s). plain_poll p \<Longrightarrow>
    gateway_ok (sy_gateway s) \<and> (\<forall>(inp, th) \<in> set (sy_threads s). labels_held (g_metrics (sy_gateway s)) th)"
proof (induction rule: reachable.induct)
  case start
  then show ?case using new_gateway_ok[OF assms] by simp
next
  case (run s s')
  from run.hyps(2) show ?case
  proof (cases rule: system_step.cases)
    case (poll p)
    with run have ok: "gateway_ok (sy_gateway s)" "plain_poll p"
      "\<forall>(inp, th) \<in> set (sy_threads s). labels_held (g_metrics (sy_gateway s)) th" by simp_all
    then show ?thesis
      using poll refresh_plain[of p "g_registry (sy_gateway s)" f] registry_ok_refresh[of "g_registry (sy_gateway s)" f p]
      by (simp add: gateway_ok_def)
  next
    case (arrive inp)
    then show ?thesis using run by auto
  next
    case (act i inp th th' g')
    with run have ok: "gateway_ok (sy_gateway s)"
      "\<forall>(inp, th) \<in> set (sy_threads s). labels_held (g_metrics (sy_gateway s)) th" by simp_all
    moreover have "(inp, th) \<in> set (sy_threads s)" using act(2,3) nth_mem by metis
    ultimately have step: "gateway_ok g' \<and> labels_held (g_metrics g') th' \<and>
        labels_grow (g_metrics (sy_gateway s)) (g_metrics g')"
      using thread_step_ok[OF ok(1) _ act(4)] by blast
    then have "\<forall>(inp, th) \<in> set (sy_threads s). labels_held (g_metrics g') th"
      using ok(2) labels_held_grow by blast
    then have "\<forall>(inp, th) \<in> set ((sy_threads s)[i := (inp, th')]). labels_held (g_metrics g') th"
      by (rule thread_updated) (use step in simp)
    with step act(1) show ?thesis by simp
  qed
qed

lemma thread_step_cap: "maxAgents (g_limiter (snd (thread_step inp th g))) = maxAgents (g_limiter g)"
  by (cases th) (auto simp: emit_event_def Let_def split_beta split: sum.splits)

lemma reachable_cap: "reachable f rps b s \<Longrightarrow> maxAgents (g_limiter (sy_gateway s)) = maxLimiterAgents"
proof (induction rule: reachable.induct)
  case (run s s')
  from run.hyps(2) show ?case
  proof (cases rule: system_step.cases)
    case (act i inp th th' g')
    then show ?thesis using thread_step_cap[of inp th "sy_gateway s"] run.IH by simp
  qed (simp_all add: run.IH)
qed (simp add: new_gateway_def NewRouter_def NewAgentLimiter_def)

text \<open>
  C13. Memory is bounded under load: in every reachable state, also between the lookup of a
  label and its use, the gateway has allocated at most \<open>259 * 2 * 21 * 2\<close> request counters,
  \<open>259 * 2\<close> duration histograms and 129 rate-limit counters, and at most 10000 buckets.
\<close>

theorem interleaved_memory_bounded:
  assumes "0 < rps" and "0 \<le> b" and "reachable f rps b s" and "\<forall>p \<in> set (sy_polls s). plain_poll p"
  shows "card (request_series (events (g_metrics (sy_gateway s)))) \<le> 259 * 2 * 21 * 2 \<and>
    card (duration_series (events (g_metrics (sy_gateway s)))) \<le> 259 * 2 \<and>
    card (agent_series (events (g_metrics (sy_gateway s)))) \<le> 129 \<and>
    length (buckets (g_limiter (sy_gateway s))) \<le> 10000"
proof -
  have "metrics_ok (g_metrics (sy_gateway s))" "limiter_ok f64 (g_limiter (sy_gateway s))"
    using reachable_ok[OF assms(1,2,3,4)] by (simp_all add: gateway_ok_def)
  moreover from this(2) have "length (buckets (g_limiter (sy_gateway s))) \<le> 10000"
    by (simp add: limiter_ok_def reachable_cap[OF assms(3)] maxLimiterAgents_def)
  ultimately show ?thesis using series_card by blast
qed

theorem interleaved_memory_bounded_witness:
  "card (agent_series (events (g_metrics (sy_gateway sample_system)))) \<le> 129"
  using interleaved_memory_bounded[OF _ _ sample_reachable]
  by (simp add: sample_system_def plain_poll_def sample_poll_def sample_server_def)

end
