(* ===== verification/InterleavedLimit.thy ===== *)
theory InterleavedLimit
  imports Interleaving LimiterClock
begin

text \<open>
  The rate limit of the running gateway: the limiter's calls come from concurrent requests,
  whose clock readings reach the lock in any order. A run of the gateway has a log of the
  limiter's calls, in the order in which they took the lock; the limiter's state is the one that
  this log leads to, and what was forwarded was granted in it.
\<close>

section \<open>Counting requests\<close>

definition how_many :: "(gw_input \<times> thread \<Rightarrow> bool) \<Rightarrow> (gw_input \<times> thread) list \<Rightarrow> nat" where
  "how_many P ths = length (filter P ths)"

lemma how_many_update:
  assumes "i < length ths" and "ths ! i = x"
  shows "how_many P (ths[i := y]) + (if P x then 1 else 0) = how_many P ths + (if P y then 1 else 0)"
  using assms
proof (induction ths arbitrary: i)
  case (Cons z ths)
  then show ?case by (cases i) (auto simp: how_many_def)
qed simp

lemma how_many_snoc [simp]: "how_many P (ths @ [x]) = how_many P ths + (if P x then 1 else 0)"
  by (simp add: how_many_def)

lemma how_many_le: "how_many P ths \<le> length ths"
  by (simp add: how_many_def)

text \<open>A request that holds a grant of the agent, or has been forwarded with one.\<close>

definition forwarded_as :: "string \<Rightarrow> thread \<Rightarrow> bool" where
  "forwarded_as p th \<longleftrightarrow> (case outcome th of None \<Rightarrow> False | Some a \<Rightarrow> a_agent a = p \<and> a_out a \<noteq> None)"

definition spends :: "string \<Rightarrow> gw_input \<times> thread \<Rightarrow> bool" where
  "spends p x \<longleftrightarrow> (case snd x of Allowed q _ _ \<Rightarrow> q = p | th \<Rightarrow> forwarded_as p th)"

section \<open>The run behind the limiter\<close>

lemma run_calls_snoc:
  "fst (run_calls fl l (cs @ [(a, t)])) = fst (run_calls fl l cs) @ [fst (allowAt fl (snd (run_calls fl l cs)) a t)]"
  "snd (run_calls fl l (cs @ [(a, t)])) = snd (allowAt fl (snd (run_calls fl l cs)) a t)"
  by (induction cs arbitrary: l) (auto simp: run_calls_Cons)

lemma length_run_calls: "length (fst (run_calls fl l cs)) = length cs"
  by (induction cs arbitrary: l) (auto simp: run_calls_Cons)

lemma granted_in_snoc:
  "length oks = length cs \<Longrightarrow> granted_in a t0 t1 (cs @ [(a', t)]) (oks @ [ok]) =
     granted_in a t0 t1 cs oks + (if a' = a \<and> t0 \<le> t \<and> t \<le> t1 \<and> ok then 1 else 0)"
  by (simp add: granted_in_def)

text \<open>
  The calls of the limiter in one step of the system: of a request whose step leaves
  \<open>Labelled\<close>, under its principal and with its reading of the clock.
\<close>

fun lock_taken :: "gw_input \<Rightarrow> thread \<Rightarrow> thread \<Rightarrow> (string \<times> time) list" where
  "lock_taken inp (Labelled q res l) th' = (if th' = Labelled q res l then [] else [(q, e_allow (in_env inp))])"
| "lock_taken inp th th' = []"

definition limiter_calls :: "gw_system \<Rightarrow> gw_system \<Rightarrow> (string \<times> time) list" where
  "limiter_calls s s' =
     concat (map (\<lambda>(x, y). lock_taken (fst x) (snd x) (snd y)) (zip (sy_threads s) (sy_threads s')))"

text \<open>The reachable states with the log of the limiter's calls.\<close>

inductive logged_run :: "condition_finder \<Rightarrow> real \<Rightarrow> int \<Rightarrow> gw_system \<Rightarrow> (string \<times> time) list \<Rightarrow> bool" for f rps b where
  start: "logged_run f rps b \<lparr>sy_gateway = new_gateway rps b, sy_polls = [], sy_threads = []\<rparr> []"
| run: "logged_run f rps b s cs \<Longrightarrow> system_step f s s' \<Longrightarrow> logged_run f rps b s' (cs @ limiter_calls s s')"

lemma reachable_logged: "reachable f rps b s \<longleftrightarrow> (\<exists>cs. logged_run f rps b s cs)"
proof
  show "reachable f rps b s \<Longrightarrow> \<exists>cs. logged_run f rps b s cs"
    by (induction rule: reachable.induct) (blast intro: logged_run.intros)+
  have "logged_run f rps b s cs \<Longrightarrow> reachable f rps b s" for cs
    by (induction rule: logged_run.induct) (blast intro: reachable.intros)+
  then show "\<exists>cs. logged_run f rps b s cs \<Longrightarrow> reachable f rps b s" by blast
qed

text \<open>A request that holds or has used a grant of \<open>p\<close> for a reading in the window.\<close>

definition spends_in :: "string \<Rightarrow> time \<Rightarrow> time \<Rightarrow> gw_input \<times> thread \<Rightarrow> bool" where
  "spends_in p t0 t1 x \<longleftrightarrow> spends p x \<and> t0 \<le> e_allow (in_env (fst x)) \<and> e_allow (in_env (fst x)) \<le> t1"

definition limiter_run :: "real \<Rightarrow> int \<Rightarrow> string \<Rightarrow> time \<Rightarrow> time \<Rightarrow> gw_system \<Rightarrow> (string \<times> time) list \<Rightarrow> bool" where
  "limiter_run rps b p t0 t1 s cs \<longleftrightarrow>
     g_limiter (sy_gateway s) = snd (run_calls f64 (NewAgentLimiter f64 rps b) cs) \<and>
     how_many (spends_in p t0 t1) (sy_threads s)
       \<le> granted_in p t0 t1 cs (fst (run_calls f64 (NewAgentLimiter f64 rps b) cs))"

text \<open>Only the step from \<open>Labelled\<close> calls the limiter; no other step wins a grant.\<close>

lemma thread_step_limiter:
  "(\<nexists>p res l. th = Labelled p res l) \<Longrightarrow> g_limiter (snd (thread_step inp th g)) = g_limiter g"
  by (cases th) (auto simp: emit_event_def Let_def split_beta split: sum.splits)

lemma spends_simps [simp]:
  "spends p (inp, Arrived) = False" "spends p (inp, Entered) = False" "spends p (inp, Authenticated q) = False"
  "spends p (inp, Resolved q res) = False" "spends p (inp, Labelled q res l) = False"
  "spends p (inp, Allowed q res l) = (q = p)" "spends p (inp, Denied q res l) = False"
  "spends p (inp, DeniedAs q res l label) = False"
  "spends p (inp, Answered a) = (a_agent a = p \<and> a_out a \<noteq> None)" "spends p (inp, Logged a) = (a_agent a = p \<and> a_out a \<noteq> None)"
  "spends p (inp, Counted a) = (a_agent a = p \<and> a_out a \<noteq> None)" "spends p (inp, Observed a) = (a_agent a = p \<and> a_out a \<noteq> None)"
  "spends p (inp, Departed a) = (a_agent a = p \<and> a_out a \<noteq> None)"
  by (simp_all add: spends_def forwarded_as_def)

lemma forwarded_spends: "forwarded_as p th \<Longrightarrow> spends p (inp, th)"
  by (cases th) (auto simp: forwarded_as_def)

lemma filter_weaker: "(\<And>x. P x \<Longrightarrow> Q x) \<Longrightarrow> length (filter P xs) \<le> length (filter Q xs)"
  by (induction xs) auto

lemma spends_authenticate: "\<not> spends p (inp, authenticate_step inp)"
  by (auto simp: authenticate_step_def Let_def split_beta)

lemma spends_allowed: "spends p (inp, allowed_step inp q res l) \<Longrightarrow> q = p"
  by (auto simp: allowed_step_def answer_of_def Let_def split_beta split: sum.splits if_splits)

lemma spends_step:
  "(\<nexists>q res l. th = Labelled q res l) \<Longrightarrow> spends p (inp, fst (thread_step inp th g)) \<Longrightarrow> spends p (inp, th)"
  using spends_authenticate[of p inp] spends_allowed[of p inp]
  by (cases th) (auto simp: answer_of_def Let_def split_beta split: sum.splits)

lemma lock_taken_same [simp]: "lock_taken inp th th = []"
  by (cases th) simp_all

lemma no_limiter_calls:
  assumes "sy_threads s' = sy_threads s @ ths"
  shows "limiter_calls s s' = []"
proof -
  have "concat (map (\<lambda>(x, y). lock_taken (fst x) (snd x) (snd y)) (zip xs (xs @ ys))) = []" for xs ys
    by (induction xs) simp_all
  with assms show ?thesis by (simp add: limiter_calls_def)
qed

lemma limiter_calls_act:
  assumes "i < length (sy_threads s)" and "sy_threads s ! i = (inp, th)"
    and "sy_threads s' = (sy_threads s)[i := (inp, th')]"
  shows "limiter_calls s s' = lock_taken inp th th'"
proof -
  let ?h = "\<lambda>(x, y). lock_taken (fst x) (snd x) (snd y)"
  have same: "concat (map ?h (zip xs xs)) = []" for xs :: "(gw_input \<times> thread) list" by (induction xs) simp_all
  have "concat (map ?h (zip xs (xs[i := (inp, th')]))) = lock_taken inp th th'"
    if "i < length xs" "xs ! i = (inp, th)" for i xs
    using that
  proof (induction xs arbitrary: i)
    case (Cons x xs)
    with same[of xs] show ?case by (cases i) simp_all
  qed simp
  with assms show ?thesis by (simp add: limiter_calls_def)
qed

lemma limiter_run_act:
  assumes "limiter_run rps b p t0 t1 s cs" and "i < length (sy_threads s)" and "sy_threads s ! i = (inp, th)"
    and "thread_step inp th (sy_gateway s) = (th', g')"
    and "s' = s\<lparr>sy_gateway := g', sy_threads := (sy_threads s)[i := (inp, th')]\<rparr>"
  shows "limiter_run rps b p t0 t1 s' (cs @ limiter_calls s s')"
proof -
  let ?ths = "sy_threads s"
  have th': "th' = fst (thread_step inp th (sy_gateway s))" and g': "g' = snd (thread_step inp th (sy_gateway s))"
    using assms(4) by simp_all
  note spent = how_many_update[OF assms(2,3), of "spends_in p t0 t1" "(inp, th')"]
  have calls: "limiter_calls s s' = lock_taken inp th th'"
    using limiter_calls_act[OF assms(2,3)] assms(5) by simp
  show ?thesis
  proof (cases "\<exists>q res l. th = Labelled q res l")
    case False
    then have "g_limiter g' = g_limiter (sy_gateway s)" using g' by (simp add: thread_step_limiter)
    moreover have "how_many (spends_in p t0 t1) (?ths[i := (inp, th')]) \<le> how_many (spends_in p t0 t1) ?ths"
      using spent spends_step[OF False, of p inp "sy_gateway s"] th' by (auto simp: spends_in_def split: if_splits)
    moreover have "limiter_calls s s' = []" using False calls by (cases th) auto
    ultimately show ?thesis using assms(1) by (simp add: limiter_run_def assms(5))
  next
    case True
    then obtain q res l where th: "th = Labelled q res l" by blast
    let ?t = "e_allow (in_env inp)" and ?l = "g_limiter (sy_gateway s)"
    have step: "th' = (if fst (allowAt f64 ?l q ?t) then Allowed q res l else Denied q res l)"
      "g_limiter g' = snd (allowAt f64 ?l q ?t)"
      using th' g' by (simp_all add: th split_beta)
    have cs': "limiter_calls s s' = [(q, ?t)]" using calls step(1) by (simp add: th)
    have l: "snd (run_calls f64 (NewAgentLimiter f64 rps b) cs) = ?l" using assms(1) by (simp add: limiter_run_def)
    have "how_many (spends_in p t0 t1) (?ths[i := (inp, th')])
        \<le> granted_in p t0 t1 (cs @ [(q, ?t)]) (fst (run_calls f64 (NewAgentLimiter f64 rps b) (cs @ [(q, ?t)])))"
      using spent assms(1) step
      by (auto simp: th run_calls_snoc l granted_in_snoc length_run_calls limiter_run_def spends_in_def split: if_splits)
    then show ?thesis unfolding cs' using step(2) by (simp add: limiter_run_def run_calls_snoc l assms(5))
  qed
qed

lemma logged_limiter_run: "logged_run f rps b s cs \<Longrightarrow> limiter_run rps b p t0 t1 s cs"
proof (induction rule: logged_run.induct)
  case start
  show ?case by (simp add: limiter_run_def how_many_def new_gateway_def NewRouter_def)
next
  case (run s cs s')
  from run.hyps(2) show ?case
  proof (cases rule: system_step.cases)
    case (poll q)
    with no_limiter_calls[of s' s "[]"] run.IH show ?thesis by (simp add: limiter_run_def)
  next
    case (arrive inp)
    with no_limiter_calls[of s' s "[(inp, Arrived)]"] run.IH
    show ?thesis by (auto simp: limiter_run_def spends_in_def)
  next
    case (act i inp th th' g')
    from limiter_run_act[OF run.IH act(2-4) act(1)] show ?thesis .
  qed
qed

section \<open>The limit\<close>

text \<open>
  C10. The rate limit of the gateway, for any window of any run: of the requests whose clock readings
  lie between \<open>t0\<close> and \<open>t1\<close> the gateway forwards for one verified principal at most the burst plus
  the rate times the length of the window, up to rounding, whatever the principal and all others
  did before the window and do after it, and however the calls interleave. The run is any run of
  requests and polls, with \<open>cs\<close> the log of its calls of the limiter (every reachable state has one,
  \<open>reachable_logged\<close>). It is assumed that the clock does not go back and that a call waits at most
  \<open>D\<close> for the lock after its reading (\<open>prompt\<close>, see \<open>prompt_lock_times\<close>), and that no bucket
  can be evicted and come back full inside the window: the window with \<open>D\<close> on both sides is shorter
  than the idle time of fifteen minutes, or the calls are of at most 10000 principals. The
  rounding is at most \<open>2^-50\<close> of the tokens of the widened window for each call of the principal in it.
\<close>

theorem interleaved_rate_limited:
  assumes "0 < rps" and "0 \<le> b" and "logged_run f rps b s cs" and "prompt D cs" and "0 \<le> D" and "t0 \<le> t1"
    and "t1 - t0 + 2 * D \<le> max_duration" and "calls_in p (t0 - D) (t1 + D) cs \<le> 2 ^ 50"
    and "t1 - t0 + 2 * D < 15 * 60 * second \<or> card (fst ` set cs) \<le> 10000"
  shows "real (length (filter (\<lambda>(inp, th). forwarded_as p th \<and> t0 \<le> e_allow (in_env inp) \<and> e_allow (in_env inp) \<le> t1)
      (sy_threads s)))
    \<le> f64 (of_int b) + rps * (real_of_int (t1 - t0) / real_of_int second)
      + (f64 (of_int b) + rps * (real_of_int (t1 - t0 + 2 * D) / real_of_int second))
        * (real (calls_in p (t0 - D) (t1 + D) cs) / 2 ^ 50)"
proof -
  let ?l = "NewAgentLimiter f64 rps b"
  have run: "limiter_run rps b p t0 t1 s cs" by (rule logged_limiter_run[OF assms(3)])
  have "t1 - t0 + 2 * D < idleTTL ?l \<or> buckets ?l = [] \<and> int (card (fst ` set cs)) \<le> maxAgents ?l"
    using assms(9) by (auto simp: NewAgentLimiter_def maxLimiterAgents_def)
  from window_grants_f64[OF New_ok[OF assms(1,2)] assms(4-8) this]
  have "real (granted_in p t0 t1 cs (fst (run_calls f64 ?l cs)))
    \<le> f64 (of_int b) + rps * (real_of_int (t1 - t0) / real_of_int second)
      + (f64 (of_int b) + rps * (real_of_int (t1 - t0 + 2 * D) / real_of_int second))
        * (real (calls_in p (t0 - D) (t1 + D) cs) / 2 ^ 50)"
    by (simp add: NewAgentLimiter_def)
  moreover have "length (filter (\<lambda>(inp, th). forwarded_as p th \<and> t0 \<le> e_allow (in_env inp) \<and> e_allow (in_env inp) \<le> t1)
      (sy_threads s)) \<le> how_many (spends_in p t0 t1) (sy_threads s)"
    unfolding how_many_def by (rule filter_weaker) (auto simp: spends_in_def forwarded_spends)
  ultimately show ?thesis using run by (simp add: limiter_run_def)
qed

text \<open>A run in which two requests are served one after the other, an hour apart.\<close>

lemma logged_alone:
  "logged_run f rps b s cs \<Longrightarrow> sy_threads s = ths @ [(inp, th)] \<Longrightarrow>
     \<exists>cs'. logged_run f rps b (s\<lparr>sy_gateway := snd (run_alone inp n (th, sy_gateway s)),
         sy_threads := ths @ [(inp, fst (run_alone inp n (th, sy_gateway s)))]\<rparr>) (cs @ cs') \<and>
       length cs' \<le> n \<and> (\<forall>c \<in> set cs'. snd c = e_allow (in_env inp))"
proof (induction n arbitrary: s th cs)
  case 0
  then show ?case by (cases s) (auto intro: exI[of _ "[]"])
next
  case (Suc n)
  obtain th' g' where step: "thread_step inp th (sy_gateway s) = (th', g')" by fastforce
  let ?s = "s\<lparr>sy_gateway := g', sy_threads := (sy_threads s)[length ths := (inp, th')]\<rparr>"
  have "system_step f s ?s" by (rule system_step.act) (use Suc.prems step in auto)
  from logged_run.run[OF Suc.prems(1) this]
  have run: "logged_run f rps b ?s (cs @ limiter_calls s ?s)" .
  have calls: "limiter_calls s ?s = lock_taken inp th th'"
    by (rule limiter_calls_act[of "length ths"]) (use Suc.prems in auto)
  have "sy_threads ?s = ths @ [(inp, th')]" using Suc.prems by simp
  from Suc.IH[OF run this] obtain cs' where cs': "logged_run f rps b
      (?s\<lparr>sy_gateway := snd (run_alone inp n (th', g')), sy_threads := ths @ [(inp, fst (run_alone inp n (th', g')))]\<rparr>)
      ((cs @ limiter_calls s ?s) @ cs')" "length cs' \<le> n" "\<forall>c \<in> set cs'. snd c = e_allow (in_env inp)"
    by auto
  have "length (lock_taken inp th th') \<le> 1" "\<forall>c \<in> set (lock_taken inp th th'). snd c = e_allow (in_env inp)"
    by (cases th; simp)+
  with cs' show ?case
    by (intro exI[of _ "limiter_calls s ?s @ cs'"]) (auto simp: step calls)
qed

definition late_input :: gw_input where
  "late_input = sample_input\<lparr>in_env := sample_env\<lparr>e_allow := 3600 * second\<rparr>\<rparr>"

lemma two_requests:
  "\<exists>s cs. logged_run first_condition 5 10 s cs \<and> prompt 0 cs \<and> length cs \<le> 22 \<and>
     (\<exists>a a'. sy_threads s = [(sample_input, Departed a), (late_input, Departed a')])"
proof -
  let ?s0 = "\<lparr>sy_gateway = new_gateway 5 10, sy_polls = [], sy_threads = []\<rparr>"
  let ?s1 = "?s0\<lparr>sy_threads := [(sample_input, Arrived)]\<rparr>"
  have "system_step first_condition ?s0 ?s1" using system_step.arrive[of first_condition ?s0 sample_input] by simp
  from logged_run.run[OF logged_run.start this] no_limiter_calls[of ?s1 ?s0 "[(sample_input, Arrived)]"]
  have "logged_run first_condition 5 10 ?s1 []" by simp
  from logged_alone[OF this, of "[]" sample_input Arrived 11] obtain g1 cs1 where
    1: "logged_run first_condition 5 10 (?s1\<lparr>sy_gateway := g1,
        sy_threads := [(sample_input, fst (run_alone sample_input 11 (Arrived, sy_gateway ?s1)))]\<rparr>) cs1"
      "length cs1 \<le> 11" "\<forall>c \<in> set cs1. snd c = 6"
    by (auto simp: sample_input_def sample_env_def)
  obtain a where a: "fst (run_alone sample_input 11 (Arrived, sy_gateway ?s1)) = Departed a"
    using alone_handled[of sample_input "sy_gateway ?s1"] by auto
  let ?s2 = "?s1\<lparr>sy_gateway := g1, sy_threads := [(sample_input, Departed a)]\<rparr>"
  let ?s3 = "?s2\<lparr>sy_threads := sy_threads ?s2 @ [(late_input, Arrived)]\<rparr>"
  from logged_run.run[OF 1(1)[unfolded a] system_step.arrive, of late_input]
    no_limiter_calls[of ?s3 ?s2 "[(late_input, Arrived)]"]
  have "logged_run first_condition 5 10 ?s3 cs1" by simp
  from logged_alone[OF this, of "[(sample_input, Departed a)]" late_input Arrived 11] obtain g2 cs2 where
    2: "logged_run first_condition 5 10 (?s3\<lparr>sy_gateway := g2,
        sy_threads := [(sample_input, Departed a), (late_input, fst (run_alone late_input 11 (Arrived, g1)))]\<rparr>) (cs1 @ cs2)"
      "length cs2 \<le> 11" "\<forall>c \<in> set cs2. snd c = 3600 * second"
    by (auto simp: late_input_def)
  obtain a' where a': "fst (run_alone late_input 11 (Arrived, g1)) = Departed a'"
    using alone_handled[of late_input g1] by auto
  have "prompt 0 (cs1 @ cs2)"
    using 1(3) 2(3) by (auto simp: prompt_def sorted_wrt_append second_def intro!: sorted_wrt_iff_nth_less[THEN iffD2])
  with 1(2) 2(1,2) a' show ?thesis by (intro exI[of _ "cs1 @ cs2"] exI) auto
qed

theorem interleaved_rate_limited_witness:
  "\<exists>s cs. logged_run first_condition 5 10 s cs \<and> prompt 0 cs \<and>
     map (e_allow \<circ> in_env \<circ> fst) (sy_threads s) = [6, 3600 * second] \<and>
     length (filter (\<lambda>(inp, th). forwarded_as ''system:serviceaccount:team:agent'' th \<and>
       6 \<le> e_allow (in_env inp) \<and> e_allow (in_env inp) \<le> 6) (sy_threads s)) \<le> 10"
proof -
  obtain s cs a a' where s: "logged_run first_condition 5 10 s cs" "prompt 0 cs" "length cs \<le> 22"
    "sy_threads s = [(sample_input, Departed a), (late_input, Departed a')]" using two_requests by blast
  let ?p = "''system:serviceaccount:team:agent''"
  let ?n = "length (filter (\<lambda>(inp, th). forwarded_as ?p th \<and> 6 \<le> e_allow (in_env inp) \<and> e_allow (in_env inp) \<le> 6) (sy_threads s))"
  have n: "calls_in ?p 6 6 cs \<le> 22" using s(3) by (auto simp: calls_in_def intro: order_trans[OF length_filter_le])
  then have r: "real (calls_in ?p 6 6 cs) \<le> 22" by simp
  have ten: "f64 (of_int 10) = 10" by simp
  from interleaved_rate_limited[OF _ _ s(1,2), of 6 6 ?p] n
  have "real ?n \<le> 10 + 10 * (real (calls_in ?p 6 6 cs) / 2 ^ 50)"
    by (simp add: max_duration_def second_def ten)
  with r have "real ?n < 11" by simp
  then have "?n \<le> 10" by linarith
  with s show ?thesis by (intro exI[of _ s] exI[of _ cs]) (simp add: sample_input_def sample_env_def late_input_def)
qed

end
