(* ===== verification/Controller.thy ===== *)
theory Controller
  imports Registry
begin

text \<open>
  The reconciler (\<^verbatim>\<open>internal/controller/mcpserver_controller.go\<close>): the desired Deployment
  and Service of an \<^verbatim>\<open>MCPServer\<close>, the check that an existing object is its own, the
  readiness it reads off the Deployment, the status it writes, and \<open>Reconcile\<close>, which puts
  them together.

  What belongs to apimachinery, controller-runtime and the API server is the record \<open>kube\<close>:
  the get call, \<^verbatim>\<open>CreateOrUpdate\<close> for each kind, the status patch,
  \<^verbatim>\<open>SetStatusCondition\<close>, \<^verbatim>\<open>GetControllerOf\<close>,
  \<^verbatim>\<open>SetControllerReference\<close> and the semantic equality. What is relied on of them is
  stated by the predicates named \<open>..._law\<close>. Fields of a Kubernetes object that the code
  neither reads nor writes are one opaque string.
\<close>

section \<open>Kubernetes objects\<close>

record OwnerReference =
  or_api_version :: string
  or_kind :: string
  or_name :: string
  or_uid :: string
  or_controller :: bool

record ObjectMeta =
  om_namespace :: string
  om_name :: string
  om_resource_version :: string
  om_generation :: int64
  om_deletion :: "time option"
  om_owners :: "OwnerReference list"

record ProbeHandler =
  ph_tcp_port :: "int32 option"
  ph_other :: string

record Probe =
  pr_handler :: ProbeHandler
  pr_other :: string

record Container =
  ct_name :: string
  ct_image :: string
  ct_ports :: "(int32 \<times> string) list"
  ct_probe :: "Probe option"
  ct_other :: string

record DeploymentSpec =
  ds_replicas :: "int32 option"
  ds_selector :: "(string, string) gomap option"
  ds_labels :: "(string, string) gomap option"
  ds_containers :: "Container list"
  ds_other :: string

record DeploymentCondition =
  dc_type :: string
  dc_status :: string
  dc_reason :: string
  dc_message :: string

record DeploymentStatus =
  dst_observed :: int64
  dst_replicas :: int32
  dst_updated :: int32
  dst_ready :: int32
  dst_available :: int32
  dst_conditions :: "DeploymentCondition list"

record Deployment =
  d_meta :: ObjectMeta
  d_spec :: DeploymentSpec
  d_status :: DeploymentStatus

record ServicePort =
  sp_port :: int32
  sp_target :: int32
  sp_protocol :: string
  sp_other :: string

record Service =
  s_meta :: ObjectMeta
  s_selector :: "(string, string) gomap"
  s_ports :: "ServicePort list"
  s_other :: string

section \<open>The cluster and what it answers\<close>

record cluster =
  cl_servers :: "(NamespacedName, MCPServer) gomap"
  cl_deployments :: "(NamespacedName, Deployment) gomap"
  cl_services :: "(NamespacedName, Service) gomap"

datatype get_result = NotFound | GetFailed string | Got MCPServer

text \<open>
  A mutate function maps the object to an error or nil, the object as it leaves it, and the
  value of the variable \<^verbatim>\<open>changed\<close> it assigns; \<^verbatim>\<open>CreateOrUpdate\<close> maps a store, a
  key, the object passed and the mutate function to its error, the object afterwards, the
  value of \<^verbatim>\<open>changed\<close> and the new store.
\<close>

type_synonym 'o mutate_fn = "'o \<Rightarrow> string option \<times> 'o \<times> bool"
type_synonym 'o create_or_update =
  "(NamespacedName, 'o) gomap \<Rightarrow> NamespacedName \<Rightarrow> 'o \<Rightarrow> 'o mutate_fn
     \<Rightarrow> string option \<times> 'o \<times> bool \<times> (NamespacedName, 'o) gomap"

record kube =
  k_get :: "cluster \<Rightarrow> NamespacedName \<Rightarrow> get_result"
  k_deployments :: "Deployment create_or_update"
  k_services :: "Service create_or_update"
  k_patch_status :: "cluster \<Rightarrow> MCPServer \<Rightarrow> MCPServer \<Rightarrow> string option \<times> cluster"
  k_set_condition :: "Condition list \<Rightarrow> Condition \<Rightarrow> Condition list"
  k_controller_of :: "OwnerReference list \<Rightarrow> OwnerReference option"
  k_set_controller :: "MCPServer \<Rightarrow> ObjectMeta \<Rightarrow> string + OwnerReference list"
  k_spec_equal :: "DeploymentSpec \<Rightarrow> DeploymentSpec \<Rightarrow> bool"
  k_status_equal :: "MCPServerStatus \<Rightarrow> MCPServerStatus \<Rightarrow> bool"

section \<open>Ownership\<close>

definition GroupVersion :: string where
  "GroupVersion = ''mcp.portkeeper.dev/v1alpha1''"

definition checkOwnership :: "kube \<Rightarrow> string \<Rightarrow> MCPServer \<Rightarrow> ObjectMeta \<Rightarrow> string option" where
  "checkOwnership K kind m object =
     (if om_resource_version object = [] then None
      else
        (let owner = k_controller_of K (om_owners object);
             label = kind @ '' '' @ om_namespace object @ ''/'' @ om_name object;
             refused = Some (''refusing to mutate '' @ label @ '': not controlled by MCPServer UID '' @ m_uid m)
         in case owner of
              None \<Rightarrow> refused
            | Some r \<Rightarrow>
                if or_uid r \<noteq> m_uid m \<or> or_name r \<noteq> m_name m \<or> or_kind r \<noteq> ''MCPServer'' \<or>
                   or_api_version r \<noteq> GroupVersion then refused
                else if \<not> time_is_zero (om_deletion object)
                then Some (''cannot reconcile '' @ label @ '': resource is being deleted'')
                else None))"

section \<open>The Deployment\<close>

definition server_label :: string where
  "server_label = ''mcp.portkeeper.dev/server''"

fun container_index :: "Container list \<Rightarrow> nat option" where
  "container_index [] = None"
| "container_index (c # cs) =
     (if ct_name c = ''mcp-server'' then Some 0
      else (case container_index cs of None \<Rightarrow> None | Some i \<Rightarrow> Some (Suc i)))"

definition new_container :: Container where
  "new_container = \<lparr>ct_name = ''mcp-server'', ct_image = [], ct_ports = [], ct_probe = None, ct_other = []\<rparr>"

definition empty_probe :: Probe where
  "empty_probe = \<lparr>pr_handler = \<lparr>ph_tcp_port = None, ph_other = []\<rparr>, pr_other = []\<rparr>"

definition configure_container :: "MCPServer \<Rightarrow> Container \<Rightarrow> Container" where
  "configure_container m c =
     (let c1 = c\<lparr>ct_image := spec_image (m_spec m)\<rparr>;
          c2 = c1\<lparr>ct_ports := [(spec_port (m_spec m), ''TCP'')]\<rparr>;
          probe = (case ct_probe c2 of None \<Rightarrow> empty_probe | Some p \<Rightarrow> p)
      in c2\<lparr>ct_probe := Some (probe\<lparr>pr_handler :=
           \<lparr>ph_tcp_port = Some (spec_port (m_spec m)), ph_other = []\<rparr>\<rparr>)\<rparr>)"

definition configure_containers :: "MCPServer \<Rightarrow> Container list \<Rightarrow> Container list" where
  "configure_containers m containers =
     (let (cs, index) = (case container_index containers of
          None \<Rightarrow> (containers @ [new_container], length containers)
        | Some i \<Rightarrow> (containers, i))
      in cs[index := configure_container m (cs ! index)])"

definition desired_spec :: "MCPServer \<Rightarrow> DeploymentSpec \<Rightarrow> DeploymentSpec" where
  "desired_spec m s =
     (let s1 = s\<lparr>ds_replicas := Some 1, ds_selector := Some [(server_label, m_name m)]\<rparr>;
          labels = (case ds_labels s1 of None \<Rightarrow> [] | Some l \<Rightarrow> l);
          s2 = s1\<lparr>ds_labels := Some (AList.update server_label (m_name m) labels)\<rparr>
      in s2\<lparr>ds_containers := configure_containers m (ds_containers s2)\<rparr>)"

text \<open>The mutate function of \<^verbatim>\<open>reconcileDeployment\<close>.\<close>

definition mutate_deployment :: "kube \<Rightarrow> MCPServer \<Rightarrow> Deployment mutate_fn" where
  "mutate_deployment K m dep =
     (case checkOwnership K ''*v1.Deployment'' m (d_meta dep) of
        Some err \<Rightarrow> (Some err, dep, False)
      | None \<Rightarrow>
          (let before = d_spec dep;
               dep1 = dep\<lparr>d_spec := desired_spec m (d_spec dep)\<rparr>;
               changed = (\<not> k_spec_equal K before (d_spec dep1))
           in case k_set_controller K m (d_meta dep1) of
                Inl err \<Rightarrow> (Some err, dep1, changed)
              | Inr owners \<Rightarrow> (None, dep1\<lparr>d_meta := (d_meta dep1)\<lparr>om_owners := owners\<rparr>\<rparr>, changed)))"

definition new_meta :: "string \<Rightarrow> string \<Rightarrow> ObjectMeta" where
  "new_meta ns n = \<lparr>om_namespace = ns, om_name = n, om_resource_version = [], om_generation = 0,
     om_deletion = None, om_owners = []\<rparr>"

definition new_deployment :: "MCPServer \<Rightarrow> Deployment" where
  "new_deployment m = \<lparr>d_meta = new_meta (m_namespace m) (m_name m),
     d_spec = \<lparr>ds_replicas = None, ds_selector = None, ds_labels = None, ds_containers = [], ds_other = []\<rparr>,
     d_status = \<lparr>dst_observed = 0, dst_replicas = 0, dst_updated = 0, dst_ready = 0, dst_available = 0,
       dst_conditions = []\<rparr>\<rparr>"

definition reconcileDeployment :: "kube \<Rightarrow> MCPServer \<Rightarrow> cluster \<Rightarrow> (Deployment \<times> bool \<times> string option) \<times> cluster" where
  "reconcileDeployment K m cl =
     (let (err, dep, changed, deps) = k_deployments K (cl_deployments cl)
            (NamespacedName (m_namespace m) (m_name m)) (new_deployment m) (mutate_deployment K m)
      in ((dep, changed, err), cl\<lparr>cl_deployments := deps\<rparr>))"

section \<open>The Service\<close>

definition serviceName :: "string \<Rightarrow> string" where
  "serviceName mcpServerName = mcpServerName @ ''-svc''"

definition zero_port :: ServicePort where
  "zero_port = \<lparr>sp_port = 0, sp_target = 0, sp_protocol = [], sp_other = []\<rparr>"

definition desired_ports :: "MCPServer \<Rightarrow> ServicePort list \<Rightarrow> ServicePort list" where
  "desired_ports m ports =
     (let port = (if length ports \<noteq> 0 then ports ! 0 else zero_port)
      in [port\<lparr>sp_port := spec_port (m_spec m), sp_target := spec_port (m_spec m), sp_protocol := ''TCP''\<rparr>])"

text \<open>
  The mutate function of \<^verbatim>\<open>reconcileService\<close>; it does not assign \<^verbatim>\<open>changed\<close>.
\<close>

definition mutate_service :: "kube \<Rightarrow> MCPServer \<Rightarrow> Service mutate_fn" where
  "mutate_service K m svc =
     (case checkOwnership K ''*v1.Service'' m (s_meta svc) of
        Some err \<Rightarrow> (Some err, svc, False)
      | None \<Rightarrow>
          (let svc1 = svc\<lparr>s_selector := [(server_label, m_name m)], s_ports := desired_ports m (s_ports svc)\<rparr>
           in case k_set_controller K m (s_meta svc1) of
                Inl err \<Rightarrow> (Some err, svc1, False)
              | Inr owners \<Rightarrow> (None, svc1\<lparr>s_meta := (s_meta svc1)\<lparr>om_owners := owners\<rparr>\<rparr>, False)))"

definition new_service :: "MCPServer \<Rightarrow> Service" where
  "new_service m = \<lparr>s_meta = new_meta (m_namespace m) (serviceName (m_name m)), s_selector = [],
     s_ports = [], s_other = []\<rparr>"

definition reconcileService :: "kube \<Rightarrow> MCPServer \<Rightarrow> cluster \<Rightarrow> string option \<times> cluster" where
  "reconcileService K m cl =
     (let (err, _, _, svcs) = k_services K (cl_services cl)
            (NamespacedName (m_namespace m) (serviceName (m_name m))) (new_service m) (mutate_service K m)
      in (err, cl\<lparr>cl_services := svcs\<rparr>))"

section \<open>Readiness and status\<close>

text \<open>Phase, condition status, reason and message.\<close>

type_synonym readiness = "string \<times> string \<times> string \<times> string"

definition is_failure :: "DeploymentCondition \<Rightarrow> bool" where
  "is_failure c \<longleftrightarrow>
     dc_type c = ''Progressing'' \<and> dc_status c = ConditionFalse \<and> dc_reason c = ''ProgressDeadlineExceeded''
     \<or> dc_type c = ''ReplicaFailure'' \<and> dc_status c = ConditionTrue"

fun failure_loop :: "DeploymentCondition list \<Rightarrow> readiness option" where
  "failure_loop [] = None"
| "failure_loop (c # cs) =
     (if is_failure c then
        (let reason = (if dc_reason c = [] then dc_type c else dc_reason c)
         in Some (''Failed'', ConditionFalse, reason, dc_message c))
      else failure_loop cs)"

text \<open>\<open>None\<close> is the panic on a nil \<^verbatim>\<open>Replicas\<close>.\<close>

definition deploymentReadiness :: "Deployment \<Rightarrow> bool \<Rightarrow> readiness option" where
  "deploymentReadiness dep changed =
     (if changed \<or> dst_observed (d_status dep) \<noteq> om_generation (d_meta dep) then
        Some (''Pending'', ConditionFalse, ''Progressing'',
          ''Waiting for the Deployment controller to observe the desired workload'')
      else
        (case failure_loop (dst_conditions (d_status dep)) of
           Some r \<Rightarrow> Some r
         | None \<Rightarrow>
             (case ds_replicas (d_spec dep) of
                None \<Rightarrow> None
              | Some desired \<Rightarrow>
                  if 0 < sint desired \<and> dst_replicas (d_status dep) = desired \<and>
                     dst_updated (d_status dep) = desired \<and>
                     sint desired \<le> sint (dst_ready (d_status dep)) \<and>
                     sint desired \<le> sint (dst_available (d_status dep))
                  then Some (''Ready'', ConditionTrue, ''DeploymentAvailable'',
                    ''The desired Deployment replicas are updated, ready, and available'')
                  else Some (''Pending'', ConditionFalse, ''DeploymentUnavailable'',
                    ''Waiting for the desired Deployment replicas to be updated, ready, and available''))))"

definition set_status :: "kube \<Rightarrow> MCPServer \<Rightarrow> readiness \<Rightarrow> MCPServer" where
  "set_status K m r =
     (case r of (phase, status, reason, message) \<Rightarrow>
        m\<lparr>m_status := \<lparr>st_phase = phase, st_observed = m_generation m,
           st_conditions = k_set_condition K (st_conditions (m_status m))
             \<lparr>cond_type = MCPServerReady, cond_status = status, cond_observed = m_generation m,
              cond_reason = reason, cond_message = message\<rparr>\<rparr>\<rparr>)"

definition updateStatus :: "kube \<Rightarrow> MCPServer \<Rightarrow> readiness \<Rightarrow> cluster \<Rightarrow> string option \<times> cluster" where
  "updateStatus K before r cl =
     (let m = set_status K before r in
      if k_status_equal K (m_status before) (m_status m) then (None, cl)
      else k_patch_status K cl before m)"

section \<open>Reconcile\<close>

text \<open>\<^verbatim>\<open>errors.Join(err, other)\<close> for a non-nil \<open>err\<close>.\<close>

definition errors_Join :: "string \<Rightarrow> string option \<Rightarrow> string" where
  "errors_Join err other = (case other of None \<Rightarrow> err | Some e \<Rightarrow> err @ [CHR 0x0A] @ e)"

datatype outcome = Returned "string option" | Panicked

definition failed :: "kube \<Rightarrow> MCPServer \<Rightarrow> string \<Rightarrow> cluster \<Rightarrow> outcome \<times> cluster" where
  "failed K m err cl =
     (let (e, cl') = updateStatus K m (''Failed'', ConditionFalse, ''ReconcileError'', err) cl
      in (Returned (Some (errors_Join err e)), cl'))"

definition Reconcile :: "kube \<Rightarrow> NamespacedName \<Rightarrow> cluster \<Rightarrow> outcome \<times> cluster" where
  "Reconcile K req cl =
     (case k_get K cl req of
        NotFound \<Rightarrow> (Returned None, cl)
      | GetFailed err \<Rightarrow> (Returned (Some err), cl)
      | Got m \<Rightarrow>
          if \<not> time_is_zero (m_deletion m) then
            (let (e, cl') = updateStatus K m
                   (''Pending'', ConditionFalse, ''Deleting'', ''MCPServer is being deleted'') cl
             in (Returned e, cl'))
          else
            (let ((dep, changed, err), cl1) = reconcileDeployment K m cl in
             case err of
               Some er \<Rightarrow> failed K m er cl1
             | None \<Rightarrow>
                 (let (serr, cl2) = reconcileService K m cl1 in
                  case serr of
                    Some er \<Rightarrow> failed K m er cl2
                  | None \<Rightarrow>
                      (case deploymentReadiness dep changed of
                         None \<Rightarrow> (Panicked, cl2)
                       | Some r \<Rightarrow>
                           (let (e, cl3) = updateStatus K m r cl2 in (Returned e, cl3))))))"

section \<open>What is relied on of Kubernetes\<close>

text \<open>
  \<^verbatim>\<open>CreateOrUpdate\<close> reads the object, runs the mutate function on what it read (or on
  the object passed, when there is none), and writes the result; an error of any of the three
  is returned and leaves the store as it was. \<open>kept new out\<close> relates what was sent to what
  the server stored and returned.
\<close>

definition create_or_update_law :: "('o \<Rightarrow> 'o \<Rightarrow> bool) \<Rightarrow> 'o create_or_update \<Rightarrow> bool" where
  "create_or_update_law kept cou \<longleftrightarrow> (\<forall>st key obj f. case cou st key obj f of (err, out, changed, st') \<Rightarrow>
     (\<forall>k. k \<noteq> key \<longrightarrow> map_of st' k = map_of st k) \<and>
     (case f (case map_of st key of None \<Rightarrow> obj | Some cur \<Rightarrow> cur) of (e, new, c) \<Rightarrow>
        (err \<noteq> None \<and> \<not> changed \<and> map_of st' key = map_of st key)
        \<or> (err \<noteq> None \<and> changed = c \<and> (e \<noteq> None \<longrightarrow> err = e) \<and> map_of st' key = map_of st key)
        \<or> (err = None \<and> e = None \<and> changed = c \<and> map_of st' key = Some out \<and> kept new out)))"

text \<open>The server fills in fields that were not set, and keeps those that were.\<close>

definition container_view :: "Container \<Rightarrow> string \<times> string \<times> (int32 \<times> string) list \<times> ProbeHandler option" where
  "container_view c = (ct_name c, ct_image c, ct_ports c, map_option pr_handler (ct_probe c))"

definition kept_deployment :: "Deployment \<Rightarrow> Deployment \<Rightarrow> bool" where
  "kept_deployment d d' \<longleftrightarrow>
     ds_replicas (d_spec d') = ds_replicas (d_spec d) \<and> ds_selector (d_spec d') = ds_selector (d_spec d) \<and>
     ds_labels (d_spec d') = ds_labels (d_spec d) \<and>
     map container_view (ds_containers (d_spec d')) = map container_view (ds_containers (d_spec d))"

definition kept_service :: "Service \<Rightarrow> Service \<Rightarrow> bool" where
  "kept_service s s' \<longleftrightarrow> s_selector s' = s_selector s \<and>
     map (\<lambda>p. (sp_port p, sp_target p, sp_protocol p)) (s_ports s')
       = map (\<lambda>p. (sp_port p, sp_target p, sp_protocol p)) (s_ports s)"

text \<open>
  \<^verbatim>\<open>SetControllerReference\<close> makes the object controlled by the owner or fails, and does
  nothing to an object that already is.
\<close>

definition controlled_by :: "MCPServer \<Rightarrow> OwnerReference \<Rightarrow> bool" where
  "controlled_by m r \<longleftrightarrow> or_uid r = m_uid m \<and> or_name r = m_name m \<and> or_kind r = ''MCPServer'' \<and>
     or_api_version r = GroupVersion"

definition set_controller_law :: "kube \<Rightarrow> bool" where
  "set_controller_law K \<longleftrightarrow> (\<forall>m meta owners. k_set_controller K m meta = Inr owners \<longrightarrow>
     (\<exists>r. k_controller_of K owners = Some r \<and> controlled_by m r) \<and>
     (\<forall>meta'. om_owners meta' = owners \<longrightarrow> om_namespace meta' = om_namespace meta \<longrightarrow>
        k_set_controller K m meta' = Inr owners))"

text \<open>
  A get returns what is stored. The patch carries the resource version that was read, so it
  succeeds only on the object that was read; it writes the status.
\<close>

definition get_law :: "kube \<Rightarrow> bool" where
  "get_law K \<longleftrightarrow> (\<forall>cl req m. k_get K cl req = Got m \<longrightarrow>
     map_of (cl_servers cl) req = Some m \<and> req = NamespacedName (m_namespace m) (m_name m))"

definition patch_law :: "kube \<Rightarrow> bool" where
  "patch_law K \<longleftrightarrow> (\<forall>cl before m e cl'. k_patch_status K cl before m = (e, cl') \<longrightarrow>
     cl_deployments cl' = cl_deployments cl \<and> cl_services cl' = cl_services cl \<and>
     (e = None \<longrightarrow> map_of (cl_servers cl') (NamespacedName (m_namespace m) (m_name m)) = Some m) \<and>
     (e \<noteq> None \<longrightarrow> cl_servers cl' = cl_servers cl))"

text \<open>\<^verbatim>\<open>SetStatusCondition\<close> and \<^verbatim>\<open>FindStatusCondition\<close> are insertion and lookup.\<close>

definition condition_law :: "condition_finder \<Rightarrow> kube \<Rightarrow> bool" where
  "condition_law f K \<longleftrightarrow> (\<forall>cs c. f (k_set_condition K cs c) (cond_type c) = Some c)"

definition kube_law :: "kube \<Rightarrow> bool" where
  "kube_law K \<longleftrightarrow> create_or_update_law kept_deployment (k_deployments K) \<and>
     create_or_update_law kept_service (k_services K) \<and> get_law K \<and> patch_law K \<and>
     (\<forall>s t. k_status_equal K s t \<longleftrightarrow> s = t) \<and> (\<forall>s. k_spec_equal K s s)"

section \<open>What a workload should be\<close>

definition desired_container :: "MCPServer \<Rightarrow> Container \<Rightarrow> bool" where
  "desired_container m c \<longleftrightarrow> container_view c =
     (''mcp-server'', spec_image (m_spec m), [(spec_port (m_spec m), ''TCP'')],
      Some \<lparr>ph_tcp_port = Some (spec_port (m_spec m)), ph_other = []\<rparr>)"

definition desired_deployment :: "MCPServer \<Rightarrow> Deployment \<Rightarrow> bool" where
  "desired_deployment m d \<longleftrightarrow>
     ds_replicas (d_spec d) = Some 1 \<and> ds_selector (d_spec d) = Some [(server_label, m_name m)] \<and>
     (\<exists>l. ds_labels (d_spec d) = Some l \<and> map_of l server_label = Some (m_name m)) \<and>
     (\<exists>i. container_index (ds_containers (d_spec d)) = Some i \<and>
        desired_container m (ds_containers (d_spec d) ! i))"

definition desired_service :: "MCPServer \<Rightarrow> Service \<Rightarrow> bool" where
  "desired_service m s \<longleftrightarrow> s_selector s = [(server_label, m_name m)] \<and>
     map (\<lambda>p. (sp_port p, sp_target p, sp_protocol p)) (s_ports s)
       = [(spec_port (m_spec m), spec_port (m_spec m), ''TCP'')]"

text \<open>An object of the cluster that is not this server's, or is going away.\<close>

definition foreign :: "kube \<Rightarrow> MCPServer \<Rightarrow> ObjectMeta \<Rightarrow> bool" where
  "foreign K m object \<longleftrightarrow> om_resource_version object \<noteq> [] \<and>
     (\<not> time_is_zero (om_deletion object) \<or>
      (\<forall>r. k_controller_of K (om_owners object) = Some r \<longrightarrow> \<not> controlled_by m r))"

lemma checkOwnership_iff: "checkOwnership K kind m object = None \<longleftrightarrow> \<not> foreign K m object"
  by (auto simp: checkOwnership_def foreign_def controlled_by_def Let_def split: option.splits)

lemma container_index_SomeD:
  "container_index cs = Some i \<Longrightarrow> i < length cs \<and> ct_name (cs ! i) = ''mcp-server''"
  by (induction cs arbitrary: i) (auto split: if_splits option.splits)

lemma container_index_None: "container_index cs = None \<longleftrightarrow> (\<forall>c \<in> set cs. ct_name c \<noteq> ''mcp-server'')"
  by (induction cs) (auto split: option.splits)

lemma container_index_append:
  "container_index cs = None \<Longrightarrow> container_index (cs @ [new_container]) = Some (length cs)"
  by (induction cs) (auto simp: new_container_def split: option.splits if_splits)

lemma container_index_update:
  "container_index cs = Some i \<Longrightarrow> ct_name c = ''mcp-server'' \<Longrightarrow> container_index (cs[i := c]) = Some i"
  by (induction cs arbitrary: i) (auto split: if_splits option.splits)

lemma container_index_view:
  "map container_view cs = map container_view ds \<Longrightarrow> container_index cs = container_index ds"
proof (induction cs arbitrary: ds)
  case (Cons c cs)
  then obtain d ds' where "ds = d # ds'" and "container_view c = container_view d"
    and "map container_view cs = map container_view ds'" by (cases ds) auto
  moreover from this have "ct_name c = ct_name d" by (simp add: container_view_def)
  moreover have "container_index cs = container_index ds'" by (rule Cons.IH) fact
  ultimately show ?case by simp
qed simp

lemma configure_container_simps [simp]:
  "ct_name (configure_container m c) = ct_name c"
  "configure_container m (configure_container m c) = configure_container m c"
  by (simp_all add: configure_container_def Let_def)

lemma configure_container_desired:
  "ct_name c = ''mcp-server'' \<Longrightarrow> desired_container m (configure_container m c)"
  by (simp add: desired_container_def container_view_def configure_container_def Let_def)

lemma configure_containers_index:
  "\<exists>i. container_index (configure_containers m cs) = Some i \<and>
     (\<exists>c. configure_containers m cs ! i = configure_container m c \<and> ct_name c = ''mcp-server'')"
proof (cases "container_index cs")
  case None
  then have i: "container_index (cs @ [new_container]) = Some (length cs)" by (rule container_index_append)
  have n: "ct_name new_container = ''mcp-server''" by (simp add: new_container_def)
  from None have eq: "configure_containers m cs = (cs @ [new_container])[length cs := configure_container m new_container]"
    by (simp add: configure_containers_def)
  have "container_index (configure_containers m cs) = Some (length cs)"
    unfolding eq by (rule container_index_update[OF i]) (simp add: n)
  moreover have "configure_containers m cs ! length cs = configure_container m new_container"
    by (simp add: eq)
  ultimately show ?thesis using n by blast
next
  case (Some i)
  then have n: "i < length cs" "ct_name (cs ! i) = ''mcp-server''" using container_index_SomeD by blast+
  from Some have eq: "configure_containers m cs = cs[i := configure_container m (cs ! i)]"
    by (simp add: configure_containers_def)
  have "container_index (configure_containers m cs) = Some i"
    unfolding eq by (rule container_index_update[OF Some]) (simp add: n)
  with n show ?thesis unfolding eq by auto
qed

lemma configure_containers_idem:
  "configure_containers m (configure_containers m cs) = configure_containers m cs"
proof -
  obtain i c where "container_index (configure_containers m cs) = Some i"
    and "configure_containers m cs ! i = configure_container m c"
    using configure_containers_index[of m cs] by blast
  moreover from this have "i < length (configure_containers m cs)" using container_index_SomeD by blast
  ultimately show ?thesis
    by (simp add: configure_containers_def[of m "configure_containers m cs"]) (metis list_update_id)
qed

lemma configure_containers_others:
  "filter (\<lambda>c. ct_name c \<noteq> ''mcp-server'') (configure_containers m cs)
     = filter (\<lambda>c. ct_name c \<noteq> ''mcp-server'') cs"
proof -
  have upd: "filter (\<lambda>c. ct_name c \<noteq> ''mcp-server'') (ds[i := configure_container m (ds ! i)])
      = filter (\<lambda>c. ct_name c \<noteq> ''mcp-server'') ds"
    if "i < length ds" and "ct_name (ds ! i) = ''mcp-server''" for ds i
    using that by (induction ds arbitrary: i) (auto split: nat.splits)
  show ?thesis
  proof (cases "container_index cs")
    case None
    with upd[of "length cs" "cs @ [new_container]"] show ?thesis
      by (simp add: configure_containers_def new_container_def)
  next
    case (Some i)
    with upd[of i cs] container_index_SomeD[OF Some] show ?thesis
      by (simp add: configure_containers_def)
  qed
qed

lemma update_present: "map_of l k = Some v \<Longrightarrow> AList.update k v l = l"
  by (induction l) (auto split: if_splits)

lemma desired_spec_idem: "desired_spec m (desired_spec m s) = desired_spec m s"
  by (simp add: desired_spec_def Let_def configure_containers_idem update_present update_conv')

lemma desired_spec_desired: "d_spec d = desired_spec m s \<Longrightarrow> desired_deployment m d"
  using configure_containers_index[of m "ds_containers s"]
  by (auto simp: desired_deployment_def desired_spec_def Let_def update_conv'
      dest: configure_container_desired[of _ m])

lemma kept_desired: "desired_deployment m d \<Longrightarrow> kept_deployment d d' \<Longrightarrow> desired_deployment m d'"
proof -
  assume d: "desired_deployment m d" and k: "kept_deployment d d'"
  let ?cs = "ds_containers (d_spec d)" and ?ds = "ds_containers (d_spec d')"
  from k have v: "map container_view ?ds = map container_view ?cs" by (simp add: kept_deployment_def)
  obtain i where i: "container_index ?cs = Some i" "desired_container m (?cs ! i)"
    using d by (auto simp: desired_deployment_def)
  have "container_index ?ds = Some i" using container_index_view[OF v] i(1) by simp
  moreover have "container_view (?ds ! i) = container_view (?cs ! i)"
    using v container_index_SomeD[OF i(1)] by (metis length_map nth_map)
  then have "desired_container m (?ds ! i)" using i(2) by (simp add: desired_container_def)
  ultimately show ?thesis using d k by (auto simp: desired_deployment_def kept_deployment_def)
qed

lemma create_or_update_lawD:
  assumes "create_or_update_law kept cou" and "cou st key ob f = (err, out, ch, st')"
    and "f (case map_of st key of None \<Rightarrow> ob | Some cur \<Rightarrow> cur) = (e, new, c)"
  shows "(\<forall>k. k \<noteq> key \<longrightarrow> map_of st' k = map_of st k) \<and>
    ((err \<noteq> None \<and> \<not> ch \<and> map_of st' key = map_of st key)
     \<or> (err \<noteq> None \<and> ch = c \<and> (e \<noteq> None \<longrightarrow> err = e) \<and> map_of st' key = map_of st key)
     \<or> (err = None \<and> e = None \<and> ch = c \<and> map_of st' key = Some out \<and> kept new out))"
  using assms(1)[unfolded create_or_update_law_def, THEN spec, of st, THEN spec, of key, THEN spec, of ob,
      THEN spec, of f] assms(2,3) by simp

lemma foreign_refused: "foreign K m ob \<Longrightarrow> \<exists>e. checkOwnership K kind m ob = Some e"
  using checkOwnership_iff[of K kind m ob] by auto

section \<open>The objects a server owns\<close>

text \<open>
  The Deployment and the Service are kept by the same pattern: a mutate function that refuses
  a foreign object and makes any other one as desired, run by \<^verbatim>\<open>CreateOrUpdate\<close>.
\<close>

locale owned_object =
  fixes mutate :: "'o mutate_fn" and alien :: "'o \<Rightarrow> bool" and desired :: "'o \<Rightarrow> bool"
    and kept :: "'o \<Rightarrow> 'o \<Rightarrow> bool"
  assumes refuses: "alien ob \<Longrightarrow> fst (mutate ob) \<noteq> None"
    and reaches: "mutate ob = (None, ob', c) \<Longrightarrow> desired ob'"
    and keeps: "desired ob \<Longrightarrow> kept ob ob' \<Longrightarrow> desired ob'"
begin

lemma aliens_stay:
  assumes law: "create_or_update_law kept cou" and run: "cou st key ob mutate = (err, out, ch, st')"
    and old: "map_of st k = Some x" and "k \<noteq> key \<or> alien x"
  shows "map_of st' k = Some x"
proof -
  obtain e new c where mut: "mutate (case map_of st key of None \<Rightarrow> ob | Some cur \<Rightarrow> cur) = (e, new, c)"
    by (metis prod_cases3)
  note D = create_or_update_lawD[OF law run mut]
  show ?thesis
  proof (cases "k = key")
    case True
    then have "e \<noteq> None" using mut old assms(4) refuses[of x] by auto
    with D have "map_of st' key = map_of st key" by blast
    with old True show ?thesis by simp
  next
    case False
    with D old show ?thesis by simp
  qed
qed

lemma success:
  assumes law: "create_or_update_law kept cou" and run: "cou st key ob mutate = (None, out, ch, st')"
  shows "map_of st' key = Some out \<and> desired out"
proof -
  obtain e new c where mut: "mutate (case map_of st key of None \<Rightarrow> ob | Some cur \<Rightarrow> cur) = (e, new, c)"
    by (metis prod_cases3)
  from create_or_update_lawD[OF law run mut]
  have "e = None" and "map_of st' key = Some out" and "kept new out" by blast+
  with mut show ?thesis using reaches keeps by blast
qed

end

lemma mutate_deployment_desired: "mutate_deployment K m d = (None, d', c) \<Longrightarrow> desired_deployment m d'"
  by (rule desired_spec_desired[where s = "d_spec d"])
    (auto simp: mutate_deployment_def Let_def split: option.splits sum.splits)

interpretation dep: owned_object "mutate_deployment K m" "\<lambda>d. foreign K m (d_meta d)"
  "desired_deployment m" kept_deployment for K m
  by unfold_locales
    (auto simp: mutate_deployment_desired kept_desired mutate_deployment_def
       dest: foreign_refused[where kind = "''*v1.Deployment''"])

interpretation svc: owned_object "mutate_service K m" "\<lambda>s. foreign K m (s_meta s)"
  "desired_service m" kept_service for K m
  by unfold_locales
    (auto simp: desired_service_def kept_service_def desired_ports_def mutate_service_def Let_def
       dest: foreign_refused[where kind = "''*v1.Service''"] split: option.splits sum.splits)

section \<open>The status\<close>

lemma set_status_simps [simp]:
  "m_namespace (set_status K m r) = m_namespace m" "m_name (set_status K m r) = m_name m"
  "m_generation (set_status K m r) = m_generation m" "m_deletion (set_status K m r) = m_deletion m"
  "m_spec (set_status K m r) = m_spec m" "m_uid (set_status K m r) = m_uid m"
  by (simp_all add: set_status_def split_beta)

lemma set_status_ready:
  "condition_law f K \<Longrightarrow> IsReady f (Some (set_status K m (phase, status, reason, message))) \<longleftrightarrow>
     time_is_zero (m_deletion m) \<and> status = ConditionTrue"
proof -
  assume "condition_law f K"
  from this[unfolded condition_law_def, THEN spec, of "st_conditions (m_status m)", THEN spec,
      of "\<lparr>cond_type = MCPServerReady, cond_status = status, cond_observed = m_generation m,
          cond_reason = reason, cond_message = message\<rparr>"]
  show ?thesis by (simp add: IsReady_def set_status_def)
qed

lemma updateStatus_workloads:
  "patch_law K \<Longrightarrow> updateStatus K m r cl = (e, cl') \<Longrightarrow>
     cl_deployments cl' = cl_deployments cl \<and> cl_services cl' = cl_services cl"
  by (auto simp: updateStatus_def Let_def patch_law_def split: if_splits)

lemma updateStatus_success:
  assumes "patch_law K" and "\<forall>s t. k_status_equal K s t \<longleftrightarrow> s = t"
    and "map_of (cl_servers cl) (NamespacedName (m_namespace m) (m_name m)) = Some m"
    and "updateStatus K m r cl = (None, cl')"
  shows "map_of (cl_servers cl') (NamespacedName (m_namespace m) (m_name m)) = Some (set_status K m r)"
proof (cases "m_status m = m_status (set_status K m r)")
  case True
  then have "set_status K m r = m" by (simp add: set_status_def split_beta)
  with True assms show ?thesis by (simp add: updateStatus_def)
next
  case False
  with assms(2,4) have "k_patch_status K cl m (set_status K m r) = (None, cl')"
    by (simp add: updateStatus_def Let_def)
  with assms(1)[unfolded patch_law_def, rule_format, of cl m "set_status K m r" None cl']
  show ?thesis by simp
qed

section \<open>Readiness\<close>

text \<open>All desired replicas are of the observed generation, ready and available.\<close>

definition rolled_out :: "Deployment \<Rightarrow> bool" where
  "rolled_out d \<longleftrightarrow> dst_observed (d_status d) = om_generation (d_meta d) \<and>
     \<not> list_ex is_failure (dst_conditions (d_status d)) \<and>
     (\<exists>n. ds_replicas (d_spec d) = Some n \<and> 0 < sint n \<and> dst_replicas (d_status d) = n \<and>
        dst_updated (d_status d) = n \<and> sint n \<le> sint (dst_ready (d_status d)) \<and>
        sint n \<le> sint (dst_available (d_status d)))"

lemma failure_loop_None: "failure_loop cs = None \<longleftrightarrow> \<not> list_ex is_failure cs"
  by (induction cs) (auto simp: Let_def)

lemma failure_loop_SomeD: "failure_loop cs = Some r \<Longrightarrow> \<exists>reason message. r = (''Failed'', ConditionFalse, reason, message)"
  by (induction cs) (auto simp: Let_def split: if_splits)

lemma readiness_true_iff:
  assumes "deploymentReadiness d changed = Some (phase, status, reason, message)"
  shows "status = ConditionTrue \<longleftrightarrow> \<not> changed \<and> rolled_out d"
proof -
  have cf: "ConditionFalse \<noteq> ConditionTrue" by (simp add: ConditionFalse_def ConditionTrue_def)
  show ?thesis
  proof (cases "failure_loop (dst_conditions (d_status d))")
    case None
    then have "\<not> list_ex is_failure (dst_conditions (d_status d))" using failure_loop_None by blast
    with assms cf None show ?thesis
      by (auto simp: deploymentReadiness_def rolled_out_def split: if_splits option.splits)
  next
    case (Some r)
    then have "list_ex is_failure (dst_conditions (d_status d))" using failure_loop_None by (metis option.distinct(1))
    with assms cf Some failure_loop_SomeD[OF Some] show ?thesis
      by (auto simp: deploymentReadiness_def rolled_out_def split: if_splits)
  qed
qed

lemma readiness_None: "deploymentReadiness d changed = None \<Longrightarrow> ds_replicas (d_spec d) = None"
  by (auto simp: deploymentReadiness_def split: if_splits option.splits)

section \<open>Reconciling\<close>

text \<open>A pass over a live server: the intermediate results of \<open>Reconcile\<close>.\<close>

lemma reconcileDeployment_cases:
  assumes "reconcileDeployment K m cl = ((d, changed, err), cl1)"
  shows "\<exists>deps. k_deployments K (cl_deployments cl) (NamespacedName (m_namespace m) (m_name m))
      (new_deployment m) (mutate_deployment K m) = (err, d, changed, deps)
    \<and> cl1 = cl\<lparr>cl_deployments := deps\<rparr>"
  using assms by (auto simp: reconcileDeployment_def split: prod.splits)

lemma reconcileService_cases:
  assumes "reconcileService K m cl = (err, cl1)"
  shows "\<exists>s ch svcs. k_services K (cl_services cl) (NamespacedName (m_namespace m) (serviceName (m_name m)))
      (new_service m) (mutate_service K m) = (err, s, ch, svcs) \<and> cl1 = cl\<lparr>cl_services := svcs\<rparr>"
  using assms by (auto simp: reconcileService_def split: prod.splits)

lemma failed_workloads:
  "patch_law K \<Longrightarrow> cl_deployments (snd (failed K m er cl)) = cl_deployments cl \<and>
     cl_services (snd (failed K m er cl)) = cl_services cl"
  using updateStatus_workloads[of K m _ cl] by (auto simp: failed_def split_beta Let_def) (metis prod.collapse)+

lemma failed_returns: "\<exists>er'. fst (failed K m er cl) = Returned (Some er')"
  by (simp add: failed_def split_beta)

text \<open>The stores after any pass: each is as it was or as \<^verbatim>\<open>CreateOrUpdate\<close> left it.\<close>

lemma Reconcile_stores:
  assumes "patch_law K" and get: "k_get K cl req = Got m"
    and D: "k_deployments K (cl_deployments cl) (NamespacedName (m_namespace m) (m_name m))
      (new_deployment m) (mutate_deployment K m) = (err, d', changed, deps)"
    and S: "k_services K (cl_services cl) (NamespacedName (m_namespace m) (serviceName (m_name m)))
      (new_service m) (mutate_service K m) = (serr, s', ch, svcs)"
  shows "(cl_deployments (snd (Reconcile K req cl)), cl_services (snd (Reconcile K req cl)))
      \<in> {(cl_deployments cl, cl_services cl), (deps, cl_services cl), (deps, svcs)}"
proof -
  have upd: "cl_deployments (snd (updateStatus K m r c)) = cl_deployments c"
    "cl_services (snd (updateStatus K m r c)) = cl_services c" for r c
    using updateStatus_workloads[OF assms(1), of m r c] by (cases "updateStatus K m r c"; simp)+
  note fail = failed_workloads[OF assms(1)]
  have dep: "reconcileDeployment K m cl = ((d', changed, err), cl\<lparr>cl_deployments := deps\<rparr>)"
    by (simp add: reconcileDeployment_def D)
  have svc: "reconcileService K m (cl\<lparr>cl_deployments := deps\<rparr>) = (serr, cl\<lparr>cl_deployments := deps, cl_services := svcs\<rparr>)"
    by (simp add: reconcileService_def S)
  show ?thesis
    by (simp add: Reconcile_def get dep svc split_beta Let_def upd fail split: option.split)
qed

text \<open>The cluster after any pass: stored objects that are not the server's are as they were.\<close>

lemma Reconcile_workloads:
  assumes K: "kube_law K"
    and get: "k_get K cl req = Got m"
  shows "map_of (cl_deployments cl) k = Some d \<Longrightarrow>
      k \<noteq> NamespacedName (m_namespace m) (m_name m) \<or> foreign K m (d_meta d) \<Longrightarrow>
      map_of (cl_deployments (snd (Reconcile K req cl))) k = Some d"
    and "map_of (cl_services cl) k = Some s \<Longrightarrow>
      k \<noteq> NamespacedName (m_namespace m) (serviceName (m_name m)) \<or> foreign K m (s_meta s) \<Longrightarrow>
      map_of (cl_services (snd (Reconcile K req cl))) k = Some s"
proof -
  have laws: "create_or_update_law kept_deployment (k_deployments K)"
    "create_or_update_law kept_service (k_services K)" "patch_law K"
    using K by (simp_all add: kube_law_def)
  obtain err d' changed deps where D: "k_deployments K (cl_deployments cl) (NamespacedName (m_namespace m) (m_name m))
      (new_deployment m) (mutate_deployment K m) = (err, d', changed, deps)" by (metis prod_cases4)
  obtain serr s' ch svcs where S: "k_services K (cl_services cl) (NamespacedName (m_namespace m) (serviceName (m_name m)))
      (new_service m) (mutate_service K m) = (serr, s', ch, svcs)" by (metis prod_cases4)
  note final = Reconcile_stores[OF laws(3) get D S]
  show "map_of (cl_deployments (snd (Reconcile K req cl))) k = Some d"
    if old: "map_of (cl_deployments cl) k = Some d"
      "k \<noteq> NamespacedName (m_namespace m) (m_name m) \<or> foreign K m (d_meta d)"
    using dep.aliens_stay[OF laws(1) D old] old(1) final by auto
  show "map_of (cl_services (snd (Reconcile K req cl))) k = Some s"
    if old: "map_of (cl_services cl) k = Some s"
      "k \<noteq> NamespacedName (m_namespace m) (serviceName (m_name m)) \<or> foreign K m (s_meta s)"
    using svc.aliens_stay[OF laws(2) S old] old(1) final by auto
qed

text \<open>A pass that returns no error: all of its calls succeeded.\<close>

lemma Reconcile_parts:
  assumes get: "k_get K cl req = Got m" and live: "time_is_zero (m_deletion m)"
    and run: "Reconcile K req cl = (Returned None, cl')"
  obtains d changed deps s ch svcs r where
    "k_deployments K (cl_deployments cl) (NamespacedName (m_namespace m) (m_name m))
      (new_deployment m) (mutate_deployment K m) = (None, d, changed, deps)"
    "k_services K (cl_services cl) (NamespacedName (m_namespace m) (serviceName (m_name m)))
      (new_service m) (mutate_service K m) = (None, s, ch, svcs)"
    "deploymentReadiness d changed = Some r"
    "updateStatus K m r (cl\<lparr>cl_deployments := deps, cl_services := svcs\<rparr>) = (None, cl')"
    "fst (reconcileDeployment K m cl) = (d, changed, None)"
proof -
  obtain d changed err cl1 where dep: "reconcileDeployment K m cl = ((d, changed, err), cl1)"
    by (metis prod_cases4 surj_pair)
  obtain serr cl2 where svc: "reconcileService K m cl1 = (serr, cl2)" by fastforce
  have err: "err = None" "serr = None"
    using run failed_returns[of K m] by (auto simp: Reconcile_def get live dep svc split: option.splits)
      (metis fst_conv option.distinct(1) outcome.inject)+
  obtain r where r: "deploymentReadiness d changed = Some r"
    using run by (auto simp: Reconcile_def get live dep svc err split: option.splits)
  have upd: "updateStatus K m r cl2 = (None, cl')"
    using run by (simp add: Reconcile_def get live dep svc err r split: prod.splits)
  obtain deps where D: "k_deployments K (cl_deployments cl) (NamespacedName (m_namespace m) (m_name m))
      (new_deployment m) (mutate_deployment K m) = (None, d, changed, deps)"
    "cl1 = cl\<lparr>cl_deployments := deps\<rparr>" using reconcileDeployment_cases[OF dep] err by blast
  obtain s ch svcs where S: "k_services K (cl_services cl1) (NamespacedName (m_namespace m) (serviceName (m_name m)))
      (new_service m) (mutate_service K m) = (None, s, ch, svcs)"
    "cl2 = cl1\<lparr>cl_services := svcs\<rparr>" using reconcileService_cases[OF svc] err by blast
  show thesis
    by (rule that[OF D(1) _ r]) (use S D(2) upd dep err in simp_all)
qed

lemma Reconcile_success:
  assumes K: "kube_law K" and get: "k_get K cl req = Got m" and live: "time_is_zero (m_deletion m)"
    and run: "Reconcile K req cl = (Returned None, cl')"
  shows "\<exists>d s changed r. map_of (cl_deployments cl') (NamespacedName (m_namespace m) (m_name m)) = Some d
    \<and> desired_deployment m d
    \<and> map_of (cl_services cl') (NamespacedName (m_namespace m) (serviceName (m_name m))) = Some s
    \<and> desired_service m s \<and> fst (reconcileDeployment K m cl) = (d, changed, None)
    \<and> deploymentReadiness d changed = Some r
    \<and> map_of (cl_servers cl') req = Some (set_status K m r)"
proof -
  have laws: "create_or_update_law kept_deployment (k_deployments K)"
    "create_or_update_law kept_service (k_services K)" "patch_law K" "get_law K"
    "\<forall>s t. k_status_equal K s t \<longleftrightarrow> s = t"
    using K by (simp_all add: kube_law_def)
  from Reconcile_parts[OF get live run] obtain d changed deps s ch svcs r where
    D: "k_deployments K (cl_deployments cl) (NamespacedName (m_namespace m) (m_name m))
      (new_deployment m) (mutate_deployment K m) = (None, d, changed, deps)"
    and S: "k_services K (cl_services cl) (NamespacedName (m_namespace m) (serviceName (m_name m)))
      (new_service m) (mutate_service K m) = (None, s, ch, svcs)"
    and r: "deploymentReadiness d changed = Some r"
    and upd: "updateStatus K m r (cl\<lparr>cl_deployments := deps, cl_services := svcs\<rparr>) = (None, cl')"
    and dep: "fst (reconcileDeployment K m cl) = (d, changed, None)" by metis
  have "map_of (cl_servers cl) req = Some m" "req = NamespacedName (m_namespace m) (m_name m)"
    using laws(4) get by (auto simp: get_law_def)
  then have "map_of (cl_servers cl') req = Some (set_status K m r)"
    using updateStatus_success[OF laws(3,5) _ upd] by simp
  with dep.success[OF laws(1) D] svc.success[OF laws(2) S] updateStatus_workloads[OF laws(3) upd] dep r
  show ?thesis by (cases r) auto
qed

section \<open>A cluster that keeps the laws\<close>

definition simple_get :: "cluster \<Rightarrow> NamespacedName \<Rightarrow> get_result" where
  "simple_get cl req = (case map_of (cl_servers cl) req of
     None \<Rightarrow> NotFound
   | Some m \<Rightarrow> if req = NamespacedName (m_namespace m) (m_name m) then Got m else GetFailed ''wrong name'')"

definition simple_create_or_update :: "'o create_or_update" where
  "simple_create_or_update st key ob f =
     (case f (case map_of st key of None \<Rightarrow> ob | Some cur \<Rightarrow> cur) of (e, new, c) \<Rightarrow>
        (e, new, c, (case e of None \<Rightarrow> AList.update key new st | Some _ \<Rightarrow> st)))"

definition simple_patch :: "cluster \<Rightarrow> MCPServer \<Rightarrow> MCPServer \<Rightarrow> string option \<times> cluster" where
  "simple_patch cl before m =
     (None, cl\<lparr>cl_servers := AList.update (NamespacedName (m_namespace m) (m_name m)) m (cl_servers cl)\<rparr>)"

definition owner_reference :: "MCPServer \<Rightarrow> OwnerReference" where
  "owner_reference m = \<lparr>or_api_version = GroupVersion, or_kind = ''MCPServer'', or_name = m_name m,
     or_uid = m_uid m, or_controller = True\<rparr>"

definition simple_set_controller :: "MCPServer \<Rightarrow> ObjectMeta \<Rightarrow> string + OwnerReference list" where
  "simple_set_controller m meta = (case List.find or_controller (om_owners meta) of
     None \<Rightarrow> Inr (owner_reference m # om_owners meta)
   | Some r \<Rightarrow> if controlled_by m r then Inr (om_owners meta) else Inl ''already owned'')"

definition simple_kube :: kube where
  "simple_kube = \<lparr>k_get = simple_get, k_deployments = simple_create_or_update,
     k_services = simple_create_or_update, k_patch_status = simple_patch,
     k_set_condition = (\<lambda>cs c. c # filter (\<lambda>d. cond_type d \<noteq> cond_type c) cs),
     k_controller_of = List.find or_controller, k_set_controller = simple_set_controller,
     k_spec_equal = (\<lambda>s t. s = t), k_status_equal = (\<lambda>s t. s = t)\<rparr>"

lemma simple_create_or_update_law:
  fixes kept :: "'a \<Rightarrow> 'a \<Rightarrow> bool"
  assumes "\<And>x. kept x x"
  shows "create_or_update_law kept simple_create_or_update"
  unfolding create_or_update_law_def
proof (intro allI)
  fix st :: "(NamespacedName, 'a) gomap" and key ob and f :: "'a mutate_fn"
  obtain e new c where f: "f (case map_of st key of None \<Rightarrow> ob | Some cur \<Rightarrow> cur) = (e, new, c)"
    by (metis prod_cases3)
  show "case simple_create_or_update st key ob f of (err, out, changed, st') \<Rightarrow>
     (\<forall>k. k \<noteq> key \<longrightarrow> map_of st' k = map_of st k) \<and>
     (case f (case map_of st key of None \<Rightarrow> ob | Some cur \<Rightarrow> cur) of (e, new, c) \<Rightarrow>
        (err \<noteq> None \<and> \<not> changed \<and> map_of st' key = map_of st key)
        \<or> (err \<noteq> None \<and> changed = c \<and> (e \<noteq> None \<longrightarrow> err = e) \<and> map_of st' key = map_of st key)
        \<or> (err = None \<and> e = None \<and> changed = c \<and> map_of st' key = Some out \<and> kept new out))"
    by (cases e) (simp_all add: simple_create_or_update_def f assms update_conv')
qed

lemma simple_kube_law: "kube_law simple_kube"
proof -
  have "create_or_update_law kept_deployment simple_create_or_update"
    "create_or_update_law kept_service simple_create_or_update"
    by (rule simple_create_or_update_law, simp add: kept_deployment_def kept_service_def)+
  then show ?thesis
    by (auto simp: kube_law_def simple_kube_def get_law_def patch_law_def simple_get_def simple_patch_def
        update_conv' split: option.splits if_splits)
qed

lemma simple_condition_law: "condition_law first_condition simple_kube"
  by (simp add: condition_law_def first_condition_def simple_kube_def)

lemma simple_controller_law: "set_controller_law simple_kube"
  by (auto simp: set_controller_law_def simple_kube_def simple_set_controller_def owner_reference_def
      controlled_by_def split: option.splits if_splits)

definition sample_key :: NamespacedName where
  "sample_key = NamespacedName ''team'' ''tools''"

definition sample_cluster :: cluster where
  "sample_cluster = \<lparr>cl_servers = [(sample_key, sample_server)], cl_deployments = [], cl_services = []\<rparr>"

definition taken_deployment :: Deployment where
  "taken_deployment = (new_deployment sample_server)\<lparr>d_meta :=
     (new_meta ''team'' ''tools'')\<lparr>om_resource_version := ''7''\<rparr>\<rparr>"

definition taken_cluster :: cluster where
  "taken_cluster = sample_cluster\<lparr>cl_deployments := [(sample_key, taken_deployment)]\<rparr>"

lemma sample_got:
  "k_get simple_kube sample_cluster sample_key = Got sample_server"
  "k_get simple_kube taken_cluster sample_key = Got sample_server"
  by (simp_all add: simple_kube_def simple_get_def sample_cluster_def taken_cluster_def sample_key_def
      sample_server_def)

lemma sample_key_eq: "sample_key = NamespacedName (m_namespace sample_server) (m_name sample_server)"
  by (simp add: sample_key_def sample_server_def)

lemma taken_foreign: "foreign simple_kube sample_server (d_meta taken_deployment)"
  by (simp add: foreign_def taken_deployment_def new_meta_def simple_kube_def)

lemma sample_live: "time_is_zero (m_deletion sample_server)"
  by (simp add: sample_server_def time_is_zero_def)

section \<open>What the controller promises\<close>

text \<open>
  The controller never touches a workload that is not its own: whatever a pass returns,
  every stored Deployment and Service under another name, and every one under the server's
  name that another object controls, that nobody controls, or that is being deleted, is
  exactly as it was.
\<close>

theorem reconcile_spares_foreign_objects:
  assumes "kube_law K" and "k_get K cl req = Got m"
  shows "(\<forall>k d. map_of (cl_deployments cl) k = Some d \<and>
        (k \<noteq> NamespacedName (m_namespace m) (m_name m) \<or> foreign K m (d_meta d)) \<longrightarrow>
        map_of (cl_deployments (snd (Reconcile K req cl))) k = Some d)
    \<and> (\<forall>k s. map_of (cl_services cl) k = Some s \<and>
        (k \<noteq> NamespacedName (m_namespace m) (serviceName (m_name m)) \<or> foreign K m (s_meta s)) \<longrightarrow>
        map_of (cl_services (snd (Reconcile K req cl))) k = Some s)"
  using Reconcile_workloads[OF assms] by blast

theorem reconcile_spares_foreign_objects_witness:
  "map_of (cl_deployments (snd (Reconcile simple_kube sample_key taken_cluster))) sample_key
     = Some taken_deployment"
proof -
  have "map_of (cl_deployments taken_cluster) sample_key = Some taken_deployment"
    by (simp add: taken_cluster_def)
  with reconcile_spares_foreign_objects[OF simple_kube_law sample_got(2), THEN conjunct1] taken_foreign
  show ?thesis by blast
qed

text \<open>
  C26. A server whose name is taken by a foreign Deployment does not get traffic: the pass
  computes the \<^verbatim>\<open>Failed\<close> status, which is not ready, and returns the error. Either that status
  is what the API server then stores, or the status patch was attempted, failed, and its error
  is joined to the error returned.
\<close>

theorem foreign_workload_not_ready:
  assumes "kube_law K" and "condition_law f K" and "k_get K cl req = Got m" and "time_is_zero (m_deletion m)"
    and "map_of (cl_deployments cl) req = Some d" and "foreign K m (d_meta d)"
  shows "\<exists>er s. s = set_status K m (''Failed'', ConditionFalse, ''ReconcileError'', er) \<and>
    \<not> IsReady f (Some s) \<and>
    (fst (Reconcile K req cl) = Returned (Some er) \<and>
       map_of (cl_servers (snd (Reconcile K req cl))) req = Some s
     \<or> (\<exists>e cl1. cl_servers cl1 = cl_servers cl \<and> cl_services cl1 = cl_services cl \<and>
          fst (k_patch_status K cl1 m s) = Some e \<and>
          fst (Reconcile K req cl) = Returned (Some (er @ [CHR 0x0A] @ e))))"
proof -
  have laws: "create_or_update_law kept_deployment (k_deployments K)" "patch_law K" "get_law K"
    "\<forall>s t. k_status_equal K s t \<longleftrightarrow> s = t" using assms(1) by (simp_all add: kube_law_def)
  have req: "map_of (cl_servers cl) req = Some m" "req = NamespacedName (m_namespace m) (m_name m)"
    using laws(3) assms(3) by (auto simp: get_law_def)
  obtain d' changed err cl1 where dep: "reconcileDeployment K m cl = ((d', changed, err), cl1)"
    by (metis prod_cases4 surj_pair)
  obtain deps where D: "k_deployments K (cl_deployments cl) (NamespacedName (m_namespace m) (m_name m))
      (new_deployment m) (mutate_deployment K m) = (err, d', changed, deps)"
    "cl1 = cl\<lparr>cl_deployments := deps\<rparr>" using reconcileDeployment_cases[OF dep] by blast
  obtain e new c where mut: "mutate_deployment K m d = (e, new, c)" by (metis prod_cases3)
  have "e \<noteq> None" using dep.refuses[where ob = d] assms(6) mut by (metis fst_conv)
  then obtain er where er: "err = Some er"
    using create_or_update_lawD[OF laws(1) D(1), of e new c] assms(5) req(2) mut by auto
  let ?r = "(''Failed'', ConditionFalse, ''ReconcileError'', er)"
  obtain ue cl' where upd: "updateStatus K m ?r cl1 = (ue, cl')" by fastforce
  have rec: "Reconcile K req cl = (Returned (Some (errors_Join er ue)), cl')"
    by (simp add: Reconcile_def assms(3,4) dep er failed_def upd)
  have not_ready: "\<not> IsReady f (Some (set_status K m ?r))"
    by (simp add: set_status_ready[OF assms(2)] ConditionFalse_def ConditionTrue_def)
  show ?thesis
  proof (cases ue)
    case None
    with updateStatus_success[OF laws(2,4), of cl1 m] upd req D(2)
    have "map_of (cl_servers cl') req = Some (set_status K m ?r)" by simp
    with not_ready None show ?thesis
      by (intro exI[of _ er] exI[of _ "set_status K m ?r"]) (simp add: rec errors_Join_def)
  next
    case (Some x)
    then have "fst (k_patch_status K cl1 m (set_status K m ?r)) = Some x"
      using upd by (auto simp: updateStatus_def Let_def split: if_splits)
    moreover have "cl_servers cl1 = cl_servers cl" "cl_services cl1 = cl_services cl" using D(2) by simp_all
    moreover have "fst (Reconcile K req cl) = Returned (Some (er @ [CHR 0x0A] @ x))"
      by (simp add: rec errors_Join_def Some)
    ultimately show ?thesis using not_ready by blast
  qed
qed

theorem foreign_workload_not_ready_witness:
  "\<exists>er s. fst (Reconcile simple_kube sample_key taken_cluster) = Returned (Some er) \<and>
     map_of (cl_servers (snd (Reconcile simple_kube sample_key taken_cluster))) sample_key = Some s \<and>
     \<not> IsReady first_condition (Some s)"
proof -
  have "map_of (cl_deployments taken_cluster) sample_key = Some taken_deployment" by (simp add: taken_cluster_def)
  from foreign_workload_not_ready[OF simple_kube_law simple_condition_law sample_got(2) sample_live this taken_foreign]
  show ?thesis by (auto simp: simple_kube_def simple_patch_def)
qed

text \<open>
  C15. A pass without an error leaves the cluster as the server wants it: the stored
  Deployment and Service are the desired ones, and the stored server is ready for the gateway
  exactly when the pass found nothing to change and the Deployment is fully rolled out.
\<close>

theorem Reconcile_ready_iff_rolled_out:
  assumes "kube_law K" and "condition_law f K" and "k_get K cl req = Got m" and "time_is_zero (m_deletion m)"
    and "Reconcile K req cl = (Returned None, cl')"
  shows "\<exists>d s changed m'. map_of (cl_deployments cl') (NamespacedName (m_namespace m) (m_name m)) = Some d
    \<and> desired_deployment m d
    \<and> map_of (cl_services cl') (NamespacedName (m_namespace m) (serviceName (m_name m))) = Some s
    \<and> desired_service m s \<and> fst (reconcileDeployment K m cl) = (d, changed, None)
    \<and> map_of (cl_servers cl') req = Some m' \<and> m_spec m' = m_spec m
    \<and> (IsReady f (Some m') \<longleftrightarrow> \<not> changed \<and> rolled_out d)"
proof -
  obtain d s changed r where R: "map_of (cl_deployments cl') (NamespacedName (m_namespace m) (m_name m)) = Some d"
    "desired_deployment m d"
    "map_of (cl_services cl') (NamespacedName (m_namespace m) (serviceName (m_name m))) = Some s"
    "desired_service m s" "fst (reconcileDeployment K m cl) = (d, changed, None)"
    "deploymentReadiness d changed = Some r" "map_of (cl_servers cl') req = Some (set_status K m r)"
    using Reconcile_success[OF assms(1,3-5)] by blast
  obtain phase status reason message where r: "r = (phase, status, reason, message)" by (metis prod_cases4)
  have "IsReady f (Some (set_status K m r)) \<longleftrightarrow> \<not> changed \<and> rolled_out d"
    using set_status_ready[OF assms(2)] readiness_true_iff[OF R(6)[unfolded r]] assms(4) by (simp add: r)
  with R show ?thesis by (metis set_status_simps(5))
qed

theorem Reconcile_ready_iff_rolled_out_witness:
  "\<exists>d m'. map_of (cl_deployments (snd (Reconcile simple_kube sample_key sample_cluster))) sample_key = Some d
    \<and> desired_deployment sample_server d
    \<and> map_of (cl_servers (snd (Reconcile simple_kube sample_key sample_cluster))) sample_key = Some m'"
proof -
  have "fst (Reconcile simple_kube sample_key sample_cluster) = Returned None" by code_simp
  then have "Reconcile simple_kube sample_key sample_cluster
      = (Returned None, snd (Reconcile simple_kube sample_key sample_cluster))" by (metis prod.collapse)
  from Reconcile_ready_iff_rolled_out[OF simple_kube_law simple_condition_law sample_got(1) sample_live this]
  show ?thesis unfolding sample_key_eq[symmetric] by blast
qed

text \<open>
  Reconciling converges: what the mutate function made of a Deployment is the desired
  workload with every other container, label and field as it was, and a second pass over it,
  once the server has set its metadata, is not refused and changes nothing.
\<close>

theorem mutate_deployment_converges:
  assumes "set_controller_law K" and "\<forall>s. k_spec_equal K s s"
    and "mutate_deployment K m d = (None, d', c)"
    and "om_owners meta = om_owners (d_meta d')" and "om_namespace meta = om_namespace (d_meta d')"
    and "time_is_zero (om_deletion meta)"
  shows "desired_deployment m d'
    \<and> filter (\<lambda>c. ct_name c \<noteq> ''mcp-server'') (ds_containers (d_spec d'))
        = filter (\<lambda>c. ct_name c \<noteq> ''mcp-server'') (ds_containers (d_spec d))
    \<and> (\<forall>k. k \<noteq> server_label \<longrightarrow> Option.bind (ds_labels (d_spec d')) (\<lambda>l. map_of l k)
        = Option.bind (ds_labels (d_spec d)) (\<lambda>l. map_of l k))
    \<and> ds_other (d_spec d') = ds_other (d_spec d) \<and> d_status d' = d_status d
    \<and> mutate_deployment K m (d'\<lparr>d_meta := meta\<rparr>) = (None, d'\<lparr>d_meta := meta\<rparr>, False)"
proof -
  from assms(3) obtain owners where own: "k_set_controller K m (d_meta d) = Inr owners"
    and d': "d' = d\<lparr>d_spec := desired_spec m (d_spec d), d_meta := (d_meta d)\<lparr>om_owners := owners\<rparr>\<rparr>"
    by (auto simp: mutate_deployment_def Let_def split: option.splits sum.splits)
  from assms(1)[unfolded set_controller_law_def, THEN spec, THEN spec, THEN spec, THEN mp, OF own]
  obtain r where r: "k_controller_of K owners = Some r" "controlled_by m r"
    and again: "\<forall>meta'. om_owners meta' = owners \<longrightarrow> om_namespace meta' = om_namespace (d_meta d) \<longrightarrow>
        k_set_controller K m meta' = Inr owners" by blast
  have meta: "om_owners meta = owners" "om_namespace meta = om_namespace (d_meta d)"
    using assms(4,5) by (simp_all add: d')
  have "k_set_controller K m meta = Inr owners" using again meta by blast
  moreover have "checkOwnership K ''*v1.Deployment'' m meta = None"
    using r meta(1) assms(6) by (simp add: checkOwnership_iff foreign_def)
  moreover have "meta\<lparr>om_owners := owners\<rparr> = meta" using meta(1) by simp
  ultimately have "mutate_deployment K m (d'\<lparr>d_meta := meta\<rparr>) = (None, d'\<lparr>d_meta := meta\<rparr>, False)"
    using assms(2) by (simp add: mutate_deployment_def d' desired_spec_idem)
  moreover have "Option.bind (ds_labels (d_spec d')) (\<lambda>l. map_of l k)
      = Option.bind (ds_labels (d_spec d)) (\<lambda>l. map_of l k)" if "k \<noteq> server_label" for k
    using that by (cases "ds_labels (d_spec d)") (simp_all add: d' desired_spec_def update_conv')
  ultimately show ?thesis
    using mutate_deployment_desired[OF assms(3)]
    by (simp add: d' desired_spec_def configure_containers_others)
qed

theorem mutate_deployment_converges_witness:
  "mutate_deployment simple_kube sample_server
     (fst (snd (mutate_deployment simple_kube sample_server (new_deployment sample_server))))
   = (None, fst (snd (mutate_deployment simple_kube sample_server (new_deployment sample_server))), False)"
proof -
  let ?d = "fst (snd (mutate_deployment simple_kube sample_server (new_deployment sample_server)))"
  have run: "mutate_deployment simple_kube sample_server (new_deployment sample_server) = (None, ?d, True)"
    by code_simp
  have eq: "\<forall>s. k_spec_equal simple_kube s s" by (simp add: simple_kube_def)
  have "time_is_zero (om_deletion (d_meta ?d))" by code_simp
  from mutate_deployment_converges[OF simple_controller_law eq run refl refl this]
  show ?thesis by simp
qed

text \<open>
  A pass never panics: the Deployment whose replicas are read back has them, because the
  server keeps what the pass set.
\<close>

theorem Reconcile_never_panics:
  assumes "kube_law K"
  shows "fst (Reconcile K req cl) \<noteq> Panicked"
proof
  assume p: "fst (Reconcile K req cl) = Panicked"
  then obtain m where get: "k_get K cl req = Got m"
    by (cases "k_get K cl req") (auto simp: Reconcile_def)
  obtain d changed err cl1 where dep: "reconcileDeployment K m cl = ((d, changed, err), cl1)"
    by (metis prod_cases4 surj_pair)
  have "err = None" "deploymentReadiness d changed = None"
    using p by (auto simp: Reconcile_def get dep failed_def split_beta Let_def split: if_splits option.splits)
  with reconcileDeployment_cases[OF dep] obtain deps where
    D: "k_deployments K (cl_deployments cl) (NamespacedName (m_namespace m) (m_name m))
      (new_deployment m) (mutate_deployment K m) = (None, d, changed, deps)" by blast
  have "create_or_update_law kept_deployment (k_deployments K)" using assms by (simp add: kube_law_def)
  from dep.success[OF this D] have "ds_replicas (d_spec d) = Some 1" by (simp add: desired_deployment_def)
  with readiness_None[OF \<open>deploymentReadiness d changed = None\<close>] show False by simp
qed

theorem Reconcile_never_panics_witness:
  "fst (Reconcile simple_kube sample_key sample_cluster) \<noteq> Panicked \<and>
   snd (Reconcile simple_kube sample_key sample_cluster) \<noteq> sample_cluster"
proof
  show "fst (Reconcile simple_kube sample_key sample_cluster) \<noteq> Panicked"
    by (rule Reconcile_never_panics[OF simple_kube_law])
  have "cl_services (snd (Reconcile simple_kube sample_key sample_cluster)) \<noteq> []" by code_simp
  then show "snd (Reconcile simple_kube sample_key sample_cluster) \<noteq> sample_cluster"
    by (metis cluster.select_convs(3) sample_cluster_def)
qed

text \<open>
  The phase reported for a Deployment: Ready, with a true condition, exactly when nothing
  was changed and it is rolled out; Failed exactly when nothing was changed, the status is of
  the current generation and some condition is a failure, the first of which is reported;
  Pending otherwise.
\<close>

theorem deploymentReadiness_phases:
  assumes "deploymentReadiness d changed = Some (phase, status, reason, message)"
  shows "(status = ConditionTrue \<longleftrightarrow> phase = ''Ready'')
    \<and> (phase = ''Ready'' \<longleftrightarrow> \<not> changed \<and> rolled_out d)
    \<and> (phase = ''Failed'' \<longleftrightarrow> \<not> changed \<and> dst_observed (d_status d) = om_generation (d_meta d) \<and>
        list_ex is_failure (dst_conditions (d_status d)))
    \<and> (phase = ''Failed'' \<longrightarrow> (\<exists>c. List.find is_failure (dst_conditions (d_status d)) = Some c \<and>
        reason = (if dc_reason c = [] then dc_type c else dc_reason c) \<and> message = dc_message c))
    \<and> phase \<in> {''Ready'', ''Failed'', ''Pending''}"
proof -
  have cf: "ConditionFalse \<noteq> ConditionTrue" by (simp add: ConditionFalse_def ConditionTrue_def)
  have first: "failure_loop cs = Some (p, s, re, ms) \<Longrightarrow> p = ''Failed'' \<and> s = ConditionFalse \<and>
      (\<exists>c. List.find is_failure cs = Some c \<and> re = (if dc_reason c = [] then dc_type c else dc_reason c) \<and>
        ms = dc_message c)" for cs p s re ms
    by (induction cs) (auto simp: Let_def split: if_splits)
  have st: "status = ConditionTrue \<longleftrightarrow> phase = ''Ready''"
    using assms cf by (auto simp: deploymentReadiness_def split: if_splits option.splits dest!: first)
  have fail: "phase = ''Failed'' \<longleftrightarrow> \<not> changed \<and> dst_observed (d_status d) = om_generation (d_meta d) \<and>
      failure_loop (dst_conditions (d_status d)) \<noteq> None"
    using assms by (auto simp: deploymentReadiness_def split: if_splits option.splits dest!: first)
  have rep: "failure_loop (dst_conditions (d_status d)) = Some (phase, status, reason, message)" if "phase = ''Failed''"
    using assms that by (auto simp: deploymentReadiness_def split: if_splits option.splits)
  have "phase \<in> {''Ready'', ''Failed'', ''Pending''}"
    using assms by (auto simp: deploymentReadiness_def split: if_splits option.splits dest!: first)
  moreover have "phase = ''Ready'' \<longleftrightarrow> \<not> changed \<and> rolled_out d"
    using st readiness_true_iff[OF assms] by blast
  moreover have "phase = ''Failed'' \<longleftrightarrow> \<not> changed \<and> dst_observed (d_status d) = om_generation (d_meta d) \<and>
      list_ex is_failure (dst_conditions (d_status d))"
    using fail by (simp add: failure_loop_None)
  moreover note st first[OF rep]
  ultimately show ?thesis by (intro conjI impI) blast+
qed

theorem deploymentReadiness_phases_witness:
  "\<not> rolled_out (new_deployment sample_server)"
proof -
  have "deploymentReadiness ((new_deployment sample_server)\<lparr>d_spec :=
        (d_spec (new_deployment sample_server))\<lparr>ds_replicas := Some 1\<rparr>\<rparr>) False =
      Some (''Pending'', ConditionFalse, ''DeploymentUnavailable'',
        ''Waiting for the desired Deployment replicas to be updated, ready, and available'')"
    by code_simp
  from deploymentReadiness_phases[OF this] show ?thesis
    by (simp add: rolled_out_def new_deployment_def)
qed

end
