(* ===== verification/Convergence.thy ===== *)
theory Convergence
  imports Controller
begin

text \<open>
  Successive passes of the controller (\<^verbatim>\<open>internal/controller/mcpserver_controller.go\<close>). A pass
  is triggered by every event of the server and of what it owns, so what matters is where the
  passes lead: once a pass has returned no error, the next one finds its own workloads as it
  wants them, writes nothing to them, and reports the state of the rollout.
\<close>

section \<open>What is relied on between two passes\<close>

text \<open>\<^verbatim>\<open>CreateOrUpdate\<close> does not write an object that the mutate function left as it was.\<close>

definition quiet_law :: "'o create_or_update \<Rightarrow> bool" where
  "quiet_law cou \<longleftrightarrow> (\<forall>st key obj f cur c. map_of st key = Some cur \<longrightarrow> f cur = (None, cur, c) \<longrightarrow>
     (case cou st key obj f of (err, out, changed, st') \<Rightarrow> err = None \<longrightarrow> out = cur \<and> map_of st' = map_of st))"

text \<open>
  The server keeps the owners that were sent, and \<^verbatim>\<open>SetControllerReference\<close> does not look at
  the status of the owner.
\<close>

definition kept_meta :: "ObjectMeta \<Rightarrow> ObjectMeta \<Rightarrow> bool" where
  "kept_meta x y \<longleftrightarrow> om_owners y = om_owners x \<and> om_namespace y = om_namespace x"

definition settling_law :: "kube \<Rightarrow> bool" where
  "settling_law K \<longleftrightarrow>
     create_or_update_law (\<lambda>d d'. kept_deployment d d' \<and> kept_meta (d_meta d) (d_meta d')) (k_deployments K) \<and>
     create_or_update_law (\<lambda>s s'. kept_service s s' \<and> kept_meta (s_meta s) (s_meta s')) (k_services K) \<and>
     quiet_law (k_deployments K) \<and> quiet_law (k_services K) \<and> set_controller_law K \<and>
     (\<forall>m st. k_set_controller K (m\<lparr>m_status := st\<rparr>) = k_set_controller K m)"

section \<open>Settled workloads\<close>

text \<open>An object that the server owns and a pass would leave alone.\<close>

definition settled_meta :: "kube \<Rightarrow> MCPServer \<Rightarrow> ObjectMeta \<Rightarrow> bool" where
  "settled_meta K m meta \<longleftrightarrow> \<not> foreign K m meta \<and> k_set_controller K m meta = Inr (om_owners meta)"

lemma desired_container_fixed: "desired_container m c \<Longrightarrow> configure_container m c = c"
  by (cases c) (auto simp: desired_container_def container_view_def configure_container_def Let_def)

lemma desired_spec_fixed: "desired_deployment m d \<Longrightarrow> desired_spec m (d_spec d) = d_spec d"
proof -
  assume d: "desired_deployment m d"
  obtain i l where i: "container_index (ds_containers (d_spec d)) = Some i"
    "desired_container m (ds_containers (d_spec d) ! i)"
    and l: "ds_labels (d_spec d) = Some l" "map_of l server_label = Some (m_name m)"
    using d by (auto simp: desired_deployment_def)
  have "configure_containers m (ds_containers (d_spec d)) = ds_containers (d_spec d)"
    using i by (simp add: configure_containers_def desired_container_fixed)
  with d l show ?thesis
    by (simp add: desired_spec_def Let_def desired_deployment_def update_present)
qed

lemma settled_deployment_fixed:
  assumes "desired_deployment m d" and "settled_meta K m (d_meta d)" and "\<forall>s. k_spec_equal K s s"
  shows "mutate_deployment K m d = (None, d, False)"
proof -
  have "checkOwnership K ''*v1.Deployment'' m (d_meta d) = None"
    using assms(2) by (simp add: settled_meta_def checkOwnership_iff)
  with assms show ?thesis
    by (simp add: mutate_deployment_def desired_spec_fixed settled_meta_def)
qed

lemma settled_service_fixed:
  assumes "desired_service m s" and "settled_meta K m (s_meta s)"
  shows "mutate_service K m s = (None, s, False)"
proof -
  have "checkOwnership K ''*v1.Service'' m (s_meta s) = None"
    using assms(2) by (simp add: settled_meta_def checkOwnership_iff)
  moreover have "desired_ports m (s_ports s) = s_ports s"
    using assms(1) by (cases "s_ports s") (auto simp: desired_service_def desired_ports_def)
  ultimately show ?thesis
    using assms by (simp add: mutate_service_def settled_meta_def desired_service_def)
qed

definition settled_cluster :: "kube \<Rightarrow> MCPServer \<Rightarrow> cluster \<Rightarrow> Deployment \<Rightarrow> Service \<Rightarrow> bool" where
  "settled_cluster K m cl d s \<longleftrightarrow>
     map_of (cl_deployments cl) (NamespacedName (m_namespace m) (m_name m)) = Some d \<and>
     desired_deployment m d \<and> settled_meta K m (d_meta d) \<and>
     map_of (cl_services cl) (NamespacedName (m_namespace m) (serviceName (m_name m))) = Some s \<and>
     desired_service m s \<and> settled_meta K m (s_meta s)"

lemma quiet_lawD:
  assumes "quiet_law cou" and "cou st key ob f = (None, out, ch, st')"
    and "map_of st key = Some cur" and "f cur = (None, cur, c)"
  shows "out = cur \<and> map_of st' = map_of st"
  using assms(1)[unfolded quiet_law_def, rule_format, of st key cur f c ob] assms(2-4) by simp

text \<open>A pass over a settled cluster that returns no error.\<close>

lemma settled_pass:
  assumes K: "kube_law K" and L: "settling_law K" and get: "k_get K cl req = Got m"
    and live: "time_is_zero (m_deletion m)" and run: "Reconcile K req cl = (Returned None, cl')"
    and S: "settled_cluster K m cl d s"
  shows "map_of (cl_deployments cl') = map_of (cl_deployments cl) \<and>
    map_of (cl_services cl') = map_of (cl_services cl) \<and>
    (\<exists>r. deploymentReadiness d False = Some r \<and> map_of (cl_servers cl') req = Some (set_status K m r))"
proof -
  have laws: "patch_law K" "get_law K" "\<forall>s t. k_status_equal K s t \<longleftrightarrow> s = t" "\<forall>s. k_spec_equal K s s"
    "create_or_update_law kept_deployment (k_deployments K)"
    using K by (simp_all add: kube_law_def)
  have quiet: "quiet_law (k_deployments K)" "quiet_law (k_services K)" using L by (simp_all add: settling_law_def)
  from Reconcile_parts[OF get live run] obtain d' changed deps s' ch svcs r where
    D: "k_deployments K (cl_deployments cl) (NamespacedName (m_namespace m) (m_name m))
      (new_deployment m) (mutate_deployment K m) = (None, d', changed, deps)"
    and V: "k_services K (cl_services cl) (NamespacedName (m_namespace m) (serviceName (m_name m)))
      (new_service m) (mutate_service K m) = (None, s', ch, svcs)"
    and r: "deploymentReadiness d' changed = Some r"
    and upd: "updateStatus K m r (cl\<lparr>cl_deployments := deps, cl_services := svcs\<rparr>) = (None, cl')" by metis
  have md: "mutate_deployment K m d = (None, d, False)"
    using S laws(4) by (intro settled_deployment_fixed) (simp_all add: settled_cluster_def)
  have ms: "mutate_service K m s = (None, s, False)"
    using S by (intro settled_service_fixed) (simp_all add: settled_cluster_def)
  have d: "d' = d" "map_of deps = map_of (cl_deployments cl)"
    using quiet_lawD[OF quiet(1) D _ md] S by (simp_all add: settled_cluster_def)
  have s: "map_of svcs = map_of (cl_services cl)"
    using quiet_lawD[OF quiet(2) V _ ms] S by (simp add: settled_cluster_def)
  have "\<not> changed"
    using create_or_update_lawD[OF laws(5) D, of None d False] md S by (simp add: settled_cluster_def)
  with r d have "deploymentReadiness d False = Some r" by simp
  moreover have "map_of (cl_servers cl) req = Some m" "req = NamespacedName (m_namespace m) (m_name m)"
    using laws(2) get by (auto simp: get_law_def)
  then have "map_of (cl_servers cl') req = Some (set_status K m r)"
    using updateStatus_success[OF laws(1,3) _ upd] by simp
  ultimately show ?thesis
    using updateStatus_workloads[OF laws(1) upd] d s by simp
qed

section \<open>Reaching a settled cluster\<close>

text \<open>
  \<open>progressed cl cl'\<close>: what the cluster does to the workloads between two passes. It rolls the
  Deployment out and fills in the status; it does not change what was asked for, nor the
  owners, and it does not delete the objects.
\<close>

definition same_object :: "ObjectMeta \<Rightarrow> ObjectMeta \<Rightarrow> bool" where
  "same_object x y \<longleftrightarrow> kept_meta x y \<and> time_is_zero (om_deletion y)"

definition progressed :: "MCPServer \<Rightarrow> cluster \<Rightarrow> cluster \<Rightarrow> bool" where
  "progressed m cl cl' \<longleftrightarrow>
     (\<forall>d. map_of (cl_deployments cl) (NamespacedName (m_namespace m) (m_name m)) = Some d \<longrightarrow>
       (\<exists>d'. map_of (cl_deployments cl') (NamespacedName (m_namespace m) (m_name m)) = Some d' \<and>
          kept_deployment d d' \<and> same_object (d_meta d) (d_meta d'))) \<and>
     (\<forall>s. map_of (cl_services cl) (NamespacedName (m_namespace m) (serviceName (m_name m))) = Some s \<longrightarrow>
       (\<exists>s'. map_of (cl_services cl') (NamespacedName (m_namespace m) (serviceName (m_name m))) = Some s' \<and>
          kept_service s s' \<and> same_object (s_meta s) (s_meta s'))) \<and>
     map_of (cl_servers cl') (NamespacedName (m_namespace m) (m_name m))
       = map_of (cl_servers cl) (NamespacedName (m_namespace m) (m_name m))"

lemma owned_after_mutate:
  assumes "set_controller_law K" and "k_set_controller K m meta = Inr owners"
    and "om_owners meta' = owners" and "om_namespace meta' = om_namespace meta" and "time_is_zero (om_deletion meta')"
  shows "settled_meta K m meta'"
proof -
  from assms(1)[unfolded set_controller_law_def, rule_format, OF assms(2)]
  obtain r where "k_controller_of K owners = Some r" "controlled_by m r"
    and "k_set_controller K m meta' = Inr owners" using assms(3,4) by blast
  with assms(3,5) show ?thesis by (simp add: settled_meta_def foreign_def)
qed

lemma mutate_deployment_meta:
  "mutate_deployment K m d = (None, d', c) \<Longrightarrow>
     \<exists>owners. k_set_controller K m (d_meta d) = Inr owners \<and> d_meta d' = (d_meta d)\<lparr>om_owners := owners\<rparr>"
  by (auto simp: mutate_deployment_def Let_def split: option.splits sum.splits)

lemma mutate_service_meta:
  "mutate_service K m s = (None, s', c) \<Longrightarrow>
     \<exists>owners. k_set_controller K m (s_meta s) = Inr owners \<and> s_meta s' = (s_meta s)\<lparr>om_owners := owners\<rparr>"
  by (auto simp: mutate_service_def Let_def split: option.splits sum.splits)

lemma settled_meta_status: "settling_law K \<Longrightarrow> settled_meta K (set_status K m r) meta = settled_meta K m meta"
  by (simp add: settling_law_def settled_meta_def foreign_def controlled_by_def set_status_def split_beta)

lemma desired_status [simp]:
  "desired_deployment (set_status K m r) = desired_deployment m" "desired_service (set_status K m r) = desired_service m"
  by (simp_all add: fun_eq_iff desired_deployment_def desired_service_def desired_container_def)

text \<open>The objects a pass read, what it made of them, and what was stored.\<close>

definition current_deployment :: "MCPServer \<Rightarrow> cluster \<Rightarrow> Deployment" where
  "current_deployment m cl = (case map_of (cl_deployments cl) (NamespacedName (m_namespace m) (m_name m)) of
     None \<Rightarrow> new_deployment m | Some d \<Rightarrow> d)"

definition current_service :: "MCPServer \<Rightarrow> cluster \<Rightarrow> Service" where
  "current_service m cl = (case map_of (cl_services cl) (NamespacedName (m_namespace m) (serviceName (m_name m))) of
     None \<Rightarrow> new_service m | Some s \<Rightarrow> s)"

lemma successful_pass:
  assumes K: "kube_law K" and L: "settling_law K" and get: "k_get K cl req = Got m"
    and live: "time_is_zero (m_deletion m)" and run: "Reconcile K req cl = (Returned None, cl1)"
  obtains d nd changed s ns c r where
    "mutate_deployment K m (current_deployment m cl) = (None, nd, changed)" "kept_deployment nd d"
    "kept_meta (d_meta nd) (d_meta d)"
    "map_of (cl_deployments cl1) (NamespacedName (m_namespace m) (m_name m)) = Some d"
    "mutate_service K m (current_service m cl) = (None, ns, c)" "kept_service ns s"
    "kept_meta (s_meta ns) (s_meta s)"
    "map_of (cl_services cl1) (NamespacedName (m_namespace m) (serviceName (m_name m))) = Some s"
    "deploymentReadiness d changed = Some r" "map_of (cl_servers cl1) req = Some (set_status K m r)"
proof -
  have laws: "patch_law K" "get_law K" "\<forall>s t. k_status_equal K s t \<longleftrightarrow> s = t"
    "create_or_update_law (\<lambda>d d'. kept_deployment d d' \<and> kept_meta (d_meta d) (d_meta d')) (k_deployments K)"
    "create_or_update_law (\<lambda>s s'. kept_service s s' \<and> kept_meta (s_meta s) (s_meta s')) (k_services K)"
    using K L by (simp_all add: kube_law_def settling_law_def)
  from Reconcile_parts[OF get live run] obtain d changed deps s ch svcs r where
    D: "k_deployments K (cl_deployments cl) (NamespacedName (m_namespace m) (m_name m))
      (new_deployment m) (mutate_deployment K m) = (None, d, changed, deps)"
    and V: "k_services K (cl_services cl) (NamespacedName (m_namespace m) (serviceName (m_name m)))
      (new_service m) (mutate_service K m) = (None, s, ch, svcs)"
    and r: "deploymentReadiness d changed = Some r"
    and upd: "updateStatus K m r (cl\<lparr>cl_deployments := deps, cl_services := svcs\<rparr>) = (None, cl1)" by metis
  have cl1: "cl_deployments cl1 = deps" "cl_services cl1 = svcs"
    using updateStatus_workloads[OF laws(1) upd] by simp_all
  obtain e nd c0 where md0: "mutate_deployment K m (current_deployment m cl) = (e, nd, c0)" by (metis prod_cases3)
  from create_or_update_lawD[OF laws(4) D md0[unfolded current_deployment_def]]
  have md: "mutate_deployment K m (current_deployment m cl) = (None, nd, changed)"
    "kept_deployment nd d" "kept_meta (d_meta nd) (d_meta d)"
    "map_of deps (NamespacedName (m_namespace m) (m_name m)) = Some d" using md0 by simp_all
  obtain e' ns c where ms0: "mutate_service K m (current_service m cl) = (e', ns, c)" by (metis prod_cases3)
  from create_or_update_lawD[OF laws(5) V ms0[unfolded current_service_def]]
  have ms: "mutate_service K m (current_service m cl) = (None, ns, c)" "kept_service ns s"
    "kept_meta (s_meta ns) (s_meta s)"
    "map_of svcs (NamespacedName (m_namespace m) (serviceName (m_name m))) = Some s" using ms0 by simp_all
  have "map_of (cl_servers cl) req = Some m" "req = NamespacedName (m_namespace m) (m_name m)"
    using laws(2) get by (auto simp: get_law_def)
  then have "map_of (cl_servers cl1) req = Some (set_status K m r)"
    using updateStatus_success[OF laws(1,3) _ upd] by simp
  with md ms r cl1 show thesis using that by auto
qed

text \<open>What a pass leaves at a server's keys is the server's own, as the server wants it.\<close>

lemma pass_writes_own:
  assumes "set_controller_law K" and "mutate_deployment K m d0 = (None, nd, c)" and "kept_deployment nd d"
    and "kept_deployment d d'" and "kept_meta (d_meta nd) (d_meta d')" and "time_is_zero (om_deletion (d_meta d'))"
  shows "desired_deployment m d' \<and> settled_meta K m (d_meta d')"
proof
  show "desired_deployment m d'"
    using kept_desired[OF kept_desired[OF mutate_deployment_desired[OF assms(2)] assms(3)] assms(4)] .
  show "settled_meta K m (d_meta d')"
    using mutate_deployment_meta[OF assms(2)] assms(5,6)
    by (auto simp: kept_meta_def intro: owned_after_mutate[OF assms(1)])
qed

lemma pass_writes_own_service:
  assumes "set_controller_law K" and "mutate_service K m s0 = (None, ns, c)" and "kept_service ns s"
    and "kept_service s s'" and "kept_meta (s_meta ns) (s_meta s')" and "time_is_zero (om_deletion (s_meta s'))"
  shows "desired_service m s' \<and> settled_meta K m (s_meta s')"
proof
  show "desired_service m s'"
    using svc.keeps[OF svc.keeps[OF svc.reaches[OF assms(2)] assms(3)] assms(4)] .
  show "settled_meta K m (s_meta s')"
    using mutate_service_meta[OF assms(2)] assms(5,6)
    by (auto simp: kept_meta_def intro: owned_after_mutate[OF assms(1)])
qed

lemma pass_settles:
  assumes K: "kube_law K" and L: "settling_law K" and get: "k_get K cl req = Got m"
    and live: "time_is_zero (m_deletion m)" and run: "Reconcile K req cl = (Returned None, cl1)"
    and prog: "progressed m cl1 cl2"
  shows "\<exists>d s r. settled_cluster K m cl2 d s \<and> map_of (cl_servers cl2) req = Some (set_status K m r)"
proof -
  have sc: "set_controller_law K" using L by (simp add: settling_law_def)
  have req: "req = NamespacedName (m_namespace m) (m_name m)"
    using K get by (auto simp: kube_law_def get_law_def)
  from successful_pass[OF K L get live run] obtain d nd changed s ns c r where
    md: "mutate_deployment K m (current_deployment m cl) = (None, nd, changed)" "kept_deployment nd d"
      "kept_meta (d_meta nd) (d_meta d)" "map_of (cl_deployments cl1) (NamespacedName (m_namespace m) (m_name m)) = Some d"
    and ms: "mutate_service K m (current_service m cl) = (None, ns, c)" "kept_service ns s" "kept_meta (s_meta ns) (s_meta s)"
      "map_of (cl_services cl1) (NamespacedName (m_namespace m) (serviceName (m_name m))) = Some s"
    and stored: "map_of (cl_servers cl1) req = Some (set_status K m r)" by metis
  obtain d2 where d2: "map_of (cl_deployments cl2) (NamespacedName (m_namespace m) (m_name m)) = Some d2"
    "kept_deployment d d2" "same_object (d_meta d) (d_meta d2)"
    using prog md(4) by (auto simp: progressed_def)
  obtain s2 where s2: "map_of (cl_services cl2) (NamespacedName (m_namespace m) (serviceName (m_name m))) = Some s2"
    "kept_service s s2" "same_object (s_meta s) (s_meta s2)"
    using prog ms(4) by (auto simp: progressed_def)
  have "kept_meta (d_meta nd) (d_meta d2)" "kept_meta (s_meta ns) (s_meta s2)"
    using md(3) ms(3) d2(3) s2(3) by (simp_all add: kept_meta_def same_object_def)
  with pass_writes_own[OF sc md(1,2) d2(2)] pass_writes_own_service[OF sc ms(1,2) s2(2)] d2 s2
  have "settled_cluster K m cl2 d2 s2" by (simp add: settled_cluster_def same_object_def)
  moreover have "map_of (cl_servers cl2) req = Some (set_status K m r)"
    using prog stored req by (simp add: progressed_def)
  ultimately show ?thesis by blast
qed

text \<open>
  A pass that leaves an object and the status as it found them has found them as they should
  be.
\<close>

lemma found_in_order:
  assumes f: "condition_law f K" and refl: "\<forall>s. k_spec_equal K s s" and live: "time_is_zero (m_deletion m)"
    and dep: "mutate_deployment K m d = (None, nd, changed)" "kept_deployment nd d" "kept_meta (d_meta nd) (d_meta d)"
    and svc: "mutate_service K m s = (None, ns, c)" "kept_service ns s" "kept_meta (s_meta ns) (s_meta s)"
    and status: "deploymentReadiness d changed = Some r" "m = set_status K m r"
  shows "desired_deployment m d \<and> settled_meta K m (d_meta d) \<and> desired_service m s \<and> settled_meta K m (s_meta s) \<and>
    (IsReady f (Some m) \<longleftrightarrow> rolled_out d)"
proof -
  have desired: "desired_deployment m d" "desired_service m s"
    using kept_desired[OF mutate_deployment_desired[OF dep(1)] dep(2)] svc.keeps[OF svc.reaches[OF svc(1)] svc(2)] by blast+
  have meta: "settled_meta K m (d_meta d)" "settled_meta K m (s_meta s)"
    using dep(1,3) svc(1,3)
    by (auto simp: mutate_deployment_def mutate_service_def Let_def settled_meta_def checkOwnership_iff kept_meta_def
        split: option.splits sum.splits)
  have "\<not> changed" using settled_deployment_fixed[OF desired(1) meta(1) refl] dep(1) by simp
  obtain phase status reason message where p: "r = (phase, status, reason, message)" by (metis prod_cases4)
  have "IsReady f (Some m) \<longleftrightarrow> rolled_out d"
    using set_status_ready[OF f, of m phase status reason message] readiness_true_iff[OF status(1)[unfolded p]] live
      status(2) \<open>\<not> changed\<close> by (simp add: p)
  with desired meta show ?thesis by blast
qed

lemma settled_cluster_status:
  "settling_law K \<Longrightarrow> settled_cluster K (set_status K m r) cl d s = settled_cluster K m cl d s"
  by (simp add: settled_cluster_def settled_meta_status)

lemma second_pass:
  assumes K: "kube_law K" and L: "settling_law K" and f: "condition_law f K" and get: "k_get K cl req = Got m"
    and live: "time_is_zero (m_deletion m)" and run: "Reconcile K req cl = (Returned None, cl1)"
    and prog: "progressed m cl1 cl2" and get2: "k_get K cl2 req = Got m2"
    and run2: "Reconcile K req cl2 = (Returned None, cl3)"
  shows "map_of (cl_deployments cl3) = map_of (cl_deployments cl2) \<and>
    map_of (cl_services cl3) = map_of (cl_services cl2) \<and>
    (\<exists>d s m3. settled_cluster K m cl3 d s \<and> map_of (cl_servers cl3) req = Some m3 \<and>
       m_spec m3 = m_spec m \<and> m_namespace m3 = m_namespace m \<and> m_name m3 = m_name m \<and>
       (IsReady f (Some m3) \<longleftrightarrow> rolled_out d))"
proof -
  obtain d s r where S: "settled_cluster K m cl2 d s" "map_of (cl_servers cl2) req = Some (set_status K m r)"
    using pass_settles[OF K L get live run prog] by blast
  have "get_law K" using K by (simp add: kube_law_def)
  then have m2: "m2 = set_status K m r" using get2 S(2) by (auto simp: get_law_def)
  have live2: "time_is_zero (m_deletion m2)" and S2: "settled_cluster K m2 cl2 d s"
    using live S(1) by (simp_all add: m2 settled_cluster_status[OF L])
  from settled_pass[OF K L get2 live2 run2 S2] obtain r' where P:
    "map_of (cl_deployments cl3) = map_of (cl_deployments cl2)" "map_of (cl_services cl3) = map_of (cl_services cl2)"
    "deploymentReadiness d False = Some r'" "map_of (cl_servers cl3) req = Some (set_status K m2 r')" by blast
  obtain phase status reason message where r': "r' = (phase, status, reason, message)" by (metis prod_cases4)
  have "IsReady f (Some (set_status K m2 r')) \<longleftrightarrow> rolled_out d"
    using set_status_ready[OF f] readiness_true_iff[OF P(3)[unfolded r']] live2 by (simp add: r')
  moreover have "settled_cluster K m cl3 d s" using S(1) P(1,2) by (simp add: settled_cluster_def)
  ultimately show ?thesis using P by (auto simp: m2)
qed

text \<open>
  C16. Passes converge: after a pass without an error, and whatever the cluster then does to roll
  the workloads out, a second pass without an error writes nothing to Deployments and
  Services, finds them as the server wants them, and stores a status that is ready for the
  gateway exactly when the Deployment is rolled out.
\<close>

theorem second_pass_converges:
  assumes "kube_law K" and "settling_law K" and "condition_law f K" and "k_get K cl req = Got m"
    and "time_is_zero (m_deletion m)" and "Reconcile K req cl = (Returned None, cl1)"
    and "progressed m cl1 cl2" and "k_get K cl2 req = Got m2" and "Reconcile K req cl2 = (Returned None, cl3)"
  shows "map_of (cl_deployments cl3) = map_of (cl_deployments cl2) \<and>
    map_of (cl_services cl3) = map_of (cl_services cl2) \<and>
    (\<exists>d s m3. map_of (cl_deployments cl3) (NamespacedName (m_namespace m) (m_name m)) = Some d \<and>
       desired_deployment m d \<and>
       map_of (cl_services cl3) (NamespacedName (m_namespace m) (serviceName (m_name m))) = Some s \<and>
       desired_service m s \<and>
       map_of (cl_servers cl3) req = Some m3 \<and> m_spec m3 = m_spec m \<and> (IsReady f (Some m3) \<longleftrightarrow> rolled_out d))"
  using second_pass[OF assms] by (auto simp: settled_cluster_def)

section \<open>A rollout\<close>

text \<open>The deployment controller of a cluster in which every pod starts at once.\<close>

definition roll_out :: "Deployment \<Rightarrow> Deployment" where
  "roll_out d = (let n = (case ds_replicas (d_spec d) of None \<Rightarrow> 0 | Some n \<Rightarrow> n) in
     d\<lparr>d_status := \<lparr>dst_observed = om_generation (d_meta d), dst_replicas = n, dst_updated = n, dst_ready = n,
       dst_available = n, dst_conditions = []\<rparr>\<rparr>)"

definition sample_rollout :: "cluster \<Rightarrow> cluster" where
  "sample_rollout cl = cl\<lparr>cl_deployments := map (\<lambda>(k, d). (k, roll_out d)) (cl_deployments cl)\<rparr>"

lemma simple_settling_law: "settling_law simple_kube"
proof -
  have "create_or_update_law (\<lambda>d d'. kept_deployment d d' \<and> kept_meta (d_meta d) (d_meta d')) simple_create_or_update"
    "create_or_update_law (\<lambda>s s'. kept_service s s' \<and> kept_meta (s_meta s) (s_meta s')) simple_create_or_update"
    by (rule simple_create_or_update_law, simp add: kept_deployment_def kept_service_def kept_meta_def)+
  moreover have "quiet_law (simple_create_or_update :: Deployment create_or_update)"
    "quiet_law (simple_create_or_update :: Service create_or_update)"
    by (auto simp: quiet_law_def simple_create_or_update_def update_present)
  ultimately show ?thesis
    using simple_controller_law
    by (simp add: settling_law_def simple_kube_def simple_set_controller_def owner_reference_def
        controlled_by_def fun_eq_iff cong: option.case_cong)
qed

definition first_cluster :: cluster where
  "first_cluster = snd (Reconcile simple_kube sample_key sample_cluster)"

definition second_cluster :: cluster where
  "second_cluster = snd (Reconcile simple_kube sample_key (sample_rollout first_cluster))"

definition sample_pending :: MCPServer where
  "sample_pending = the (map_of (cl_servers first_cluster) sample_key)"

lemma sample_passes:
  "Reconcile simple_kube sample_key sample_cluster = (Returned None, first_cluster)"
  "Reconcile simple_kube sample_key (sample_rollout first_cluster) = (Returned None, second_cluster)"
  "k_get simple_kube (sample_rollout first_cluster) sample_key = Got sample_pending"
proof -
  have "fst (Reconcile simple_kube sample_key sample_cluster) = Returned None"
    "fst (Reconcile simple_kube sample_key (sample_rollout first_cluster)) = Returned None" by code_simp+
  then show "Reconcile simple_kube sample_key sample_cluster = (Returned None, first_cluster)"
    "Reconcile simple_kube sample_key (sample_rollout first_cluster) = (Returned None, second_cluster)"
    unfolding first_cluster_def second_cluster_def by (metis prod.collapse)+
  show "k_get simple_kube (sample_rollout first_cluster) sample_key = Got sample_pending" by code_simp
qed

lemma sample_progressed: "progressed sample_server first_cluster (sample_rollout first_cluster)"
proof -
  have dead: "list_all (\<lambda>(k, d). time_is_zero (om_deletion (d_meta d))) (cl_deployments first_cluster)"
    "list_all (\<lambda>(k, s). time_is_zero (om_deletion (s_meta s))) (cl_services first_cluster)" by code_simp+
  have "map_of (map (\<lambda>(k, d). (k, roll_out d)) m) k = map_option roll_out (map_of m k)" for m :: "(NamespacedName, Deployment) gomap" and k
    by (induction m) auto
  with dead show ?thesis
    by (auto simp: progressed_def sample_rollout_def roll_out_def Let_def kept_deployment_def kept_service_def
        same_object_def kept_meta_def list_all_iff dest: map_of_SomeD)
qed

theorem second_pass_converges_witness:
  "map_of (cl_deployments second_cluster) = map_of (cl_deployments (sample_rollout first_cluster)) \<and>
   (\<exists>d m3. desired_deployment sample_server d \<and> map_of (cl_servers second_cluster) sample_key = Some m3 \<and>
      (IsReady first_condition (Some m3) \<longleftrightarrow> rolled_out d))"
  using second_pass_converges[OF simple_kube_law simple_settling_law simple_condition_law sample_got(1)
      sample_live sample_passes(1) sample_progressed sample_passes(3) sample_passes(2)] by blast

end
