(* ===== verification/Watches.thy ===== *)
theory Watches
  imports Convergence
begin

text \<open>
  \<^verbatim>\<open>SetupWithManager\<close> of \<^verbatim>\<open>internal/controller/mcpserver_controller.go\<close> and what it is for: which
  changes of the watched objects become requests for the reconciler, and what a pass does
  whose reads come from caches that lag behind the API server. What is used of
  controller-runtime is documented there: the cache of a kind delivers the old and the new
  object of every change as it takes the change over, \<^verbatim>\<open>For\<close> asks for the object itself, and
  \<^verbatim>\<open>Owns\<close> for its controlling owner.
\<close>

section \<open>The watches\<close>

datatype object_kind = MCPServerKind | DeploymentKind | ServiceKind

record controller_setup =
  watch_for :: object_kind
  watch_owns :: "object_kind list"

definition SetupWithManager :: controller_setup where
  "SetupWithManager = \<lparr>watch_for = MCPServerKind, watch_owns = [DeploymentKind, ServiceKind]\<rparr>"

text \<open>The group of an API version, empty for the core group.\<close>

definition api_group :: "string \<Rightarrow> string" where
  "api_group version = (if CHR ''/'' \<in> set version then takeWhile (\<lambda>c. c \<noteq> CHR ''/'') version else [])"

definition owner_requests :: "kube \<Rightarrow> ObjectMeta \<Rightarrow> NamespacedName list" where
  "owner_requests K meta =
     (case k_controller_of K (om_owners meta) of
        None \<Rightarrow> []
      | Some r \<Rightarrow>
          if or_kind r = ''MCPServer'' \<and> api_group (or_api_version r) = api_group GroupVersion
          then [NamespacedName (om_namespace meta) (or_name r)] else [])"

datatype watch_event = ServerEvent MCPServer | DeploymentEvent Deployment | ServiceEvent Service

fun event_requests :: "kube \<Rightarrow> controller_setup \<Rightarrow> watch_event \<Rightarrow> NamespacedName list" where
  "event_requests K W (ServerEvent m) =
     (if watch_for W = MCPServerKind then [NamespacedName (m_namespace m) (m_name m)] else [])"
| "event_requests K W (DeploymentEvent d) =
     (if DeploymentKind \<in> set (watch_owns W) then owner_requests K (d_meta d) else [])"
| "event_requests K W (ServiceEvent s) =
     (if ServiceKind \<in> set (watch_owns W) then owner_requests K (s_meta s) else [])"

text \<open>The old and the new objects of the keys at which two stores differ.\<close>

definition changed_objects :: "(NamespacedName, 'o) gomap \<Rightarrow> (NamespacedName, 'o) gomap \<Rightarrow> 'o list" where
  "changed_objects old new =
     List.map_filter (map_of old) (filter (\<lambda>k. map_of old k \<noteq> map_of new k) (map fst old)) @
     List.map_filter (map_of new) (filter (\<lambda>k. map_of old k \<noteq> map_of new k) (map fst new))"

lemma changed_objects_iff:
  "x \<in> set (changed_objects old new) \<longleftrightarrow>
     (\<exists>k. map_of old k \<noteq> map_of new k \<and> (map_of old k = Some x \<or> map_of new k = Some x))"
  by (force simp: changed_objects_def map_filter_def image_iff dest: map_of_SomeD)

fun kind_events :: "object_kind \<Rightarrow> cluster \<Rightarrow> cluster \<Rightarrow> watch_event list" where
  "kind_events MCPServerKind cl cl' = map ServerEvent (changed_objects (cl_servers cl) (cl_servers cl'))"
| "kind_events DeploymentKind cl cl' = map DeploymentEvent (changed_objects (cl_deployments cl) (cl_deployments cl'))"
| "kind_events ServiceKind cl cl' = map ServiceEvent (changed_objects (cl_services cl) (cl_services cl'))"

section \<open>Passes on a cache\<close>

text \<open>
  The client of a manager reads from the caches and writes to the server: \<open>ca_get\<close> answers
  from the cached servers, and \<^verbatim>\<open>CreateOrUpdate\<close> gets a cached store beside the stored one.
\<close>

record cached_api =
  ca_get :: "cluster \<Rightarrow> NamespacedName \<Rightarrow> get_result"
  ca_deployments :: "(NamespacedName, Deployment) gomap \<Rightarrow> Deployment create_or_update"
  ca_services :: "(NamespacedName, Service) gomap \<Rightarrow> Service create_or_update"

definition with_cache :: "kube \<Rightarrow> cached_api \<Rightarrow> cluster \<Rightarrow> kube" where
  "with_cache K A cache = K\<lparr>k_get := \<lambda>cl. ca_get A cache, k_deployments := ca_deployments A (cl_deployments cache),
     k_services := ca_services A (cl_services cache)\<rparr>"

text \<open>
  Nothing is written when the pass would leave the cached object as it is; otherwise the write
  carries the resource version of the cached object, so it succeeds only if that is the
  object that is stored (or none is, for a create), and on failure nothing is written.
\<close>

definition cached_write_law :: "('o \<Rightarrow> 'o \<Rightarrow> bool) \<Rightarrow> ((NamespacedName, 'o) gomap \<Rightarrow> 'o create_or_update) \<Rightarrow> bool" where
  "cached_write_law kept cou \<longleftrightarrow> (\<forall>cache st key obj f. case cou cache st key obj f of (err, out, changed, st') \<Rightarrow>
     (\<forall>k. k \<noteq> key \<longrightarrow> map_of st' k = map_of st k) \<and>
     (case f (case map_of cache key of None \<Rightarrow> obj | Some cur \<Rightarrow> cur) of (e, new, c) \<Rightarrow>
        (err \<noteq> None \<and> map_of st' key = map_of st key)
        \<or> (err = None \<and> e = None \<and> changed = c \<and> kept new out \<and>
            (map_of cache key = Some out \<and> map_of st' key = map_of st key
             \<or> map_of cache key = map_of st key \<and> map_of st' key = Some out))))"

definition cached_law :: "kube \<Rightarrow> cached_api \<Rightarrow> bool" where
  "cached_law K A \<longleftrightarrow>
     cached_write_law (\<lambda>d d'. kept_deployment d d' \<and> kept_meta (d_meta d) (d_meta d')) (ca_deployments A) \<and>
     cached_write_law (\<lambda>s s'. kept_service s s' \<and> kept_meta (s_meta s) (s_meta s')) (ca_services A) \<and>
     (\<forall>cache req m. ca_get A cache req = Got m \<longrightarrow> map_of (cl_servers cache) req = Some m \<and> req = item_key m) \<and>
     (\<forall>cache req. ca_get A cache req = NotFound \<longrightarrow> map_of (cl_servers cache) req = None) \<and>
     patch_law K \<and> set_controller_law K \<and>
     (\<forall>cl before m cl'. k_patch_status K cl before m = (None, cl') \<longrightarrow> map_of (cl_servers cl) (item_key before) = Some before) \<and>
     (\<forall>s t. k_status_equal K s t \<longleftrightarrow> s = t) \<and> (\<forall>s. k_spec_equal K s s)"

lemma with_cache_simps [simp]:
  "k_get (with_cache K A cache) cl = ca_get A cache"
  "k_deployments (with_cache K A cache) = ca_deployments A (cl_deployments cache)"
  "k_services (with_cache K A cache) = ca_services A (cl_services cache)"
  "k_patch_status (with_cache K A cache) = k_patch_status K"
  "k_set_condition (with_cache K A cache) = k_set_condition K"
  "k_controller_of (with_cache K A cache) = k_controller_of K"
  "k_set_controller (with_cache K A cache) = k_set_controller K"
  "k_spec_equal (with_cache K A cache) = k_spec_equal K"
  "k_status_equal (with_cache K A cache) = k_status_equal K"
  by (simp_all add: with_cache_def)

lemma with_cache_ownership [simp]: "checkOwnership (with_cache K A cache) = checkOwnership K"
  by (intro ext) (simp only: checkOwnership_def with_cache_simps)

lemma with_cache_pure [simp]:
  "mutate_deployment (with_cache K A cache) = mutate_deployment K"
  "mutate_service (with_cache K A cache) = mutate_service K"
  "set_status (with_cache K A cache) = set_status K"
  "updateStatus (with_cache K A cache) = updateStatus K"
  "foreign (with_cache K A cache) = foreign K"
  "patch_law (with_cache K A cache) = patch_law K"
  by ((intro ext, simp only: mutate_deployment_def mutate_service_def set_status_def updateStatus_def foreign_def
      with_cache_simps with_cache_ownership)+, simp add: patch_law_def)

lemma cached_write_lawD:
  assumes "cached_write_law kept cou" and "cou cache st key ob f = (err, out, ch, st')"
    and "f (case map_of cache key of None \<Rightarrow> ob | Some cur \<Rightarrow> cur) = (e, new, c)"
  shows "(\<forall>k. k \<noteq> key \<longrightarrow> map_of st' k = map_of st k) \<and>
    (err \<noteq> None \<and> map_of st' key = map_of st key
     \<or> err = None \<and> e = None \<and> ch = c \<and> kept new out \<and>
        (map_of cache key = Some out \<and> map_of st' key = map_of st key
         \<or> map_of cache key = map_of st key \<and> map_of st' key = Some out))"
  using assms(1)[unfolded cached_write_law_def, THEN spec, of cache, THEN spec, of st, THEN spec, of key,
      THEN spec, of ob, THEN spec, of f] assms(2,3) by simp

lemma cached_write_changed:
  assumes "cached_write_law kept cou" and "cou cache st key ob f = (err, out, ch, st')"
    and "f (case map_of cache key of None \<Rightarrow> ob | Some cur \<Rightarrow> cur) = (e, new, c)" and "map_of st' k \<noteq> map_of st k"
  shows "k = key \<and> e = None \<and> map_of cache key = map_of st key"
  using cached_write_lawD[OF assms(1-3)] assms(4) by (cases "k = key") auto

text \<open>An API server keeps an object under its own namespace.\<close>

definition namespaced :: "cluster \<Rightarrow> bool" where
  "namespaced cl \<longleftrightarrow>
     (\<forall>k d. map_of (cl_deployments cl) k = Some d \<longrightarrow> om_namespace (d_meta d) = nn_namespace k) \<and>
     (\<forall>k s. map_of (cl_services cl) k = Some s \<longrightarrow> om_namespace (s_meta s) = nn_namespace k)"

section \<open>No change of a watched object is missed\<close>

abbreviation asks :: "kube \<Rightarrow> MCPServer \<Rightarrow> watch_event list \<Rightarrow> bool" where
  "asks K m events \<equiv> \<exists>ev \<in> set events. item_key m \<in> set (event_requests K SetupWithManager ev)"

lemma unasked_server:
  assumes "\<not> asks K m (kind_events MCPServerKind cl cl')" and "map_of (cl_servers cl') key = Some m"
  shows "map_of (cl_servers cl) key = Some m"
proof (rule ccontr)
  assume "map_of (cl_servers cl) key \<noteq> Some m"
  with assms(2) have "ServerEvent m \<in> set (kind_events MCPServerKind cl cl')"
    by (auto simp: changed_objects_iff image_iff intro!: exI[of _ key])
  moreover have "item_key m \<in> set (event_requests K SetupWithManager (ServerEvent m))"
    by (simp add: SetupWithManager_def item_key_def)
  ultimately show False using assms(1) by blast
qed

text \<open>An object under a server's namespace that carries its controller reference.\<close>

definition owned_meta :: "kube \<Rightarrow> MCPServer \<Rightarrow> ObjectMeta \<Rightarrow> bool" where
  "owned_meta K m meta \<longleftrightarrow> om_namespace meta = m_namespace m \<and>
     (\<exists>r. k_controller_of K (om_owners meta) = Some r \<and> controlled_by m r)"

lemma owned_requests: "owned_meta K m meta \<Longrightarrow> owner_requests K meta = [item_key m]"
  by (auto simp: owned_meta_def owner_requests_def controlled_by_def item_key_def)

lemma unasked_deployment:
  assumes "\<not> asks K m (kind_events DeploymentKind cl cl')" and "owned_meta K m (d_meta d)"
    and "map_of (cl_deployments cl) key = Some d \<or> map_of (cl_deployments cl') key = Some d"
  shows "map_of (cl_deployments cl') key = map_of (cl_deployments cl) key"
proof (rule ccontr)
  assume "map_of (cl_deployments cl') key \<noteq> map_of (cl_deployments cl) key"
  with assms(3) have "DeploymentEvent d \<in> set (kind_events DeploymentKind cl cl')"
    by (auto simp: changed_objects_iff image_iff intro!: exI[of _ key])
  moreover have "item_key m \<in> set (event_requests K SetupWithManager (DeploymentEvent d))"
    by (simp add: SetupWithManager_def owned_requests[OF assms(2)])
  ultimately show False using assms(1) by blast
qed

lemma unasked_service:
  assumes "\<not> asks K m (kind_events ServiceKind cl cl')" and "owned_meta K m (s_meta s)"
    and "map_of (cl_services cl) key = Some s \<or> map_of (cl_services cl') key = Some s"
  shows "map_of (cl_services cl') key = map_of (cl_services cl) key"
proof (rule ccontr)
  assume "map_of (cl_services cl') key \<noteq> map_of (cl_services cl) key"
  with assms(3) have "ServiceEvent s \<in> set (kind_events ServiceKind cl cl')"
    by (auto simp: changed_objects_iff image_iff intro!: exI[of _ key])
  moreover have "item_key m \<in> set (event_requests K SetupWithManager (ServiceEvent s))"
    by (simp add: SetupWithManager_def owned_requests[OF assms(2)])
  ultimately show False using assms(1) by blast
qed

lemma settled_meta_owned:
  assumes "set_controller_law K" and "settled_meta K m meta" and "om_namespace meta = m_namespace m"
  shows "owned_meta K m meta"
  using assms(1)[unfolded set_controller_law_def, rule_format, of m meta "om_owners meta"] assms(2,3)
  by (auto simp: settled_meta_def owned_meta_def)

text \<open>What the mutate functions write is owned by the server.\<close>

lemma mutated_owned:
  assumes "set_controller_law K" and "k_set_controller K m meta = Inr owners" and "om_owners meta' = owners"
    and "om_namespace meta' = om_namespace meta" and "om_namespace meta = m_namespace m"
  shows "owned_meta K m meta'"
  using assms(1)[unfolded set_controller_law_def, rule_format, OF assms(2)] assms(3-5) by (auto simp: owned_meta_def)

lemma current_namespace:
  assumes "namespaced cl"
  shows "om_namespace (d_meta (current_deployment m cl)) = m_namespace m"
    and "om_namespace (s_meta (current_service m cl)) = m_namespace m"
  using assms by (auto simp: current_deployment_def current_service_def namespaced_def new_deployment_def
      new_service_def new_meta_def split: option.split)

section \<open>A cluster whose API keeps these laws\<close>

definition simple_cached_write :: "(NamespacedName, 'o) gomap \<Rightarrow> 'o create_or_update" where
  "simple_cached_write cache st key ob f =
     (case f (case map_of cache key of None \<Rightarrow> ob | Some cur \<Rightarrow> cur) of (e, new, c) \<Rightarrow>
        (case e of
           Some err \<Rightarrow> (Some err, new, c, st)
         | None \<Rightarrow>
             if map_of cache key = Some new then (None, new, c, st)
             else if map_of cache key = map_of st key then (None, new, c, AList.update key new st)
             else (Some ''conflict'', new, c, st)))"

definition locking_patch :: "cluster \<Rightarrow> MCPServer \<Rightarrow> MCPServer \<Rightarrow> string option \<times> cluster" where
  "locking_patch cl before m =
     (if map_of (cl_servers cl) (item_key before) = Some before then simple_patch cl before m
      else (Some ''conflict'', cl))"

definition simple_cached_kube :: kube where
  "simple_cached_kube = simple_kube\<lparr>k_patch_status := locking_patch\<rparr>"

definition simple_cached_api :: cached_api where
  "simple_cached_api = \<lparr>ca_get = simple_get, ca_deployments = simple_cached_write, ca_services = simple_cached_write\<rparr>"

lemma simple_cached_write_law:
  fixes kept :: "'a \<Rightarrow> 'a \<Rightarrow> bool"
  assumes "\<And>x. kept x x"
  shows "cached_write_law kept simple_cached_write"
  unfolding cached_write_law_def
proof (intro allI)
  fix cache st :: "(NamespacedName, 'a) gomap" and key ob and f :: "'a mutate_fn"
  obtain e new c where f: "f (case map_of cache key of None \<Rightarrow> ob | Some cur \<Rightarrow> cur) = (e, new, c)"
    by (metis prod_cases3)
  show "case simple_cached_write cache st key ob f of (err, out, changed, st') \<Rightarrow>
     (\<forall>k. k \<noteq> key \<longrightarrow> map_of st' k = map_of st k) \<and>
     (case f (case map_of cache key of None \<Rightarrow> ob | Some cur \<Rightarrow> cur) of (e, new, c) \<Rightarrow>
        (err \<noteq> None \<and> map_of st' key = map_of st key)
        \<or> (err = None \<and> e = None \<and> changed = c \<and> kept new out \<and>
            (map_of cache key = Some out \<and> map_of st' key = map_of st key
             \<or> map_of cache key = map_of st key \<and> map_of st' key = Some out)))"
    by (cases e) (simp_all add: simple_cached_write_def f assms update_conv')
qed

lemma simple_cached_law: "cached_law simple_cached_kube simple_cached_api"
proof -
  have "cached_write_law (\<lambda>d d'. kept_deployment d d' \<and> kept_meta (d_meta d) (d_meta d')) simple_cached_write"
    "cached_write_law (\<lambda>s s'. kept_service s s' \<and> kept_meta (s_meta s) (s_meta s')) simple_cached_write"
    by (rule simple_cached_write_law, simp add: kept_deployment_def kept_service_def kept_meta_def)+
  moreover have parts: "k_set_controller simple_cached_kube = k_set_controller simple_kube"
    "k_controller_of simple_cached_kube = k_controller_of simple_kube" by (simp_all add: simple_cached_kube_def)
  have "set_controller_law simple_cached_kube"
    unfolding set_controller_law_def parts by (rule simple_controller_law[unfolded set_controller_law_def])
  moreover have "patch_law simple_cached_kube"
    by (auto simp: patch_law_def simple_cached_kube_def locking_patch_def simple_patch_def update_conv')
  ultimately show ?thesis
    by (auto simp: cached_law_def simple_cached_api_def simple_cached_kube_def simple_kube_def simple_get_def
        locking_patch_def item_key_def split: option.splits if_splits)
qed

lemma simple_cached_condition: "condition_law first_condition simple_cached_kube"
  using simple_condition_law by (simp add: condition_law_def simple_cached_kube_def)

section \<open>A lagging cache harms nobody\<close>

lemma deployment_write_spares:
  assumes "cached_law K A" and old: "map_of (cl_deployments cl) k = Some d"
    and other: "k \<noteq> NamespacedName (m_namespace m) (m_name m) \<or> foreign K m (d_meta d)"
  shows "map_of (cl_deployments (snd (reconcileDeployment (with_cache K A seen) m cl))) k = Some d"
proof (rule ccontr)
  assume ch: "map_of (cl_deployments (snd (reconcileDeployment (with_cache K A seen) m cl))) k \<noteq> Some d"
  have law: "cached_write_law (\<lambda>d d'. kept_deployment d d' \<and> kept_meta (d_meta d) (d_meta d')) (ca_deployments A)"
    using assms(1) by (simp add: cached_law_def)
  obtain err d' changed deps where D: "ca_deployments A (cl_deployments seen) (cl_deployments cl)
      (NamespacedName (m_namespace m) (m_name m)) (new_deployment m) (mutate_deployment K m) = (err, d', changed, deps)"
    by (metis prod_cases4)
  obtain e nd c where md: "mutate_deployment K m (current_deployment m seen) = (e, nd, c)" by (metis prod_cases3)
  from cached_write_changed[OF law D md[unfolded current_deployment_def], of k] ch old other D
  have "foreign K m (d_meta d)" "map_of (cl_deployments seen) k = Some d" "e = None"
    "k = NamespacedName (m_namespace m) (m_name m)" by (simp_all add: reconcileDeployment_def)
  with md foreign_refused[of K m "d_meta d" "''*v1.Deployment''"] show False
    by (auto simp: current_deployment_def mutate_deployment_def)
qed

lemma service_write_spares:
  assumes "cached_law K A" and old: "map_of (cl_services cl) k = Some s"
    and other: "k \<noteq> NamespacedName (m_namespace m) (serviceName (m_name m)) \<or> foreign K m (s_meta s)"
  shows "map_of (cl_services (snd (reconcileService (with_cache K A seen) m cl))) k = Some s"
proof (rule ccontr)
  assume ch: "map_of (cl_services (snd (reconcileService (with_cache K A seen) m cl))) k \<noteq> Some s"
  have law: "cached_write_law (\<lambda>s s'. kept_service s s' \<and> kept_meta (s_meta s) (s_meta s')) (ca_services A)"
    using assms(1) by (simp add: cached_law_def)
  obtain err s' c' svcs where S: "ca_services A (cl_services seen) (cl_services cl)
      (NamespacedName (m_namespace m) (serviceName (m_name m))) (new_service m) (mutate_service K m) = (err, s', c', svcs)"
    by (metis prod_cases4)
  obtain e ns c where ms: "mutate_service K m (current_service m seen) = (e, ns, c)" by (metis prod_cases3)
  from cached_write_changed[OF law S ms[unfolded current_service_def], of k] ch old other S
  have "foreign K m (s_meta s)" "map_of (cl_services seen) k = Some s" "e = None"
    "k = NamespacedName (m_namespace m) (serviceName (m_name m))" by (simp_all add: reconcileService_def)
  with ms foreign_refused[of K m "s_meta s" "''*v1.Service''"] show False
    by (auto simp: current_service_def mutate_service_def)
qed

text \<open>
  The controller never touches a workload that is not its own, however stale its caches are:
  whatever a pass returns, every Deployment and Service that the server stores under another
  name, and every one under the name of the \<^verbatim>\<open>MCPServer\<close> that another object controls, that
  nobody controls, or that is being deleted, is exactly as it was.
\<close>

theorem stale_pass_spares_foreign_objects:
  assumes "cached_law K A" and "ca_get A cache req = Got m"
  shows "(\<forall>k d. map_of (cl_deployments cl) k = Some d \<and>
        (k \<noteq> NamespacedName (m_namespace m) (m_name m) \<or> foreign K m (d_meta d)) \<longrightarrow>
        map_of (cl_deployments (snd (Reconcile (with_cache K A cache) req cl))) k = Some d)
    \<and> (\<forall>k s. map_of (cl_services cl) k = Some s \<and>
        (k \<noteq> NamespacedName (m_namespace m) (serviceName (m_name m)) \<or> foreign K m (s_meta s)) \<longrightarrow>
        map_of (cl_services (snd (Reconcile (with_cache K A cache) req cl))) k = Some s)"
proof -
  have law: "patch_law (with_cache K A cache)" using assms(1) by (simp add: cached_law_def)
  obtain err d' changed deps where D: "ca_deployments A (cl_deployments cache) (cl_deployments cl)
      (NamespacedName (m_namespace m) (m_name m)) (new_deployment m) (mutate_deployment K m) = (err, d', changed, deps)"
    by (metis prod_cases4)
  obtain serr s' ch svcs where S: "ca_services A (cl_services cache) (cl_services cl)
      (NamespacedName (m_namespace m) (serviceName (m_name m))) (new_service m) (mutate_service K m) = (serr, s', ch, svcs)"
    by (metis prod_cases4)
  have final: "(cl_deployments (snd (Reconcile (with_cache K A cache) req cl)), cl_services (snd (Reconcile (with_cache K A cache) req cl)))
      \<in> {(cl_deployments cl, cl_services cl), (deps, cl_services cl), (deps, svcs)}"
    using assms(2) D S by (intro Reconcile_stores[OF law, of cl req m err d' changed deps serr s' ch svcs]) simp_all
  have "cl_deployments (snd (reconcileDeployment (with_cache K A cache) m cl)) = deps"
    "cl_services (snd (reconcileService (with_cache K A cache) m cl)) = svcs"
    using D S by (simp_all add: reconcileDeployment_def reconcileService_def)
  with deployment_write_spares[OF assms(1), of cl _ _ m cache] service_write_spares[OF assms(1), of cl _ _ m cache]
  have "\<forall>k d. map_of (cl_deployments cl) k = Some d \<and>
      (k \<noteq> NamespacedName (m_namespace m) (m_name m) \<or> foreign K m (d_meta d)) \<longrightarrow> map_of deps k = Some d"
    "\<forall>k s. map_of (cl_services cl) k = Some s \<and>
      (k \<noteq> NamespacedName (m_namespace m) (serviceName (m_name m)) \<or> foreign K m (s_meta s)) \<longrightarrow> map_of svcs k = Some s"
    by simp_all
  with final show ?thesis by auto
qed

text \<open>The cache has not seen the foreign Deployment under the server's name.\<close>

theorem stale_pass_spares_foreign_objects_witness:
  "map_of (cl_deployments (snd (Reconcile (with_cache simple_cached_kube simple_cached_api sample_cluster) sample_key
     taken_cluster))) sample_key = Some taken_deployment"
proof -
  have "ca_get simple_cached_api sample_cluster sample_key = Got sample_server"
    using sample_got(1) by (simp add: simple_cached_api_def simple_kube_def)
  moreover have "map_of (cl_deployments taken_cluster) sample_key = Some taken_deployment"
    by (simp add: taken_cluster_def)
  moreover have "foreign simple_cached_kube sample_server (d_meta taken_deployment)"
    using taken_foreign by (simp add: foreign_def simple_cached_kube_def)
  ultimately show ?thesis
    using stale_pass_spares_foreign_objects[OF simple_cached_law, of sample_cluster sample_key sample_server taken_cluster]
    by blast
qed

end
