(* ===== verification/Manager.thy ===== *)
theory Manager
  imports Watches
begin

text \<open>
  The loop of the manager, with the passes of the reconciler as steps of their own. The model
  has the states that the API server goes through, a cache of each watched kind that follows
  them at its own pace, a queue of requests, and one worker (the code does not raise
  controller-runtime's default) whose pass reads the caches and writes to the server between
  the changes of everybody else. A request that is taken leaves the queue, so that what
  happens during its pass can ask for it again; a pass that fails or panics is queued again.
\<close>

section \<open>A pass step by step\<close>

text \<open>
  Where a pass has got to: what it has read, and what it does next. \<^verbatim>\<open>CreateOrUpdate\<close> is two
  steps, the read of the cached object and the write to the server. \<open>StatusNext\<close> holds the
  readiness to write and the error that the pass has met before.
\<close>

datatype stage =
    Reading
  | DeploymentNext MCPServer
  | DeploymentRead MCPServer cluster
  | ServiceNext MCPServer Deployment bool
  | ServiceRead MCPServer Deployment bool cluster
  | StatusNext MCPServer readiness "string option"
  | Ended outcome

fun pass_step :: "kube \<Rightarrow> cached_api \<Rightarrow> NamespacedName \<Rightarrow> cluster \<Rightarrow> stage \<Rightarrow> cluster \<Rightarrow> stage \<times> cluster" where
  "pass_step K A key cache Reading cl =
     ((case ca_get A cache key of
         NotFound \<Rightarrow> Ended (Returned None)
       | GetFailed err \<Rightarrow> Ended (Returned (Some err))
       | Got m \<Rightarrow>
           if \<not> time_is_zero (m_deletion m) then
             StatusNext m (''Pending'', ConditionFalse, ''Deleting'', ''MCPServer is being deleted'') None
           else DeploymentNext m), cl)"
| "pass_step K A key cache (DeploymentNext m) cl = (DeploymentRead m cache, cl)"
| "pass_step K A key cache (DeploymentRead m seen) cl =
     (let ((dep, changed, err), cl1) = reconcileDeployment (with_cache K A seen) m cl in
      ((case err of
          Some er \<Rightarrow> StatusNext m (''Failed'', ConditionFalse, ''ReconcileError'', er) (Some er)
        | None \<Rightarrow> ServiceNext m dep changed), cl1))"
| "pass_step K A key cache (ServiceNext m dep changed) cl = (ServiceRead m dep changed cache, cl)"
| "pass_step K A key cache (ServiceRead m dep changed seen) cl =
     (let (serr, cl2) = reconcileService (with_cache K A seen) m cl in
      ((case serr of
          Some er \<Rightarrow> StatusNext m (''Failed'', ConditionFalse, ''ReconcileError'', er) (Some er)
        | None \<Rightarrow>
            (case deploymentReadiness dep changed of
               None \<Rightarrow> Ended Panicked
             | Some r \<Rightarrow> StatusNext m r None)), cl2))"
| "pass_step K A key cache (StatusNext m r err) cl =
     (let (e, cl3) = updateStatus K m r cl in
      (Ended (Returned (case err of None \<Rightarrow> e | Some er \<Rightarrow> Some (errors_Join er e))), cl3))"
| "pass_step K A key cache (Ended out) cl = (Ended out, cl)"

fun writes :: "stage \<Rightarrow> bool" where
  "writes (DeploymentRead m seen) = True"
| "writes (ServiceRead m dep changed seen) = True"
| "writes (StatusNext m r err) = True"
| "writes _ = False"

lemma reads_write_nothing: "\<not> writes stage \<Longrightarrow> snd (pass_step K A key cache stage cl) = cl"
  by (cases stage) simp_all

text \<open>A pass that nobody disturbs is \<^verbatim>\<open>Reconcile\<close>.\<close>

fun pass_steps :: "nat \<Rightarrow> kube \<Rightarrow> cached_api \<Rightarrow> NamespacedName \<Rightarrow> cluster \<Rightarrow> stage \<Rightarrow> cluster \<Rightarrow> stage \<times> cluster" where
  "pass_steps 0 K A key cache stage cl = (stage, cl)"
| "pass_steps (Suc n) K A key cache stage cl =
     (let (stage', cl') = pass_step K A key cache stage cl in pass_steps n K A key cache stage' cl')"

lemma ended_stays [simp]: "pass_steps n K A key cache (Ended out) cl = (Ended out, cl)"
  by (induction n) simp_all

lemma undisturbed_pass:
  "pass_steps 6 K A key cache Reading cl =
     (case Reconcile (with_cache K A cache) key cl of (out, cl') \<Rightarrow> (Ended out, cl'))"
  by (simp add: eval_nat_numeral Reconcile_def failed_def split_beta Let_def split: get_result.split option.split)

section \<open>The manager\<close>

text \<open>
  The states of the API server so far, the position in them that the cache of each kind has
  reached, the queue, and the pass that runs.
\<close>

record manager =
  mg_history :: "cluster list"
  mg_seen :: "object_kind \<Rightarrow> nat"
  mg_queue :: "NamespacedName list"
  mg_running :: "(NamespacedName \<times> stage) option"

definition server_state :: "manager \<Rightarrow> cluster" where
  "server_state st = last (mg_history st)"

definition cached_state :: "manager \<Rightarrow> cluster" where
  "cached_state st =
     \<lparr>cl_servers = cl_servers (mg_history st ! mg_seen st MCPServerKind),
      cl_deployments = cl_deployments (mg_history st ! mg_seen st DeploymentKind),
      cl_services = cl_services (mg_history st ! mg_seen st ServiceKind)\<rparr>"

definition enqueue :: "NamespacedName list \<Rightarrow> NamespacedName list \<Rightarrow> NamespacedName list" where
  "enqueue reqs q = fold List.insert reqs q"

lemma set_enqueue [simp]: "set (enqueue reqs q) = set q \<union> set reqs"
  by (induction reqs arbitrary: q) (auto simp: enqueue_def)

text \<open>The server moves on; a cache takes over the next state, and its events ask for requests.\<close>

definition server_moves :: "cluster \<Rightarrow> manager \<Rightarrow> manager" where
  "server_moves cl st = st\<lparr>mg_history := mg_history st @ [cl]\<rparr>"

definition cache_follows :: "kube \<Rightarrow> controller_setup \<Rightarrow> object_kind \<Rightarrow> manager \<Rightarrow> manager" where
  "cache_follows K W kind st =
     (let i = mg_seen st kind;
          events = kind_events kind (mg_history st ! i) (mg_history st ! Suc i)
      in st\<lparr>mg_seen := (mg_seen st)(kind := Suc i),
            mg_queue := enqueue (concat (map (event_requests K W) events)) (mg_queue st)\<rparr>)"

definition pass_starts :: "NamespacedName \<Rightarrow> manager \<Rightarrow> manager" where
  "pass_starts key st = st\<lparr>mg_queue := removeAll key (mg_queue st), mg_running := Some (key, Reading)\<rparr>"

definition pass_goes_on :: "kube \<Rightarrow> cached_api \<Rightarrow> manager \<Rightarrow> manager" where
  "pass_goes_on K A st =
     (case mg_running st of
        None \<Rightarrow> st
      | Some (key, stage) \<Rightarrow>
          (let (stage', cl) = pass_step K A key (cached_state st) stage (server_state st);
               moved = (if writes stage then server_moves cl st else st)
           in case stage' of
                Ended out \<Rightarrow>
                  moved\<lparr>mg_running := None,
                        mg_queue := (if out = Returned None then mg_queue st else enqueue [key] (mg_queue st))\<rparr>
              | _ \<Rightarrow> moved\<lparr>mg_running := Some (key, stage')\<rparr>))"

inductive manager_step :: "kube \<Rightarrow> cached_api \<Rightarrow> controller_setup \<Rightarrow> manager \<Rightarrow> manager \<Rightarrow> bool" for K A W where
  others: "namespaced cl \<Longrightarrow> manager_step K A W st (server_moves cl st)"
| follow: "Suc (mg_seen st kind) < length (mg_history st) \<Longrightarrow> manager_step K A W st (cache_follows K W kind st)"
| start: "mg_running st = None \<Longrightarrow> key \<in> set (mg_queue st) \<Longrightarrow> manager_step K A W st (pass_starts key st)"
| go_on: "mg_running st \<noteq> None \<Longrightarrow> manager_step K A W st (pass_goes_on K A st)"

inductive_cases manager_stepE: "manager_step K A W st st'"

text \<open>At its start the caches are empty, and they list what is there.\<close>

definition empty_cluster :: cluster where
  "empty_cluster = \<lparr>cl_servers = [], cl_deployments = [], cl_services = []\<rparr>"

definition start_manager :: "cluster \<Rightarrow> manager" where
  "start_manager cl = \<lparr>mg_history = [empty_cluster, cl], mg_seen = (\<lambda>_. 0), mg_queue = [], mg_running = None\<rparr>"

text \<open>Nothing is left to do: no request, no pass, and every cache is up to date.\<close>

definition at_rest :: "manager \<Rightarrow> bool" where
  "at_rest st \<longleftrightarrow> mg_queue st = [] \<and> mg_running st = None \<and> (\<forall>kind. Suc (mg_seen st kind) = length (mg_history st))"

section \<open>The invariant of the manager\<close>

text \<open>
  \<open>in_order\<close>: the workloads of a server are as it wants them, and the status the gateway reads
  is the state of the rollout. \<open>due\<close>: a change that a cache has still to take over will ask for
  a pass over the server. \<open>on_track\<close>: the caches still hold what the pass over the server has
  found so far.
\<close>

definition in_order :: "condition_finder \<Rightarrow> kube \<Rightarrow> MCPServer \<Rightarrow> cluster \<Rightarrow> bool" where
  "in_order f K m cl \<longleftrightarrow> (\<exists>d s. settled_cluster K m cl d s \<and> (IsReady f (Some m) \<longleftrightarrow> rolled_out d))"

definition due :: "kube \<Rightarrow> MCPServer \<Rightarrow> manager \<Rightarrow> bool" where
  "due K m st \<longleftrightarrow> (\<exists>kind j. mg_seen st kind \<le> j \<and> Suc j < length (mg_history st) \<and>
     asks K m (kind_events kind (mg_history st ! j) (mg_history st ! Suc j)))"

abbreviation service_key :: "MCPServer \<Rightarrow> NamespacedName" where
  "service_key m \<equiv> NamespacedName (m_namespace m) (serviceName (m_name m))"

definition deployment_found :: "kube \<Rightarrow> MCPServer \<Rightarrow> cluster \<Rightarrow> Deployment \<Rightarrow> bool \<Rightarrow> bool" where
  "deployment_found K m cache d changed \<longleftrightarrow>
     map_of (cl_deployments cache) (item_key m) = Some d \<and> owned_meta K m (d_meta d) \<and>
     (\<exists>nd. mutate_deployment K m d = (None, nd, changed) \<and> kept_deployment nd d \<and> kept_meta (d_meta nd) (d_meta d))"

definition service_found :: "kube \<Rightarrow> MCPServer \<Rightarrow> cluster \<Rightarrow> Service \<Rightarrow> bool" where
  "service_found K m cache s \<longleftrightarrow>
     map_of (cl_services cache) (service_key m) = Some s \<and> owned_meta K m (s_meta s) \<and>
     (\<exists>ns c. mutate_service K m s = (None, ns, c) \<and> kept_service ns s \<and> kept_meta (s_meta ns) (s_meta s))"

text \<open>The cache has kept the Deployment, or the Service, of the server since it was read.\<close>

definition deployment_kept :: "kube \<Rightarrow> MCPServer \<Rightarrow> cluster \<Rightarrow> cluster \<Rightarrow> bool" where
  "deployment_kept K m seen cache \<longleftrightarrow> (\<forall>d. map_of (cl_deployments seen) (item_key m) = Some d \<longrightarrow>
     owned_meta K m (d_meta d) \<longrightarrow> map_of (cl_deployments cache) (item_key m) = Some d)"

definition service_kept :: "kube \<Rightarrow> MCPServer \<Rightarrow> cluster \<Rightarrow> cluster \<Rightarrow> bool" where
  "service_kept K m seen cache \<longleftrightarrow> (\<forall>s. map_of (cl_services seen) (service_key m) = Some s \<longrightarrow>
     owned_meta K m (s_meta s) \<longrightarrow> map_of (cl_services cache) (service_key m) = Some s)"

fun on_track :: "kube \<Rightarrow> MCPServer \<Rightarrow> cluster \<Rightarrow> stage \<Rightarrow> bool" where
  "on_track K m cache Reading \<longleftrightarrow> True"
| "on_track K m cache (DeploymentNext m') \<longleftrightarrow> m' = m"
| "on_track K m cache (DeploymentRead m' seen) \<longleftrightarrow> m' = m \<and> deployment_kept K m seen cache"
| "on_track K m cache (ServiceNext m' d changed) \<longleftrightarrow> m' = m \<and> deployment_found K m cache d changed"
| "on_track K m cache (ServiceRead m' d changed seen) \<longleftrightarrow>
     m' = m \<and> deployment_found K m cache d changed \<and> service_kept K m seen cache"
| "on_track K m cache (StatusNext m' r err) \<longleftrightarrow>
     err = None \<longrightarrow> m' = m \<and> (\<exists>d changed s. deployment_found K m cache d changed \<and> service_found K m cache s \<and>
       deploymentReadiness d changed = Some r)"
| "on_track K m cache (Ended out) \<longleftrightarrow> False"

fun namespaced_stage :: "stage \<Rightarrow> bool" where
  "namespaced_stage (DeploymentRead m seen) \<longleftrightarrow> namespaced seen"
| "namespaced_stage (ServiceRead m d changed seen) \<longleftrightarrow> namespaced seen"
| "namespaced_stage _ \<longleftrightarrow> True"

definition attended :: "condition_finder \<Rightarrow> kube \<Rightarrow> MCPServer \<Rightarrow> manager \<Rightarrow> bool" where
  "attended f K m st \<longleftrightarrow> item_key m \<in> set (mg_queue st) \<or> due K m st \<or> in_order f K m (cached_state st) \<or>
     (\<exists>stage. mg_running st = Some (item_key m, stage) \<and> on_track K m (cached_state st) stage)"

definition manager_ok :: "condition_finder \<Rightarrow> kube \<Rightarrow> manager \<Rightarrow> bool" where
  "manager_ok f K st \<longleftrightarrow> (\<forall>kind. mg_seen st kind < length (mg_history st)) \<and>
     (\<forall>cl \<in> set (mg_history st). namespaced cl) \<and>
     (\<forall>key stage. mg_running st = Some (key, stage) \<longrightarrow> namespaced_stage stage \<and> (\<forall>out. stage \<noteq> Ended out)) \<and>
     (\<forall>m. map_of (cl_servers (cached_state st)) (item_key m) = Some m \<longrightarrow> time_is_zero (m_deletion m) \<longrightarrow>
        attended f K m st)"

section \<open>What the steps of a pass find\<close>

lemma deployment_step:
  assumes A: "cached_law K A" and ok: "namespaced seen" and kept: "deployment_kept K m seen cache"
    and run: "reconcileDeployment (with_cache K A seen) m cl = ((d, changed, None), cl1)"
    and unasked: "\<not> asks K m (kind_events DeploymentKind cl cl1)"
  shows "deployment_found K m cache d changed"
proof -
  have laws: "set_controller_law K"
    "cached_write_law (\<lambda>d d'. kept_deployment d d' \<and> kept_meta (d_meta d) (d_meta d')) (ca_deployments A)"
    using A by (simp_all add: cached_law_def)
  from run obtain deps where D: "ca_deployments A (cl_deployments seen) (cl_deployments cl)
      (NamespacedName (m_namespace m) (m_name m)) (new_deployment m) (mutate_deployment K m) = (None, d, changed, deps)"
    and cl1: "cl1 = cl\<lparr>cl_deployments := deps\<rparr>"
    by (auto simp: reconcileDeployment_def Let_def split: prod.splits)
  obtain e nd c where md: "mutate_deployment K m (current_deployment m seen) = (e, nd, c)" by (metis prod_cases3)
  from cached_write_lawD[OF laws(2) D md[unfolded current_deployment_def]] md
  have md: "mutate_deployment K m (current_deployment m seen) = (None, nd, changed)" and nd: "kept_deployment nd d"
    "kept_meta (d_meta nd) (d_meta d)"
    and d: "map_of (cl_deployments seen) (item_key m) = Some d \<or>
      map_of (cl_deployments seen) (item_key m) = map_of (cl_deployments cl) (item_key m) \<and>
      map_of (cl_deployments cl1) (item_key m) = Some d"
    by (auto simp: item_key_def cl1)
  have own: "owned_meta K m (d_meta d)"
    using mutate_deployment_meta[OF md] nd(2) current_namespace(1)[OF ok, of m]
    by (auto simp: kept_meta_def intro: mutated_owned[OF laws(1)])
  have read: "map_of (cl_deployments seen) (item_key m) = Some d"
    using d unasked_deployment[OF unasked own, of "item_key m"] by auto
  then have "current_deployment m seen = d" by (simp add: current_deployment_def item_key_def)
  with md nd own read kept show ?thesis by (auto simp: deployment_found_def deployment_kept_def)
qed

lemma service_step:
  assumes A: "cached_law K A" and ok: "namespaced seen" and kept: "service_kept K m seen cache"
    and run: "reconcileService (with_cache K A seen) m cl = (None, cl1)"
    and unasked: "\<not> asks K m (kind_events ServiceKind cl cl1)"
  shows "\<exists>s. service_found K m cache s"
proof -
  have laws: "set_controller_law K"
    "cached_write_law (\<lambda>s s'. kept_service s s' \<and> kept_meta (s_meta s) (s_meta s')) (ca_services A)"
    using A by (simp_all add: cached_law_def)
  from run obtain s ch svcs where S: "ca_services A (cl_services seen) (cl_services cl)
      (service_key m) (new_service m) (mutate_service K m) = (None, s, ch, svcs)"
    and cl1: "cl1 = cl\<lparr>cl_services := svcs\<rparr>"
    by (auto simp: reconcileService_def Let_def split: prod.splits)
  obtain e ns c where ms: "mutate_service K m (current_service m seen) = (e, ns, c)" by (metis prod_cases3)
  from cached_write_lawD[OF laws(2) S ms[unfolded current_service_def]] ms
  have ms: "mutate_service K m (current_service m seen) = (None, ns, c)" and ns: "kept_service ns s"
    "kept_meta (s_meta ns) (s_meta s)"
    and s: "map_of (cl_services seen) (service_key m) = Some s \<or>
      map_of (cl_services seen) (service_key m) = map_of (cl_services cl) (service_key m) \<and>
      map_of (cl_services cl1) (service_key m) = Some s"
    by (auto simp: cl1)
  have own: "owned_meta K m (s_meta s)"
    using mutate_service_meta[OF ms] ns(2) current_namespace(2)[OF ok, of m]
    by (auto simp: kept_meta_def intro: mutated_owned[OF laws(1)])
  have read: "map_of (cl_services seen) (service_key m) = Some s"
    using s unasked_service[OF unasked own, of "service_key m"] by auto
  then have "current_service m seen = s" by (simp add: current_service_def)
  with ms ns own read kept show ?thesis by (auto simp: service_found_def service_kept_def)
qed

lemma status_step:
  assumes A: "cached_law K A" and f: "condition_law f K" and live: "time_is_zero (m_deletion m)"
    and found: "deployment_found K m cache d changed" "service_found K m cache s" "deploymentReadiness d changed = Some r"
    and run: "updateStatus K m r cl = (None, cl1)"
    and unasked: "\<not> asks K m (kind_events MCPServerKind cl cl1)"
  shows "in_order f K m cache"
proof -
  have laws: "patch_law K" "\<forall>s t. k_status_equal K s t \<longleftrightarrow> s = t" "\<forall>s. k_spec_equal K s s"
    "\<forall>cl before m cl'. k_patch_status K cl before m = (None, cl') \<longrightarrow> map_of (cl_servers cl) (item_key before) = Some before"
    using A by (simp_all add: cached_law_def)
  have m: "m = set_status K m r"
  proof (cases "m_status m = m_status (set_status K m r)")
    case True
    then show ?thesis by (cases m) (simp add: set_status_def split_beta)
  next
    case False
    with run laws(2) have "k_patch_status K cl m (set_status K m r) = (None, cl1)" by (simp add: updateStatus_def Let_def)
    with laws(1,4) have "map_of (cl_servers cl) (item_key m) = Some m" "map_of (cl_servers cl1) (item_key m) = Some (set_status K m r)"
      by (fastforce simp: patch_law_def item_key_def)+
    moreover have "\<not> asks K (set_status K m r) (kind_events MCPServerKind cl cl1)" using unasked by (simp add: item_key_def)
    ultimately show ?thesis by (metis unasked_server option.inject)
  qed
  from found obtain nd ns c where md: "mutate_deployment K m d = (None, nd, changed)" "kept_deployment nd d" "kept_meta (d_meta nd) (d_meta d)"
    and ms: "mutate_service K m s = (None, ns, c)" "kept_service ns s" "kept_meta (s_meta ns) (s_meta s)"
    by (auto simp: deployment_found_def service_found_def)
  from found_in_order[OF f laws(3) live md ms found(3) m] found(1,2)
  show ?thesis by (auto simp: in_order_def settled_cluster_def item_key_def deployment_found_def service_found_def)
qed

text \<open>
  A step of a pass over a live server that is on its track: it ends in an error, it changes
  something that asks for another pass, it has found the server in order, or it stays on track.
\<close>

lemma track_step:
  assumes A: "cached_law K A" and f: "condition_law f K" and live: "time_is_zero (m_deletion m)"
    and cached: "map_of (cl_servers cache) (item_key m) = Some m"
    and track: "on_track K m cache stage" and ok: "namespaced_stage stage"
    and step: "pass_step K A (item_key m) cache stage cl = (stage', cl')"
    and unasked: "\<forall>kind. \<not> asks K m (kind_events kind cl cl')"
  shows "(\<exists>out. stage' = Ended out \<and> out \<noteq> Returned None) \<or> in_order f K m cache \<or> on_track K m cache stage'"
proof (cases stage)
  case Reading
  with A cached live step show ?thesis
    by (cases "ca_get A cache (item_key m)") (auto simp: cached_law_def)
next
  case (DeploymentNext m')
  with track step show ?thesis by (auto simp: deployment_kept_def)
next
  case (DeploymentRead m' seen)
  obtain d changed err cl1 where run: "reconcileDeployment (with_cache K A seen) m cl = ((d, changed, err), cl1)"
    by (metis prod_cases4 surj_pair)
  show ?thesis
  proof (cases err)
    case None
    have kept: "deployment_kept K m seen cache" and "m' = m" "namespaced seen"
      using track ok DeploymentRead by simp_all
    moreover have st: "stage' = ServiceNext m d changed" "cl' = cl1"
      using step DeploymentRead \<open>m' = m\<close> run None by simp_all
    moreover have "deployment_found K m cache d changed"
      using deployment_step[OF A \<open>namespaced seen\<close> kept run[unfolded None]] unasked st(2) by blast
    ultimately show ?thesis by simp
  qed (use step track DeploymentRead run in auto)
next
  case (ServiceNext m' d changed)
  with track step show ?thesis by (auto simp: service_kept_def)
next
  case (ServiceRead m' d changed seen)
  have kept: "service_kept K m seen cache" "deployment_found K m cache d changed" and m': "m' = m" "namespaced seen"
    using track ok ServiceRead by simp_all
  obtain err cl1 where run: "reconcileService (with_cache K A seen) m cl = (err, cl1)" by fastforce
  show ?thesis
  proof (cases err)
    case None
    then have "cl' = cl1" using step ServiceRead m' run by simp
    then obtain s where "service_found K m cache s"
      using service_step[OF A m'(2) kept(1), of cl cl1] run None unasked by blast
    with kept(2) have "\<forall>r. deploymentReadiness d changed = Some r \<longrightarrow> on_track K m cache (StatusNext m r None)" by auto
    with step ServiceRead m' run None show ?thesis by (cases "deploymentReadiness d changed") (auto simp del: on_track.simps)
  qed (use step ServiceRead m' run in auto)
next
  case (StatusNext m' r err)
  obtain e cl1 where run: "updateStatus K m' r cl = (e, cl1)" by fastforce
  show ?thesis
  proof (cases "err = None \<and> e = None")
    case True
    with track StatusNext obtain d changed s where "m' = m" "deployment_found K m cache d changed"
      "service_found K m cache s" "deploymentReadiness d changed = Some r" by auto
    moreover have "cl' = cl1" using step StatusNext run by simp
    ultimately have "in_order f K m cache"
      using status_step[OF A f live, of cache d changed s r cl cl1] run True unasked by blast
    then show ?thesis by blast
  qed (use step StatusNext run in \<open>auto split: option.splits\<close>)
qed (use track in simp)

text \<open>The server and what a pass remembers of the caches stay namespaced.\<close>

lemma written_namespaced:
  assumes A: "cached_law K A" and ok: "namespaced cl" "namespaced seen"
  shows "namespaced (snd (reconcileDeployment (with_cache K A seen) m cl))"
    and "namespaced (snd (reconcileService (with_cache K A seen) m cl))"
proof -
  have laws: "cached_write_law (\<lambda>d d'. kept_deployment d d' \<and> kept_meta (d_meta d) (d_meta d')) (ca_deployments A)"
    "cached_write_law (\<lambda>s s'. kept_service s s' \<and> kept_meta (s_meta s) (s_meta s')) (ca_services A)"
    using A by (simp_all add: cached_law_def)
  obtain err d' changed deps where D: "ca_deployments A (cl_deployments seen) (cl_deployments cl)
      (NamespacedName (m_namespace m) (m_name m)) (new_deployment m) (mutate_deployment K m) = (err, d', changed, deps)"
    by (metis prod_cases4)
  obtain serr s' ch svcs where S: "ca_services A (cl_services seen) (cl_services cl)
      (service_key m) (new_service m) (mutate_service K m) = (serr, s', ch, svcs)"
    by (metis prod_cases4)
  obtain e nd c where md: "mutate_deployment K m (current_deployment m seen) = (e, nd, c)" by (metis prod_cases3)
  obtain e' ns c' where ms: "mutate_service K m (current_service m seen) = (e', ns, c')" by (metis prod_cases3)
  note cur = current_namespace[OF ok(2), of m]
  have "om_namespace (d_meta d) = nn_namespace k" if "map_of deps k = Some d" for k d
    using cached_write_lawD[OF laws(1) D md[unfolded current_deployment_def]] that ok(1) cur(1)
      mutate_deployment_meta[of K m "current_deployment m seen" nd c] md
    by (cases "k = NamespacedName (m_namespace m) (m_name m)") (auto simp: namespaced_def kept_meta_def)
  then show "namespaced (snd (reconcileDeployment (with_cache K A seen) m cl))"
    using ok(1) D by (simp add: namespaced_def reconcileDeployment_def)
  have "om_namespace (s_meta s) = nn_namespace k" if "map_of svcs k = Some s" for k s
    using cached_write_lawD[OF laws(2) S ms[unfolded current_service_def]] that ok(1) cur(2)
      mutate_service_meta[of K m "current_service m seen" ns c'] ms
    by (cases "k = service_key m") (auto simp: namespaced_def kept_meta_def)
  then show "namespaced (snd (reconcileService (with_cache K A seen) m cl))"
    using ok(1) S by (simp add: namespaced_def reconcileService_def)
qed

lemma pass_step_namespaced:
  assumes A: "cached_law K A" and "namespaced cl" and "namespaced cache" and "namespaced_stage stage"
    and step: "pass_step K A key cache stage cl = (stage', cl')"
  shows "namespaced cl'" and "namespaced_stage stage'"
proof -
  have law: "patch_law K" using A by (simp add: cached_law_def)
  have status: "namespaced (snd (updateStatus K m r cl))" for m r
    using updateStatus_workloads[OF law, of m r cl] assms(2)
    by (cases "updateStatus K m r cl") (simp add: namespaced_def)
  note written = written_namespaced[OF A assms(2)]
  show "namespaced cl'"
    using assms(2-5) status written
    by (cases stage) (auto simp: Let_def split_beta)
  show "namespaced_stage stage'"
    using assms(3,5) by (cases stage) (auto simp: Let_def split_beta split: get_result.splits option.splits)
qed

section \<open>The manager keeps the invariant\<close>

lemma moved_simps [simp]:
  "mg_seen (server_moves cl st) = mg_seen st" "mg_queue (server_moves cl st) = mg_queue st"
  "mg_history (server_moves cl st) = mg_history st @ [cl]" "mg_running (server_moves cl st) = mg_running st"
  by (simp_all add: server_moves_def)

lemma moved_cache:
  "\<forall>kind. mg_seen st kind < length (mg_history st) \<Longrightarrow> cached_state (server_moves cl st) = cached_state st"
  by (simp add: cached_state_def nth_append)

lemma moved_due: "due K m st \<Longrightarrow> due K m (server_moves cl st)"
  by (fastforce simp: due_def nth_append)

lemma ok_history: "manager_ok f K st \<Longrightarrow> mg_history st \<noteq> []"
  by (auto simp: manager_ok_def)

lemma cached_namespaced: "manager_ok f K st \<Longrightarrow> namespaced (cached_state st)"
proof -
  assume "manager_ok f K st"
  then have "namespaced (mg_history st ! mg_seen st kind)" for kind by (simp add: manager_ok_def)
  then show ?thesis unfolding namespaced_def cached_state_def cluster.select_convs by blast
qed

lemma server_namespaced: "manager_ok f K st \<Longrightarrow> namespaced (server_state st)"
  using ok_history[of f K st] by (simp add: manager_ok_def server_state_def)

lemma moves_ok: "manager_ok f K st \<Longrightarrow> namespaced cl \<Longrightarrow> manager_ok f K (server_moves cl st)"
  using moved_cache[of st cl] moved_due[of K _ st cl] by (auto simp: manager_ok_def attended_def less_SucI)

text \<open>What the server does asks for a request as soon as the cache of its kind has taken it over.\<close>

lemma moved_asks:
  assumes "manager_ok f K st" and "asks K m (kind_events kind (server_state st) cl)"
  shows "due K m (server_moves cl st)"
proof -
  have seen: "mg_seen st kind < length (mg_history st)" using assms(1) by (simp add: manager_ok_def)
  let ?j = "length (mg_history st) - 1"
  have "asks K m (kind_events kind ((mg_history st @ [cl]) ! ?j) ((mg_history st @ [cl]) ! Suc ?j))"
    using assms(2) ok_history[OF assms(1)] by (simp add: nth_append server_state_def last_conv_nth)
  with seen show ?thesis unfolding due_def by (intro exI[of _ kind] exI[of _ ?j]) auto
qed

text \<open>A cache that follows.\<close>

lemma follows_simps [simp]:
  "mg_seen (cache_follows K W kind st) = (mg_seen st)(kind := Suc (mg_seen st kind))"
  "mg_history (cache_follows K W kind st) = mg_history st"
  "mg_running (cache_follows K W kind st) = mg_running st"
  "set (mg_queue (cache_follows K W kind st)) = set (mg_queue st) \<union>
     (\<Union>ev \<in> set (kind_events kind (mg_history st ! mg_seen st kind) (mg_history st ! Suc (mg_seen st kind))).
        set (event_requests K W ev))"
  by (simp_all add: cache_follows_def Let_def)

definition next_asks :: "kube \<Rightarrow> MCPServer \<Rightarrow> object_kind \<Rightarrow> manager \<Rightarrow> bool" where
  "next_asks K m kind st \<longleftrightarrow>
     asks K m (kind_events kind (mg_history st ! mg_seen st kind) (mg_history st ! Suc (mg_seen st kind)))"

lemma followed_server:
  assumes "\<not> next_asks K m kind st"
    and "map_of (cl_servers (cached_state (cache_follows K W kind st))) (item_key m) = Some m"
  shows "map_of (cl_servers (cached_state st)) (item_key m) = Some m"
  using assms by (cases kind) (simp_all add: cached_state_def unasked_server next_asks_def)

lemma followed_deployment:
  assumes "\<not> next_asks K m kind st" and "owned_meta K m (d_meta d)"
    and "map_of (cl_deployments (cached_state st)) k = Some d"
  shows "map_of (cl_deployments (cached_state (cache_follows K W kind st))) k = Some d"
  using assms unasked_deployment[of "mg_history st ! mg_seen st DeploymentKind"
      "mg_history st ! Suc (mg_seen st DeploymentKind)" m K d k]
  by (cases kind) (auto simp: cached_state_def next_asks_def)

lemma followed_service:
  assumes "\<not> next_asks K m kind st" and "owned_meta K m (s_meta s)"
    and "map_of (cl_services (cached_state st)) k = Some s"
  shows "map_of (cl_services (cached_state (cache_follows K W kind st))) k = Some s"
  using assms unasked_service[of "mg_history st ! mg_seen st ServiceKind"
      "mg_history st ! Suc (mg_seen st ServiceKind)" m K s k]
  by (cases kind) (auto simp: cached_state_def next_asks_def)

lemma followed_in_order:
  assumes "set_controller_law K" and "namespaced (cached_state st)" and "in_order f K m (cached_state st)"
    and "\<not> next_asks K m kind st"
  shows "in_order f K m (cached_state (cache_follows K W kind st))"
proof -
  obtain d s where S: "settled_cluster K m (cached_state st) d s" "IsReady f (Some m) \<longleftrightarrow> rolled_out d"
    using assms(3) by (auto simp: in_order_def)
  have "owned_meta K m (d_meta d)" "owned_meta K m (s_meta s)"
    using S(1) assms(2) by (auto simp: settled_cluster_def namespaced_def intro: settled_meta_owned[OF assms(1)])
  with S(1) have "settled_cluster K m (cached_state (cache_follows K W kind st)) d s"
    using followed_deployment[OF assms(4)] followed_service[OF assms(4)] by (simp add: settled_cluster_def)
  with S(2) show ?thesis by (auto simp: in_order_def)
qed

lemma followed_on_track:
  assumes "on_track K m (cached_state st) stage" and "\<not> next_asks K m kind st"
  shows "on_track K m (cached_state (cache_follows K W kind st)) stage"
proof -
  note dep = followed_deployment[OF assms(2), of _ _ W] and svc = followed_service[OF assms(2), of _ _ W]
  have found: "deployment_found K m (cached_state st) d changed \<Longrightarrow>
      deployment_found K m (cached_state (cache_follows K W kind st)) d changed"
    "service_found K m (cached_state st) s \<Longrightarrow> service_found K m (cached_state (cache_follows K W kind st)) s"
    for d changed s by (auto simp: deployment_found_def service_found_def intro: dep svc)
  have kept: "deployment_kept K m seen (cached_state st) \<Longrightarrow> deployment_kept K m seen (cached_state (cache_follows K W kind st))"
    "service_kept K m seen (cached_state st) \<Longrightarrow> service_kept K m seen (cached_state (cache_follows K W kind st))"
    for seen by (auto simp: deployment_kept_def service_kept_def intro: dep svc)
  from assms(1) show ?thesis by (cases stage) (auto intro: found kept)
qed

lemma followed_due:
  assumes "due K m st" and "\<not> next_asks K m kind st"
  shows "due K m (cache_follows K W kind st)"
proof -
  obtain kind' j where j: "mg_seen st kind' \<le> j" "Suc j < length (mg_history st)"
    "asks K m (kind_events kind' (mg_history st ! j) (mg_history st ! Suc j))" using assms(1) by (auto simp: due_def)
  with assms(2) have "kind' \<noteq> kind \<or> Suc (mg_seen st kind) \<le> j"
    unfolding next_asks_def by (metis Suc_leI le_neq_implies_less)
  with j show ?thesis unfolding due_def by (intro exI[of _ kind'] exI[of _ j]) auto
qed

lemma follows_ok:
  assumes sc: "set_controller_law K" and ok: "manager_ok f K st" and more: "Suc (mg_seen st kind) < length (mg_history st)"
  shows "manager_ok f K (cache_follows K SetupWithManager kind st)"
proof -
  have "attended f K m (cache_follows K SetupWithManager kind st)"
    if m: "map_of (cl_servers (cached_state (cache_follows K SetupWithManager kind st))) (item_key m) = Some m"
      "time_is_zero (m_deletion m)" for m
  proof (cases "next_asks K m kind st")
    case False
    with ok m have "attended f K m st" by (simp add: manager_ok_def followed_server)
    with False show ?thesis
      using followed_due[OF _ False] followed_in_order[OF sc cached_namespaced[OF ok] _ False]
        followed_on_track[OF _ False] by (auto simp: attended_def)
  qed (auto simp: attended_def next_asks_def)
  with ok more show ?thesis by (simp add: manager_ok_def)
qed

text \<open>A pass.\<close>

lemma starts_ok:
  assumes "manager_ok f K st" and "mg_running st = None"
  shows "manager_ok f K (pass_starts key st)"
proof -
  have "cached_state (pass_starts key st) = cached_state st" "\<And>m. due K m (pass_starts key st) = due K m st"
    by (simp_all add: pass_starts_def cached_state_def due_def)
  with assms show ?thesis by (auto simp: manager_ok_def attended_def pass_starts_def)
qed

lemma nothing_asks: "\<not> asks K m (kind_events kind cl cl)"
  by (cases kind) (simp_all add: changed_objects_def)

text \<open>The state after a step of a pass: the server's, and what becomes of the pass.\<close>

lemma goes_on_state:
  assumes "mg_running st = Some (key, stage)"
    and "pass_step K A key (cached_state st) stage (server_state st) = (stage', cl)"
    and "moved = (if writes stage then server_moves cl st else st)"
  obtains (after) q r where "pass_goes_on K A st = moved\<lparr>mg_queue := q, mg_running := r\<rparr>" "set (mg_queue st) \<subseteq> set q"
    "(\<exists>out. stage' = Ended out \<and> r = None \<and> (out \<noteq> Returned None \<longrightarrow> key \<in> set q))
     \<or> (\<forall>out. stage' \<noteq> Ended out) \<and> r = Some (key, stage')"
proof (cases "\<exists>out. stage' = Ended out")
  case True
  then obtain out where out: "stage' = Ended out" by blast
  with assms show thesis
    by (intro after[where q = "if out = Returned None then mg_queue st else enqueue [key] (mg_queue st)" and r = None])
      (auto simp: pass_goes_on_def Let_def)
next
  case False
  moreover have "mg_queue moved = mg_queue st" using assms(3) by simp
  ultimately show thesis
    using assms by (intro after[where q = "mg_queue st" and r = "Some (key, stage')"]) (auto simp: pass_goes_on_def Let_def split: stage.split)
qed

lemma goes_on_ok:
  assumes A: "cached_law K A" and f: "condition_law f K" and ok: "manager_ok f K st" and "mg_running st \<noteq> None"
  shows "manager_ok f K (pass_goes_on K A st)"
proof -
  obtain key stage where run: "mg_running st = Some (key, stage)" using assms(4) by auto
  obtain stage' cl where step: "pass_step K A key (cached_state st) stage (server_state st) = (stage', cl)" by fastforce
  define moved where "moved = (if writes stage then server_moves cl st else st)"
  obtain q r where after: "pass_goes_on K A st = moved\<lparr>mg_queue := q, mg_running := r\<rparr>" "set (mg_queue st) \<subseteq> set q"
    "(\<exists>out. stage' = Ended out \<and> r = None \<and> (out \<noteq> Returned None \<longrightarrow> key \<in> set q))
     \<or> (\<forall>out. stage' \<noteq> Ended out) \<and> r = Some (key, stage')"
    by (rule goes_on_state[OF run step moved_def])
  have stage: "namespaced_stage stage" using ok run by (simp add: manager_ok_def)
  note ns = pass_step_namespaced[OF A server_namespaced[OF ok] cached_namespaced[OF ok] stage step]
  have okm: "manager_ok f K moved" using ok moves_ok[OF ok ns(1)] by (simp add: moved_def)
  have cache: "cached_state moved = cached_state st" using ok moved_cache[of st cl] by (simp add: moved_def manager_ok_def)
  have same: "cached_state (moved\<lparr>mg_queue := q, mg_running := r\<rparr>) = cached_state st"
    "due K m (moved\<lparr>mg_queue := q, mg_running := r\<rparr>) = due K m moved" for m
    unfolding cache[symmetric] by (simp_all add: cached_state_def due_def)
  have "attended f K m (moved\<lparr>mg_queue := q, mg_running := r\<rparr>)"
    if m: "map_of (cl_servers (cached_state st)) (item_key m) = Some m" "time_is_zero (m_deletion m)" for m
  proof -
    have due: "due K m st \<Longrightarrow> due K m moved" using moved_due[of K m st cl] by (simp add: moved_def)
    from ok m have "attended f K m st" by (simp add: manager_ok_def)
    then consider "item_key m \<in> set (mg_queue st) \<or> due K m st \<or> in_order f K m (cached_state st)"
      | "item_key m = key" "on_track K m (cached_state st) stage" using run by (auto simp: attended_def)
    then show ?thesis
    proof cases
      case 1
      with after(2) due show ?thesis by (auto simp: attended_def same)
    next
      case 2
      show ?thesis
      proof (cases "\<exists>kind. asks K m (kind_events kind (server_state st) cl)")
        case True
        then obtain kind where k: "asks K m (kind_events kind (server_state st) cl)" by blast
        have "writes stage"
        proof (rule ccontr)
          assume "\<not> writes stage"
          then have "cl = server_state st"
            using reads_write_nothing[of stage K A key "cached_state st" "server_state st"] step by simp
          with k show False using nothing_asks by blast
        qed
        with moved_asks[OF ok k] have "due K m moved" by (simp add: moved_def)
        then show ?thesis by (simp add: attended_def same)
      next
        case False
        with track_step[OF A f m(2,1) 2(2) stage, of "server_state st" stage' cl] step 2(1) after(3)
        show ?thesis by (auto simp: attended_def same)
      qed
    qed
  qed
  moreover have "r = Some (key', stage'') \<Longrightarrow> namespaced_stage stage'' \<and> (\<forall>out. stage'' \<noteq> Ended out)" for key' stage''
    using after(3) ns(2) by auto
  ultimately show ?thesis using okm unfolding after(1) by (simp add: manager_ok_def same)
qed

lemma start_ok: "namespaced cl \<Longrightarrow> manager_ok f K (start_manager cl)"
  by (simp add: manager_ok_def start_manager_def namespaced_def empty_cluster_def cached_state_def)

lemma manager_reachable_ok:
  assumes A: "cached_law K A" and f: "condition_law f K" and "namespaced cl"
    and "(manager_step K A SetupWithManager)\<^sup>*\<^sup>* (start_manager cl) st"
  shows "manager_ok f K st"
  using assms(4)
proof (induction rule: rtranclp_induct)
  case (step st st')
  have "set_controller_law K" using A by (simp add: cached_law_def)
  with step(2,3) show ?case
    by (auto elim!: manager_stepE intro: moves_ok follows_ok starts_ok goes_on_ok[OF A f])
qed (rule start_ok[OF assms(3)])

text \<open>A manager at rest has every server in order.\<close>

lemma rest_in_order:
  assumes "cached_law K A" and "condition_law f K" and "namespaced cl"
    and "(manager_step K A SetupWithManager)\<^sup>*\<^sup>* (start_manager cl) st" and "at_rest st"
    and "map_of (cl_servers (server_state st)) (item_key m) = Some m" and "time_is_zero (m_deletion m)"
  shows "in_order f K m (server_state st)"
proof -
  have ok: "manager_ok f K st" by (rule manager_reachable_ok[OF assms(1-4)])
  have seen: "mg_seen st kind = length (mg_history st) - 1" for kind
    using assms(5) unfolding at_rest_def by (metis diff_Suc_1)
  have "cached_state st = server_state st"
    using ok_history[OF ok] by (simp add: cached_state_def server_state_def seen last_conv_nth)
  moreover have "\<not> due K m st" unfolding due_def seen by auto
  moreover have "mg_queue st = []" "mg_running st = None" using assms(5) by (simp_all add: at_rest_def)
  ultimately show ?thesis using ok assms(6,7) by (auto simp: manager_ok_def attended_def)
qed

section \<open>Rest means order\<close>

text \<open>
  C5. No drift is left behind: whatever others do to the servers, Deployments and Services, also
  in the middle of a pass, however far each cache lags, in whatever order the passes run and
  however often they fail, a manager that has come to rest (an empty queue, no pass, caches
  that have caught up) leaves every live server with its Deployment and its Service as it
  wants them, and with a status that is ready for the gateway exactly when its Deployment is
  rolled out. So the watches miss no change that calls for a pass.
\<close>

theorem rest_means_order:
  assumes "cached_law K A" and "condition_law f K" and "namespaced cl"
    and "(manager_step K A SetupWithManager)\<^sup>*\<^sup>* (start_manager cl) st" and "at_rest st"
    and "map_of (cl_servers (server_state st)) (item_key m) = Some m" and "time_is_zero (m_deletion m)"
  shows "\<exists>d s. map_of (cl_deployments (server_state st)) (NamespacedName (m_namespace m) (m_name m)) = Some d \<and>
    desired_deployment m d \<and>
    map_of (cl_services (server_state st)) (NamespacedName (m_namespace m) (serviceName (m_name m))) = Some s \<and>
    desired_service m s \<and> (IsReady f (Some m) \<longleftrightarrow> rolled_out d)"
  using rest_in_order[OF assms] by (auto simp: in_order_def settled_cluster_def)

text \<open>A manager whose caches catch up after every pass.\<close>

abbreviation sample_follows :: "object_kind \<Rightarrow> manager \<Rightarrow> manager" where
  "sample_follows \<equiv> cache_follows simple_cached_kube SetupWithManager"

abbreviation sample_step :: "manager \<Rightarrow> manager \<Rightarrow> bool" where
  "sample_step \<equiv> manager_step simple_cached_kube simple_cached_api SetupWithManager"

fun catch_up :: "nat \<Rightarrow> manager \<Rightarrow> manager" where
  "catch_up 0 st = st"
| "catch_up (Suc n) st =
     catch_up n (sample_follows ServiceKind (sample_follows DeploymentKind (sample_follows MCPServerKind st)))"

fun go_on :: "nat \<Rightarrow> manager \<Rightarrow> manager" where
  "go_on 0 st = st"
| "go_on (Suc n) st = go_on n (pass_goes_on simple_cached_kube simple_cached_api st)"

lemma catch_up_runs:
  "\<forall>kind. mg_seen st kind + n < length (mg_history st) \<Longrightarrow> sample_step\<^sup>*\<^sup>* st (catch_up n st)"
proof (induction n arbitrary: st)
  case (Suc n)
  let ?s = "sample_follows MCPServerKind st"
  let ?d = "sample_follows DeploymentKind ?s"
  have "Suc (mg_seen st kind) < length (mg_history st)" for kind
    using Suc.prems[rule_format, of kind] by linarith
  then have "sample_step st ?s" "sample_step ?s ?d" "sample_step ?d (sample_follows ServiceKind ?d)"
    by (auto intro!: manager_step.follow)
  moreover have "mg_seen (sample_follows ServiceKind ?d) kind + n < length (mg_history st)" for kind
    using Suc.prems[rule_format, of kind] by (cases kind) simp_all
  then have "sample_step\<^sup>*\<^sup>* (sample_follows ServiceKind ?d) (catch_up (Suc n) st)" by (simp add: Suc.IH)
  ultimately show ?case by (meson converse_rtranclp_into_rtranclp)
qed simp

lemma go_on_runs: "sample_step\<^sup>*\<^sup>* st (go_on n st)"
proof (induction n arbitrary: st)
  case (Suc n)
  show ?case
  proof (cases "mg_running st = None")
    case True
    with Suc[of st] show ?thesis by (simp add: pass_goes_on_def)
  next
    case False
    then show ?thesis using Suc[of "pass_goes_on simple_cached_kube simple_cached_api st"]
      by (auto intro: converse_rtranclp_into_rtranclp manager_step.go_on)
  qed
qed simp

text \<open>Passes over the sample server until the cluster has nothing left to say.\<close>

definition each_kind :: "(object_kind \<Rightarrow> bool) \<Rightarrow> bool" where
  "each_kind P \<longleftrightarrow> list_all P [MCPServerKind, DeploymentKind, ServiceKind]"

lemma each_kind: "each_kind P \<longleftrightarrow> (\<forall>kind. P kind)"
  by (simp add: each_kind_def) (metis object_kind.exhaust)

fun sample_passes_run :: "nat \<Rightarrow> manager \<Rightarrow> manager option" where
  "sample_passes_run 0 st = Some st"
| "sample_passes_run (Suc n) st =
     (if Option.is_none (mg_running st) \<and> list_ex (\<lambda>k. k = sample_key) (mg_queue st) then
        (let st' = go_on 6 (pass_starts sample_key st)
         in if each_kind (\<lambda>kind. mg_seen st' kind + 3 < length (mg_history st')) then sample_passes_run n (catch_up 3 st')
            else None)
      else None)"

lemma sample_passes_run_steps: "sample_passes_run n st = Some st' \<Longrightarrow> sample_step\<^sup>*\<^sup>* st st'"
proof (induction n arbitrary: st)
  case (Suc n)
  let ?p = "go_on 6 (pass_starts sample_key st)"
  have run: "mg_running st = None" "sample_key \<in> set (mg_queue st)"
    "\<forall>kind. mg_seen ?p kind + 3 < length (mg_history ?p)" "sample_passes_run n (catch_up 3 ?p) = Some st'"
    using Suc.prems by (auto simp: Let_def each_kind Option.is_none_def list_ex_iff split: if_splits)
  have "sample_step st (pass_starts sample_key st)" by (rule manager_step.start[OF run(1,2)])
  moreover have "sample_step\<^sup>*\<^sup>* (pass_starts sample_key st) ?p" by (rule go_on_runs)
  moreover have "sample_step\<^sup>*\<^sup>* ?p (catch_up 3 ?p)" by (rule catch_up_runs[OF run(3)])
  ultimately show ?case using Suc.IH[OF run(4)] by (meson converse_rtranclp_into_rtranclp rtranclp_trans)
qed simp

lemma sample_comes_to_rest:
  "\<exists>st m. sample_step\<^sup>*\<^sup>* (start_manager sample_cluster) st \<and> at_rest st \<and>
     cl_servers (server_state st) = [(sample_key, m)] \<and> item_key m = sample_key \<and> time_is_zero (m_deletion m)"
proof -
  have "case sample_passes_run 3 (catch_up 1 (start_manager sample_cluster)) of None \<Rightarrow> False | Some st \<Rightarrow>
      mg_queue st = [] \<and> Option.is_none (mg_running st) \<and>
      each_kind (\<lambda>kind. Suc (mg_seen st kind) = length (mg_history st)) \<and>
      map (\<lambda>(k, m). (k, item_key m, time_is_zero (m_deletion m))) (cl_servers (server_state st)) = [(sample_key, sample_key, True)]"
    by code_simp
  then obtain st where run: "sample_passes_run 3 (catch_up 1 (start_manager sample_cluster)) = Some st" and rest: "at_rest st"
    "map (\<lambda>(k, m). (k, item_key m, time_is_zero (m_deletion m))) (cl_servers (server_state st)) = [(sample_key, sample_key, True)]"
    by (auto simp: at_rest_def each_kind Option.is_none_def split: option.splits)
  have "sample_step\<^sup>*\<^sup>* (start_manager sample_cluster) (catch_up 1 (start_manager sample_cluster))"
    by (rule catch_up_runs) (simp add: start_manager_def)
  from rtranclp_trans[OF this sample_passes_run_steps[OF run]]
  have "sample_step\<^sup>*\<^sup>* (start_manager sample_cluster) st" .
  with rest show ?thesis by auto
qed

lemma sample_namespaced: "namespaced sample_cluster"
  by (simp add: namespaced_def sample_cluster_def)

theorem rest_means_order_witness:
  "\<exists>st m d. sample_step\<^sup>*\<^sup>* (start_manager sample_cluster) st \<and> at_rest st \<and> item_key m = sample_key \<and>
     desired_deployment m d \<and> map_of (cl_deployments (server_state st)) sample_key = Some d"
proof -
  from sample_comes_to_rest obtain st m where st: "sample_step\<^sup>*\<^sup>* (start_manager sample_cluster) st" "at_rest st"
    "cl_servers (server_state st) = [(sample_key, m)]" "item_key m = sample_key" "time_is_zero (m_deletion m)" by blast
  then have "map_of (cl_servers (server_state st)) (item_key m) = Some m" by simp
  from rest_means_order[OF simple_cached_law simple_cached_condition sample_namespaced st(1,2) this st(5)] st
  show ?thesis by (auto simp: item_key_def)
qed

section \<open>No step touches what is not its own\<close>

text \<open>The server that a pass works for, once it has read it.\<close>

fun pass_server :: "stage \<Rightarrow> MCPServer option" where
  "pass_server (DeploymentNext m) = Some m"
| "pass_server (DeploymentRead m seen) = Some m"
| "pass_server (ServiceNext m dep changed) = Some m"
| "pass_server (ServiceRead m dep changed seen) = Some m"
| "pass_server (StatusNext m r err) = Some m"
| "pass_server _ = None"

text \<open>
  C14. The controller never touches a workload that is not its own, whatever others do in the
  middle of its passes and however stale its caches are: a step of a pass leaves every
  Deployment and Service that the server stores under another name, and every one under the
  name of the \<^verbatim>\<open>MCPServer\<close> that another object controls, that nobody controls, or that is being
  deleted, exactly as it was; and a pass that has not read its server yet changes nothing.
\<close>

theorem pass_spares_foreign_objects:
  assumes "cached_law K A"
  shows "case pass_server stage of
      None \<Rightarrow> snd (pass_step K A key cache stage cl) = cl
    | Some m \<Rightarrow>
        (\<forall>k d. map_of (cl_deployments cl) k = Some d \<and>
           (k \<noteq> NamespacedName (m_namespace m) (m_name m) \<or> foreign K m (d_meta d)) \<longrightarrow>
           map_of (cl_deployments (snd (pass_step K A key cache stage cl))) k = Some d)
      \<and> (\<forall>k s. map_of (cl_services cl) k = Some s \<and>
           (k \<noteq> service_key m \<or> foreign K m (s_meta s)) \<longrightarrow>
           map_of (cl_services (snd (pass_step K A key cache stage cl))) k = Some s)"
proof (cases stage)
  case (StatusNext m r err)
  have "patch_law K" using assms by (simp add: cached_law_def)
  from updateStatus_workloads[OF this, of m r cl] StatusNext show ?thesis
    by (cases "updateStatus K m r cl") simp
next
  case (DeploymentRead m seen)
  with deployment_write_spares[OF assms, of cl _ _ m seen] show ?thesis
    by (auto simp: Let_def split_beta) (simp_all add: reconcileDeployment_def split_beta)
next
  case (ServiceRead m dep changed seen)
  with service_write_spares[OF assms, of cl _ _ m seen] show ?thesis
    by (auto simp: Let_def split_beta) (simp_all add: reconcileService_def split_beta)
qed simp_all

text \<open>The cache has not seen the foreign Deployment under the server's name.\<close>

theorem pass_spares_foreign_objects_witness:
  "map_of (cl_deployments (snd (pass_step simple_cached_kube simple_cached_api sample_key sample_cluster
     (DeploymentRead sample_server sample_cluster) taken_cluster))) sample_key = Some taken_deployment"
proof -
  have "map_of (cl_deployments taken_cluster) sample_key = Some taken_deployment"
    by (simp add: taken_cluster_def)
  moreover have "foreign simple_cached_kube sample_server (d_meta taken_deployment)"
    using taken_foreign by (simp add: foreign_def simple_cached_kube_def)
  ultimately show ?thesis
    using pass_spares_foreign_objects[OF simple_cached_law, where stage = "DeploymentRead sample_server sample_cluster"
        and key = sample_key and cache = sample_cluster and cl = taken_cluster] by simp
qed

end
