(* ===== verification/EndToEnd.thy ===== *)
theory EndToEnd
  imports Manager Samples
begin

text \<open>
  From the controller to the forwarded request: what the two programs must agree on (the name
  of the Service, its port, the readiness condition, the allowed callers) for a request to
  arrive. The controller's side is \<open>Convergence\<close> and \<open>Manager\<close>, the gateway's \<open>Router\<close> and \<open>Registry\<close>; the
  stored \<^verbatim>\<open>MCPServer\<close> objects are all that passes between them.
\<close>

section \<open>What a poll of the stored servers yields\<close>

lemma listed_server_resolves:
  assumes "p_list p = Inr items" and "\<forall>i \<in> set items. map_of servers (item_key i) = Some i"
    and "\<exists>i \<in> set items. item_key i = NamespacedName ns n"
    and "map_of servers (NamespacedName ns n) = Some m" and "ns \<noteq> []"
  shows "Resolve (refresh f p r) ns n = Inr (item_backend f (p_host p) (p_observed p) m)"
proof -
  let ?is = "filter (\<lambda>i. item_key i = NamespacedName ns n) items"
  have ne: "?is \<noteq> []" using assms(3) by (auto simp: filter_empty_conv)
  have "\<forall>i \<in> set ?is. i = m" using assms(2,4) by auto
  with last_in_set[OF ne] have "last ?is = m" by blast
  with ne have "map_of (next_backends f (p_host p) (p_observed p) items []) (NamespacedName ns n)
      = Some (item_backend f (p_host p) (p_observed p) m)"
    unfolding next_backends_map_of by (cases ?is) auto
  then show ?thesis using assms(1,5) by (simp add: Resolve_exact refresh_def)
qed

text \<open>A request that passes every check is forwarded to the backend of its route.\<close>

lemma admitted_request_forwarded:
  assumes "a req = (sa_username account, None)" and "parsePath (r_path req) = (ns, n, tool, True)"
    and "Resolve (g_registry g) ns n = Inr b" and "account \<in> set (b_allowed b)" and "b_ready b"
    and "fst (allowAt f64 (g_limiter g) (sa_username account) (e_allow e))"
    and "e_policy e - b_observed b \<le> 15 * second" and "e_full_duplex e = None"
  shows "s_out (ServeHTTP (Some a) e req w g) =
    Some (rewrite (b_address b) (sa_username account) (req\<lparr>r_path := ''/'' @ tool\<rparr>) (e_hop e (r_header req)))"
proof -
  have "time_sub (e_policy e) (b_observed b) \<le> policyMaxAge"
    using assms(7) by (subst time_sub_small) (simp_all add: policyMaxAge_def second_def max_duration_def min_duration_def)
  with assms have "may_proxy e req (sa_username account) b" by (auto simp: may_proxy_def allows_iff)
  moreover have "sa_username account \<noteq> []" by (simp add: sa_username_def)
  ultimately show ?thesis unfolding ServeHTTP_out using assms by blast
qed

lemma rewrite_target:
  "o_url_host (rewrite address p req h) = address" "o_url_path (rewrite address p req h) = r_path req"
  "header_values (o_header (rewrite address p req h)) ''X-Agent-ID'' = [p]"
proof -
  have "canonical_key ''X-Agent-ID'' = ''X-Agent-Id''" by code_simp
  then show "o_url_host (rewrite address p req h) = address" "o_url_path (rewrite address p req h) = r_path req"
    "header_values (o_header (rewrite address p req h)) ''X-Agent-ID'' = [p]"
    by (simp_all add: rewrite_def Let_def header_set_def header_values_def update_conv')
qed

text \<open>
  The address the gateway dials is the Service the controller writes: its name, its namespace
  and its only port.
\<close>

lemma service_address:
  assumes "desired_service m s"
  shows "\<exists>port. s_ports s = [port] \<and>
    backend_address [] m = serviceName (m_name m) @ ''.'' @ m_namespace m @ ''.svc.cluster.local:'' @ itoa (sint (sp_port port))"
  using assms by (auto simp: desired_service_def backend_address_def serviceName_def Let_def)

section \<open>Forwarding what is allowed\<close>

text \<open>
  C4. What is allowed arrives: when two passes of the controller over a server have returned
  no error, the cluster has rolled the workload out between them and the gateway's last poll
  lists the stored servers and is at most 15 seconds old, then a request of a caller that the
  server's policy names, with budget left, is forwarded: to the Service that the
  controller wrote for that server, at its port, with the path after the route and
  the caller as its only agent identity.
\<close>

theorem authorized_request_forwarded:
  assumes K: "kube_law K" "settling_law K" "condition_law f K" and get: "k_get K cl key = Got m"
    and live: "time_is_zero (m_deletion m)" and pass: "Reconcile K key cl = (Returned None, cl1)"
    and prog: "progressed m cl1 cl2" and get2: "k_get K cl2 key = Got m2"
    and pass2: "Reconcile K key cl2 = (Returned None, cl3)"
    and roll: "map_of (cl_deployments cl2) key = Some d" "rolled_out d"
    and poll: "p_list p = Inr items" "\<forall>i \<in> set items. map_of (cl_servers cl3) (item_key i) = Some i"
      "\<exists>i \<in> set items. item_key i = key" "p_host p = []"
    and caller: "a req = (sa_username account, None)" "account \<in> set (spec_allowed (m_spec m))"
    and route: "parsePath (r_path req) = (m_namespace m, m_name m, tool, True)" "m_namespace m \<noteq> []"
    and budget: "fst (allowAt f64 (g_limiter g) (sa_username account) (e_allow e))"
    and fresh: "e_policy e - p_observed p \<le> 15 * second" and duplex: "e_full_duplex e = None"
  shows "\<exists>out s port. s_out (ServeHTTP (Some a) e req w (g\<lparr>g_registry := refresh f p (g_registry g)\<rparr>)) = Some out \<and>
    map_of (cl_services cl3) (NamespacedName (m_namespace m) (serviceName (m_name m))) = Some s \<and>
    s_selector s = [(server_label, m_name m)] \<and> s_ports s = [port] \<and>
    o_url_host out = serviceName (m_name m) @ ''.'' @ m_namespace m @ ''.svc.cluster.local:'' @ itoa (sint (sp_port port)) \<and>
    o_url_path out = ''/'' @ tool \<and>
    header_values (o_header out) ''X-Agent-ID'' = [sa_username account]"
proof -
  have key: "key = NamespacedName (m_namespace m) (m_name m)"
    using K(1) get by (auto simp: kube_law_def get_law_def)
  from second_pass[OF K get live pass prog get2 pass2] obtain d' s m3 where
    deps: "map_of (cl_deployments cl3) = map_of (cl_deployments cl2)" and S: "settled_cluster K m cl3 d' s"
    and m3: "map_of (cl_servers cl3) key = Some m3" "m_spec m3 = m_spec m" "m_namespace m3 = m_namespace m"
      "m_name m3 = m_name m" and ready: "IsReady f (Some m3) \<longleftrightarrow> rolled_out d'" by blast
  let ?b = "item_backend f [] (p_observed p) m3" and ?g = "g\<lparr>g_registry := refresh f p (g_registry g)\<rparr>"
  have svc: "map_of (cl_services cl3) (NamespacedName (m_namespace m) (serviceName (m_name m))) = Some s"
    "desired_service m s" using S by (simp_all add: settled_cluster_def)
  have "rolled_out d'" using S deps roll key by (simp add: settled_cluster_def)
  then have "b_ready ?b" using ready by (simp add: item_backend_def)
  moreover have "Resolve (g_registry ?g) (m_namespace m) (m_name m) = Inr ?b"
    using listed_server_resolves[OF poll(1,2) _ _ route(2), of "m_name m" m3] poll(3,4) m3(1) key by simp
  moreover have "account \<in> set (b_allowed ?b)" "b_observed ?b = p_observed p"
    using caller(2) m3(2) by (simp_all add: item_backend_def)
  ultimately have out: "s_out (ServeHTTP (Some a) e req w ?g) =
      Some (rewrite (b_address ?b) (sa_username account) (req\<lparr>r_path := ''/'' @ tool\<rparr>) (e_hop e (r_header req)))"
    using budget fresh duplex caller(1) route(1)
    by (intro admitted_request_forwarded[of a req account "m_namespace m" "m_name m" tool ?g ?b e w]) simp_all
  have "b_address ?b = backend_address [] m"
    using m3 by (simp add: item_backend_def backend_address_def)
  with service_address[OF svc(2)] obtain port where "s_ports s = [port]"
    "b_address ?b = serviceName (m_name m) @ ''.'' @ m_namespace m @ ''.svc.cluster.local:'' @ itoa (sint (sp_port port))"
    by auto
  with out svc show ?thesis by (intro exI conjI) (assumption | simp add: rewrite_target desired_service_def)+
qed

lemma second_cluster_polled:
  "\<forall>i \<in> set (map snd (cl_servers second_cluster)). map_of (cl_servers second_cluster) (item_key i) = Some i"
  "\<exists>i \<in> set (map snd (cl_servers second_cluster)). item_key i = sample_key"
proof -
  have "map (\<lambda>(k, m). (k, item_key m)) (cl_servers second_cluster) = [(sample_key, sample_key)]" by code_simp
  then obtain m where "cl_servers second_cluster = [(sample_key, m)]" "item_key m = sample_key" by auto
  then show "\<forall>i \<in> set (map snd (cl_servers second_cluster)). map_of (cl_servers second_cluster) (item_key i) = Some i"
    "\<exists>i \<in> set (map snd (cl_servers second_cluster)). item_key i = sample_key" by simp_all
qed

lemma rolled_out_code [code]:
  "rolled_out d = (dst_observed (d_status d) = om_generation (d_meta d) \<and>
     \<not> list_ex is_failure (dst_conditions (d_status d)) \<and>
     (case ds_replicas (d_spec d) of None \<Rightarrow> False | Some n \<Rightarrow> 0 < sint n \<and> dst_replicas (d_status d) = n \<and>
        dst_updated (d_status d) = n \<and> sint n \<le> sint (dst_ready (d_status d)) \<and>
        sint n \<le> sint (dst_available (d_status d))))"
  by (auto simp: rolled_out_def split: option.splits)

lemma sample_rolled_out:
  "\<exists>d. map_of (cl_deployments (sample_rollout first_cluster)) sample_key = Some d \<and> rolled_out d"
proof -
  have "(case map_of (cl_deployments (sample_rollout first_cluster)) sample_key of None \<Rightarrow> False
     | Some d \<Rightarrow> rolled_out d)" by code_simp
  then show ?thesis by (auto split: option.splits)
qed

theorem authorized_request_forwarded_witness:
  "\<exists>out. s_out (ServeHTTP (Some sample_auth) sample_env sample_request fresh_writer
       ((new_gateway 5 10)\<lparr>g_registry := refresh first_condition
          \<lparr>p_observed = 0, p_host = [], p_list = Inr (map snd (cl_servers second_cluster))\<rparr>
          (g_registry (new_gateway 5 10))\<rparr>)) = Some out \<and>
     o_url_path out = ''/mcp'' \<and>
     header_values (o_header out) ''X-Agent-ID'' = [''system:serviceaccount:team:agent'']"
proof -
  let ?p = "\<lparr>p_observed = 0, p_host = [], p_list = Inr (map snd (cl_servers second_cluster))\<rparr>"
  let ?a = "\<lparr>sa_namespace = ''team'', sa_name = ''agent''\<rparr>"
  obtain d where d: "map_of (cl_deployments (sample_rollout first_cluster)) sample_key = Some d" "rolled_out d"
    using sample_rolled_out by blast
  have name: "sa_username ?a = ''system:serviceaccount:team:agent''" by (simp add: sa_username_def)
  have budget: "fst (allowAt f64 (g_limiter (new_gateway 5 10)) (sa_username ?a) (e_allow sample_env))"
    using sample_allowed[of "sa_username ?a" "e_allow sample_env"] by simp
  have server: "?a \<in> set (spec_allowed (m_spec sample_server))" "m_namespace sample_server = ''team''"
    "m_name sample_server = ''tools''" by (simp_all add: sample_server_def)
  have env: "e_policy sample_env - 0 \<le> 15 * second" "e_full_duplex sample_env = None"
    by (simp_all add: sample_env_def second_def)
  from authorized_request_forwarded[OF simple_kube_law simple_settling_law simple_condition_law sample_got(1)
      sample_live sample_passes(1) sample_progressed sample_passes(3) sample_passes(2) d, of ?p
      "map snd (cl_servers second_cluster)" sample_auth sample_request ?a "''mcp''" "new_gateway 5 10" sample_env
      fresh_writer] second_cluster_polled sample_authenticated sample_route budget server env
  show ?thesis unfolding name by (simp only: poll.select_convs list.distinct append_Cons append_Nil) auto
qed

section \<open>At rest\<close>

text \<open>
  C8. At rest the two programs agree: when the controller's manager has come to rest,
  after whatever changes and passes, a poll that lists the stored servers gives every
  live server its route, with the callers of its policy, the address of the Service that the
  controller keeps for it, and ready exactly when its Deployment is as wanted and rolled out.
\<close>

theorem routes_at_rest:
  assumes "cached_law K A" and "condition_law f K" and "namespaced cl"
    and "(manager_step K A SetupWithManager)\<^sup>*\<^sup>* (start_manager cl) st" and "at_rest st"
    and "p_list p = Inr items" and "\<forall>i \<in> set items. map_of (cl_servers (server_state st)) (item_key i) = Some i"
    and "m \<in> set items" and "time_is_zero (m_deletion m)" and "m_namespace m \<noteq> []" and "p_host p = []"
  shows "\<exists>d s port bk. Resolve (refresh f p r) (m_namespace m) (m_name m) = Inr bk \<and>
    map_of (cl_deployments (server_state st)) (item_key m) = Some d \<and>
    (b_ready bk \<longleftrightarrow> desired_deployment m d \<and> rolled_out d) \<and> b_allowed bk = spec_allowed (m_spec m) \<and>
    map_of (cl_services (server_state st)) (NamespacedName (m_namespace m) (serviceName (m_name m))) = Some s \<and>
    s_ports s = [port] \<and>
    b_address bk = serviceName (m_name m) @ ''.'' @ m_namespace m @ ''.svc.cluster.local:'' @ itoa (sint (sp_port port))"
proof -
  have m: "map_of (cl_servers (server_state st)) (item_key m) = Some m" using assms(7,8) by blast
  from rest_in_order[OF assms(1-5) this assms(9)] have "in_order f K m (server_state st)" .
  then obtain d s where S: "settled_cluster K m (server_state st) d s" "IsReady f (Some m) \<longleftrightarrow> rolled_out d"
    by (auto simp: in_order_def)
  have "\<exists>i \<in> set items. item_key i = NamespacedName (m_namespace m) (m_name m)"
    using assms(8) by (auto simp: item_key_def)
  from listed_server_resolves[OF assms(6,7) this m[unfolded item_key_def] assms(10)]
  have "Resolve (refresh f p r) (m_namespace m) (m_name m) = Inr (item_backend f [] (p_observed p) m)"
    by (simp add: assms(11))
  moreover obtain port where "s_ports s = [port]" "backend_address [] m
      = serviceName (m_name m) @ ''.'' @ m_namespace m @ ''.svc.cluster.local:'' @ itoa (sint (sp_port port))"
    using service_address[of m s] S(1) by (auto simp: settled_cluster_def)
  ultimately show ?thesis
    using S by (simp add: settled_cluster_def item_backend_def item_key_def)
qed

theorem routes_at_rest_witness:
  "\<exists>st bk. sample_step\<^sup>*\<^sup>* (start_manager sample_cluster) st \<and> at_rest st \<and>
     Resolve (refresh first_condition \<lparr>p_observed = 0, p_host = [],
       p_list = Inr (map snd (cl_servers (server_state st)))\<rparr> NewRegistry) ''team'' ''tools'' = Inr bk"
proof -
  from sample_comes_to_rest obtain st m where m: "sample_step\<^sup>*\<^sup>* (start_manager sample_cluster) st" "at_rest st"
    "cl_servers (server_state st) = [(sample_key, m)]" "item_key m = sample_key" "time_is_zero (m_deletion m)" by blast
  have name: "m_namespace m = ''team''" "m_name m = ''tools''"
    using m(4) by (simp_all add: item_key_def sample_key_def)
  let ?p = "\<lparr>p_observed = 0, p_host = [], p_list = Inr (map snd (cl_servers (server_state st)))\<rparr>"
  from routes_at_rest[OF simple_cached_law simple_cached_condition sample_namespaced m(1,2), of ?p "[m]" m NewRegistry] m name
  obtain bk where "Resolve (refresh first_condition ?p NewRegistry) ''team'' ''tools'' = Inr bk" by (simp add: m(3)) blast
  with m(1,2) show ?thesis by blast
qed

end
