(* ===== verification/Scheme.thy ===== *)
theory Scheme
  imports Watches
begin

text \<open>
  \<^verbatim>\<open>api/v1alpha1/groupversion_info.go\<close> and the \<^verbatim>\<open>init\<close> of \<^verbatim>\<open>mcpserver_types.go\<close>: the types of the API
  package and the group version they are registered under. The builder and the schemes are the
  libraries' (\<open>scheme_library\<close>); a Go type is its package and its name. What hangs on the
  registration is the identity that owner references carry: the library writes the one it
  finds in the scheme, while \<^verbatim>\<open>checkOwnership\<close> compares with a kind and a version of its own.
\<close>

type_synonym go_type = "string \<times> string"

record ('b, 's) scheme_library =
  sl_Builder :: "string \<times> string \<Rightarrow> 'b"
  sl_Register :: "'b \<Rightarrow> go_type list \<Rightarrow> 'b"
  sl_AddToScheme :: "'b \<Rightarrow> 's \<Rightarrow> string option \<times> 's"
  sl_kind :: "'s \<Rightarrow> go_type \<Rightarrow> (string \<times> string \<times> string) option"

definition api_package :: string where
  "api_package = ''github.com/jonatan/portkeeper/api/v1alpha1''"

text \<open>\<^verbatim>\<open>GroupVersion\<close> by its two fields; \<open>Controller.GroupVersion\<close> is its string.\<close>

definition GroupVersion_fields :: "string \<times> string" where
  "GroupVersion_fields = (''mcp.portkeeper.dev'', ''v1alpha1'')"

definition group_version_string :: "string \<times> string \<Rightarrow> string" where
  "group_version_string gv = (if fst gv = [] then snd gv else fst gv @ ''/'' @ snd gv)"

lemma GroupVersion_string: "group_version_string GroupVersion_fields = GroupVersion"
  by (simp add: group_version_string_def GroupVersion_fields_def GroupVersion_def)

definition api_types :: "go_type list" where
  "api_types = [(api_package, ''MCPServer''), (api_package, ''MCPServerList'')]"

definition SchemeBuilder :: "('b, 's) scheme_library \<Rightarrow> 'b" where
  "SchemeBuilder L = sl_Register L (sl_Builder L GroupVersion_fields) api_types"

definition AddToScheme :: "('b, 's) scheme_library \<Rightarrow> 's \<Rightarrow> string option \<times> 's" where
  "AddToScheme L s = sl_AddToScheme L (SchemeBuilder L) s"

text \<open>A registered type gets the builder's group version and its own name as its kind.\<close>

definition scheme_law :: "('b, 's) scheme_library \<Rightarrow> bool" where
  "scheme_law L \<longleftrightarrow> (\<forall>gv ts s s'. sl_AddToScheme L (sl_Register L (sl_Builder L gv) ts) s = (None, s') \<longrightarrow>
     (\<forall>t. sl_kind L s' t = (if t \<in> set ts then Some (fst gv, snd gv, snd t) else sl_kind L s t)))"

text \<open>The owner reference that \<^verbatim>\<open>SetControllerReference\<close> makes with a scheme.\<close>

definition scheme_reference :: "('b, 's) scheme_library \<Rightarrow> 's \<Rightarrow> MCPServer \<Rightarrow> OwnerReference option" where
  "scheme_reference L s m =
     map_option (\<lambda>(group, version, kind).
         \<lparr>or_api_version = group_version_string (group, version), or_kind = kind, or_name = m_name m,
           or_uid = m_uid m, or_controller = True\<rparr>)
       (sl_kind L s (api_package, ''MCPServer''))"

section \<open>The registered identity is the expected one\<close>

text \<open>
  With the scheme of the API package, the owner references of the controller are those that
  \<^verbatim>\<open>checkOwnership\<close> accepts, and the watches of \<^verbatim>\<open>Owns\<close> lead back to the server.
\<close>

theorem registered_owner_recognised:
  assumes "scheme_law L" and "AddToScheme L s = (None, s')"
  shows "\<exists>r. scheme_reference L s' m = Some r \<and> controlled_by m r \<and>
    (\<forall>K meta. k_controller_of K (om_owners meta) = Some r \<and> om_namespace meta = m_namespace m \<longrightarrow>
       event_requests K SetupWithManager (DeploymentEvent (d\<lparr>d_meta := meta\<rparr>)) = [item_key m])"
proof -
  have "sl_kind L s' (api_package, ''MCPServer'') = Some (fst GroupVersion_fields, snd GroupVersion_fields, ''MCPServer'')"
    using assms(1)[unfolded scheme_law_def, rule_format, OF assms(2)[unfolded AddToScheme_def SchemeBuilder_def],
        of "(api_package, ''MCPServer'')"] by (simp add: api_types_def)
  then have r: "scheme_reference L s' m = Some \<lparr>or_api_version = GroupVersion, or_kind = ''MCPServer'',
      or_name = m_name m, or_uid = m_uid m, or_controller = True\<rparr>"
    by (simp add: scheme_reference_def GroupVersion_string)
  moreover have "controlled_by m \<lparr>or_api_version = GroupVersion, or_kind = ''MCPServer'', or_name = m_name m, or_uid = m_uid m, or_controller = True\<rparr>"
    by (simp add: controlled_by_def)
  ultimately show ?thesis
    by (auto simp: SetupWithManager_def owned_meta_def intro!: owned_requests)
qed

text \<open>A library that keeps the registered types in a list.\<close>

definition list_scheme_library :: "((string \<times> string) \<times> go_type list, (go_type \<times> string \<times> string \<times> string) list) scheme_library" where
  "list_scheme_library =
     \<lparr>sl_Builder = (\<lambda>gv. (gv, [])), sl_Register = (\<lambda>(gv, ts) us. (gv, ts @ us)),
      sl_AddToScheme = (\<lambda>(gv, ts) s. (None, map (\<lambda>t. (t, fst gv, snd gv, snd t)) ts @ s)), sl_kind = map_of\<rparr>"

lemma list_scheme_law: "scheme_law list_scheme_library"
proof -
  have "map_of (map (\<lambda>t. (t, g, v, snd t)) ts @ s) t = (if t \<in> set ts then Some (g, v, snd t) else map_of s t)"
    for g v :: string and ts :: "go_type list" and s t by (induction ts) auto
  then show ?thesis by (simp add: scheme_law_def list_scheme_library_def)
qed

theorem registered_owner_recognised_witness:
  "\<exists>r. scheme_reference list_scheme_library (snd (AddToScheme list_scheme_library [])) sample_server = Some r \<and>
     controlled_by sample_server r"
proof -
  have "AddToScheme list_scheme_library [] = (None, snd (AddToScheme list_scheme_library []))"
    by (simp add: AddToScheme_def SchemeBuilder_def list_scheme_library_def split_beta)
  from registered_owner_recognised[OF list_scheme_law this, of sample_server] show ?thesis by blast
qed

end
