(* ===== verification/DeepCopy.thy ===== *)
theory DeepCopy
  imports Api
begin

text \<open>
  The deep copies of the API types (\<^verbatim>\<open>api/v1alpha1/zz_generated.deepcopy.go\<close>) on an
  explicit heap. A pointer is an address, nil is \<open>None\<close>; a slice is nil or an array's
  address, an offset and a length. The heap maps addresses to cells, which hold objects and
  arrays; the objects of this theory (\<open>spec_mem\<close>, \<open>status_mem\<close>, \<open>server_mem\<close>, \<open>list_mem\<close>)
  are the structs as they lie in memory, and \<open>server_value\<close> and its like read the value of
  theory \<open>Api\<close> back from them.

  \<^verbatim>\<open>ObjectMeta\<close>, \<^verbatim>\<open>ListMeta\<close> and \<^verbatim>\<open>Condition\<close> belong to apimachinery: their
  \<^verbatim>\<open>DeepCopyInto\<close> are the parameters \<open>copy_meta\<close>, \<open>copy_list_meta\<close> and \<open>copy_cond\<close>.
  A result is \<open>None\<close> only for memory that is not of the types' shape, which Go excludes.
\<close>

section \<open>Memory\<close>

datatype slice = NilSlice | Slice nat nat nat

record object_meta =
  om_mem_namespace :: string
  om_mem_name :: string
  om_mem_uid :: string
  om_mem_generation :: int64
  om_mem_deletion :: "nat option"

record list_meta =
  lm_version :: string
  lm_continue :: string
  lm_remaining :: "nat option"

record spec_mem =
  sm_image :: string
  sm_port :: int32
  sm_tools :: slice
  sm_allowed :: slice
  sm_auth_type :: string
  sm_auth_secret_ref :: string

record status_mem =
  tm_phase :: string
  tm_observed :: int64
  tm_conditions :: slice

record server_mem =
  vm_kind :: string
  vm_api_version :: string
  vm_meta :: object_meta
  vm_spec :: spec_mem
  vm_status :: status_mem

record list_mem =
  im_kind :: string
  im_api_version :: string
  im_meta :: list_meta
  im_items :: slice

datatype cell =
    CStrings "string list"
  | CAccounts "ServiceAccountReference list"
  | CConditions "Condition list"
  | CServers "server_mem list"
  | CTime time
  | CInt int64
  | CAccount ServiceAccountReference
  | CSpec spec_mem
  | CStatus status_mem
  | CServer server_mem
  | CList list_mem

record heap =
  cells :: "nat \<Rightarrow> cell option"
  next_addr :: nat

definition heap_ok :: "heap \<Rightarrow> bool" where
  "heap_ok h \<longleftrightarrow> (\<forall>a. next_addr h \<le> a \<longrightarrow> cells h a = None)"

definition alloc :: "cell \<Rightarrow> heap \<Rightarrow> heap \<times> nat" where
  "alloc c h = (\<lparr>cells = (cells h)(next_addr h \<mapsto> c), next_addr = next_addr h + 1\<rparr>, next_addr h)"

definition store :: "nat \<Rightarrow> cell \<Rightarrow> heap \<Rightarrow> heap" where
  "store a c h = h\<lparr>cells := (cells h)(a \<mapsto> c)\<rparr>"

text \<open>Everything the first heap holds is in the second one unchanged.\<close>

definition extends :: "heap \<Rightarrow> heap \<Rightarrow> bool" where
  "extends h h' \<longleftrightarrow> next_addr h \<le> next_addr h' \<and> (\<forall>a < next_addr h. cells h' a = cells h a)"

text \<open>The heaps agree from the address \<open>lo\<close> on.\<close>

definition same_from :: "nat \<Rightarrow> heap \<Rightarrow> heap \<Rightarrow> bool" where
  "same_from lo h h' \<longleftrightarrow> (\<forall>a \<ge> lo. cells h' a = cells h a)"

lemma same_from_store [simp]: "a < lo \<Longrightarrow> same_from lo h (store a c h)"
  by (simp add: same_from_def store_def)

lemma extends_refl [simp]: "extends h h"
  by (simp add: extends_def)

lemma extends_trans: "extends h1 h2 \<Longrightarrow> extends h2 h3 \<Longrightarrow> extends h1 h3"
  by (auto simp: extends_def)

lemma extends_alloc [simp]: "extends h (fst (alloc c h))"
  by (simp add: extends_def alloc_def)

lemma heap_ok_alloc [simp]: "heap_ok h \<Longrightarrow> heap_ok (fst (alloc c h))"
  by (simp add: heap_ok_def alloc_def)

lemma heap_ok_store: "heap_ok h \<Longrightarrow> a < next_addr h \<Longrightarrow> heap_ok (store a c h)"
  by (auto simp: heap_ok_def store_def)

lemma extends_store: "extends h h' \<Longrightarrow> next_addr h \<le> a \<Longrightarrow> extends h (store a c h')"
  by (auto simp: extends_def store_def)

lemma next_store [simp]: "next_addr (store a c h) = next_addr h"
  by (simp add: store_def)

section \<open>Slices\<close>

definition read_slice :: "(cell \<Rightarrow> 'a list option) \<Rightarrow> heap \<Rightarrow> slice \<Rightarrow> 'a list option" where
  "read_slice proj h s =
     (case s of
        NilSlice \<Rightarrow> Some []
      | Slice a off n \<Rightarrow>
          (case Option.bind (cells h a) proj of
             None \<Rightarrow> None
           | Some xs \<Rightarrow> if off + n \<le> length xs then Some (take n (drop off xs)) else None))"

definition strings_in :: "cell \<Rightarrow> string list option" where
  "strings_in c = (case c of CStrings xs \<Rightarrow> Some xs | _ \<Rightarrow> None)"

definition accounts_in :: "cell \<Rightarrow> ServiceAccountReference list option" where
  "accounts_in c = (case c of CAccounts xs \<Rightarrow> Some xs | _ \<Rightarrow> None)"

definition conditions_in :: "cell \<Rightarrow> Condition list option" where
  "conditions_in c = (case c of CConditions xs \<Rightarrow> Some xs | _ \<Rightarrow> None)"

definition servers_in :: "cell \<Rightarrow> server_mem list option" where
  "servers_in c = (case c of CServers xs \<Rightarrow> Some xs | _ \<Rightarrow> None)"

lemmas cell_kinds [simp] = strings_in_def accounts_in_def conditions_in_def servers_in_def

text \<open>The array of a slice has an address from \<open>lo\<close> on: none below \<open>lo\<close> is reachable.\<close>

definition slice_above :: "nat \<Rightarrow> slice \<Rightarrow> bool" where
  "slice_above lo s \<longleftrightarrow> (case s of NilSlice \<Rightarrow> True | Slice a _ _ \<Rightarrow> lo \<le> a)"

definition ptr_above :: "nat \<Rightarrow> nat option \<Rightarrow> bool" where
  "ptr_above lo p \<longleftrightarrow> (case p of None \<Rightarrow> True | Some a \<Rightarrow> lo \<le> a)"

text \<open>
  \<^verbatim>\<open>if in.F != nil { out.F = make([]T, len(in.F)); ... }\<close> with every element copied by
  \<open>cp\<close>; a nil slice was already copied by \<^verbatim>\<open>*out = *in\<close>.
\<close>

definition copy_slice :: "(cell \<Rightarrow> 'a list option) \<Rightarrow> ('a list \<Rightarrow> cell) \<Rightarrow> ('a \<Rightarrow> 'a) \<Rightarrow> heap \<Rightarrow> slice
    \<Rightarrow> (heap \<times> slice) option" where
  "copy_slice proj wrap cp h s =
     (case s of
        NilSlice \<Rightarrow> Some (h, NilSlice)
      | Slice a off n \<Rightarrow>
          (case read_slice proj h s of
             None \<Rightarrow> None
           | Some xs \<Rightarrow> (let (h', b) = alloc (wrap (map cp xs)) h in Some (h', Slice b 0 n))))"

lemma read_slice_below:
  "read_slice proj h s = Some xs \<Longrightarrow> heap_ok h \<Longrightarrow> extends h h' \<Longrightarrow> read_slice proj h' s = Some xs"
proof (cases s)
  case (Slice a off n)
  assume r: "read_slice proj h s = Some xs" and ok: "heap_ok h" and ex: "extends h h'"
  have "a < next_addr h" using r ok Slice by (auto simp: read_slice_def heap_ok_def not_le split: option.splits)
  then have "cells h' a = cells h a" using ex by (simp add: extends_def)
  with r Slice show ?thesis by (simp add: read_slice_def)
qed (simp add: read_slice_def)

lemma read_slice_above:
  "slice_above lo s \<Longrightarrow> same_from lo h h' \<Longrightarrow> read_slice proj h' s = read_slice proj h s"
  by (cases s) (auto simp: read_slice_def slice_above_def same_from_def)

lemma copy_slice_ok:
  assumes "read_slice proj h s = Some xs" and "heap_ok h" and "\<And>ys. proj (wrap ys) = Some ys" and "\<And>x. cp x = x"
  shows "\<exists>h' t. copy_slice proj wrap cp h s = Some (h', t) \<and> heap_ok h' \<and> extends h h' \<and>
    slice_above (next_addr h) t \<and> read_slice proj h' t = Some xs \<and> (t = NilSlice \<longleftrightarrow> s = NilSlice)"
proof (cases s)
  case NilSlice
  with assms show ?thesis by (auto simp: copy_slice_def read_slice_def slice_above_def)
next
  case (Slice a off n)
  have cp: "map cp xs = xs" using assms(4) by (simp add: map_idI)
  have "length xs = n"
    using assms(1) Slice by (auto simp: read_slice_def split: option.splits if_splits)
  moreover have "copy_slice proj wrap cp h s = Some (fst (alloc (wrap xs) h), Slice (next_addr h) 0 n)"
    using assms(1) Slice cp by (simp add: copy_slice_def alloc_def)
  ultimately show ?thesis
    using assms(2,3) Slice by (simp add: slice_above_def) (simp add: read_slice_def alloc_def)
qed

section \<open>What a deep copy promises\<close>

text \<open>
  \<open>val h x\<close> is the value that \<open>x\<close> stands for in \<open>h\<close>, nothing when its memory is ill-formed;
  \<open>above lo h x\<close> says that nothing below the address \<open>lo\<close> is reachable from \<open>x\<close>.
\<close>

locale deep_copy =
  fixes above :: "nat \<Rightarrow> heap \<Rightarrow> 'm \<Rightarrow> bool"
    and val :: "heap \<Rightarrow> 'm \<Rightarrow> 'v option"
    and copy :: "heap \<Rightarrow> 'm \<Rightarrow> (heap \<times> 'm) option"
  assumes val_extends: "heap_ok h \<Longrightarrow> extends h h' \<Longrightarrow> val h x = Some v \<Longrightarrow> val h' x = Some v"
    and above_extends: "heap_ok h \<Longrightarrow> extends h h' \<Longrightarrow> val h x = Some v \<Longrightarrow> above lo h x \<Longrightarrow> above lo h' x"
    and frame: "above lo h x \<Longrightarrow> same_from lo h h' \<Longrightarrow> above lo h' x \<and> val h' x = val h x"
    and above_le: "above lo h x \<Longrightarrow> lo' \<le> lo \<Longrightarrow> above lo' h x"
    and copy_ok: "heap_ok h \<Longrightarrow> val h x = Some v \<Longrightarrow>
      \<exists>h' y. copy h x = Some (h', y) \<and> heap_ok h' \<and> extends h h' \<and> above (next_addr h) h' y \<and> val h' y = Some v"
begin

lemma frame_store: "above lo h x \<Longrightarrow> a < lo \<Longrightarrow> above lo (store a c h) x \<and> val (store a c h) x = val h x"
  by (rule frame) simp_all

lemma copy_isolated:
  assumes "heap_ok h" and "val h x = Some v"
  shows "\<exists>h' y. copy h x = Some (h', y) \<and> heap_ok h' \<and> val h' x = Some v \<and> val h' y = Some v \<and>
    (\<forall>a c. a < next_addr h \<longrightarrow> val (store a c h') y = Some v) \<and>
    (\<forall>a c. next_addr h \<le> a \<longrightarrow> val (store a c h') x = Some v)"
proof -
  from copy_ok[OF assms] obtain h' y where y: "copy h x = Some (h', y)" "heap_ok h'" "extends h h'"
    "above (next_addr h) h' y" "val h' y = Some v" by blast
  then show ?thesis
    using frame_store[OF y(4)] val_extends[OF assms(1) _ assms(2)] extends_store[OF y(3)] by auto
qed

end

lemma slice_deep_copy:
  assumes "\<And>ys. proj (wrap ys) = Some ys" and "\<And>x. cp x = x"
  shows "deep_copy (\<lambda>lo h. slice_above lo) (read_slice proj) (copy_slice proj wrap cp)"
proof
  fix h s xs
  assume "heap_ok h" "read_slice proj h s = Some xs"
  then show "\<exists>h' y. copy_slice proj wrap cp h s = Some (h', y) \<and> heap_ok h' \<and> extends h h' \<and>
      slice_above (next_addr h) y \<and> read_slice proj h' y = Some xs"
    using copy_slice_ok[of proj h s xs wrap cp] assms by blast
qed (auto intro: read_slice_below read_slice_above simp: slice_above_def split: slice.splits)

interpretation strings: deep_copy "\<lambda>lo h. slice_above lo" "read_slice strings_in" "copy_slice strings_in CStrings id"
  by (rule slice_deep_copy) simp_all

interpretation accounts: deep_copy "\<lambda>lo h. slice_above lo" "read_slice accounts_in" "copy_slice accounts_in CAccounts id"
  by (rule slice_deep_copy) simp_all

section \<open>Specs and statuses\<close>

definition spec_value :: "heap \<Rightarrow> spec_mem \<Rightarrow> MCPServerSpec option" where
  "spec_value h s =
     (case read_slice strings_in h (sm_tools s) of
        None \<Rightarrow> None
      | Some tools \<Rightarrow>
          (case read_slice accounts_in h (sm_allowed s) of
             None \<Rightarrow> None
           | Some allowed \<Rightarrow>
               Some \<lparr>spec_image = sm_image s, spec_port = sm_port s, spec_tools = tools, spec_allowed = allowed,
                 spec_auth_type = sm_auth_type s, spec_auth_secret_ref = sm_auth_secret_ref s\<rparr>))"

definition spec_above :: "nat \<Rightarrow> heap \<Rightarrow> spec_mem \<Rightarrow> bool" where
  "spec_above lo h s \<longleftrightarrow> slice_above lo (sm_tools s) \<and> slice_above lo (sm_allowed s)"

definition DeepCopyInto_spec :: "heap \<Rightarrow> spec_mem \<Rightarrow> (heap \<times> spec_mem) option" where
  "DeepCopyInto_spec h s =
     (case copy_slice strings_in CStrings id h (sm_tools s) of
        None \<Rightarrow> None
      | Some (h1, tools) \<Rightarrow>
          (case copy_slice accounts_in CAccounts id h1 (sm_allowed s) of
             None \<Rightarrow> None
           | Some (h2, allowed) \<Rightarrow> Some (h2, s\<lparr>sm_tools := tools, sm_allowed := allowed\<rparr>)))"

lemma spec_value_Some:
  "spec_value h s = Some v \<longleftrightarrow>
     read_slice strings_in h (sm_tools s) = Some (spec_tools v) \<and>
     read_slice accounts_in h (sm_allowed s) = Some (spec_allowed v) \<and>
     spec_image v = sm_image s \<and> spec_port v = sm_port s \<and> spec_auth_type v = sm_auth_type s \<and>
     spec_auth_secret_ref v = sm_auth_secret_ref s"
  by (auto simp: spec_value_def split: option.splits)

interpretation spec: deep_copy spec_above spec_value DeepCopyInto_spec
proof
  fix h s v
  assume ok: "heap_ok h" and v: "spec_value h s = Some v"
  then have t: "read_slice strings_in h (sm_tools s) = Some (spec_tools v)"
    and a: "read_slice accounts_in h (sm_allowed s) = Some (spec_allowed v)" by (simp_all add: spec_value_Some)
  from strings.copy_ok[OF ok t] obtain h1 ts where 1: "copy_slice strings_in CStrings id h (sm_tools s) = Some (h1, ts)"
    "heap_ok h1" "extends h h1" "slice_above (next_addr h) ts" "read_slice strings_in h1 ts = Some (spec_tools v)" by blast
  have "read_slice accounts_in h1 (sm_allowed s) = Some (spec_allowed v)" using accounts.val_extends[OF ok 1(3) a] .
  from accounts.copy_ok[OF 1(2) this] obtain h2 as where 2: "copy_slice accounts_in CAccounts id h1 (sm_allowed s) = Some (h2, as)"
    "heap_ok h2" "extends h1 h2" "slice_above (next_addr h1) as" "read_slice accounts_in h2 as = Some (spec_allowed v)" by blast
  have "slice_above (next_addr h) as" using accounts.above_le[OF 2(4)] 1(3) by (simp add: extends_def)
  then show "\<exists>h' y. DeepCopyInto_spec h s = Some (h', y) \<and> heap_ok h' \<and> extends h h' \<and>
      spec_above (next_addr h) h' y \<and> spec_value h' y = Some v"
    using 1 2 v strings.val_extends[OF 1(2) 2(3) 1(5)] extends_trans[OF 1(3) 2(3)]
    by (simp add: DeepCopyInto_spec_def spec_above_def spec_value_Some)
next
  fix lo h s h'
  assume ab: "spec_above lo h s" and eq: "same_from lo h h'"
  then have "read_slice strings_in h' (sm_tools s) = read_slice strings_in h (sm_tools s)"
    "read_slice accounts_in h' (sm_allowed s) = read_slice accounts_in h (sm_allowed s)"
    by (auto simp: spec_above_def intro: read_slice_above)
  with ab show "spec_above lo h' s \<and> spec_value h' s = spec_value h s"
    by (simp add: spec_value_def spec_above_def cong: option.case_cong)
qed (auto simp: spec_value_Some spec_above_def intro: strings.val_extends accounts.val_extends
    strings.above_le[simplified] accounts.above_le[simplified])

definition status_value :: "heap \<Rightarrow> status_mem \<Rightarrow> MCPServerStatus option" where
  "status_value h t =
     (case read_slice conditions_in h (tm_conditions t) of
        None \<Rightarrow> None
      | Some cs \<Rightarrow> Some \<lparr>st_phase = tm_phase t, st_observed = tm_observed t, st_conditions = cs\<rparr>)"

definition status_above :: "nat \<Rightarrow> heap \<Rightarrow> status_mem \<Rightarrow> bool" where
  "status_above lo h t \<longleftrightarrow> slice_above lo (tm_conditions t)"

definition DeepCopyInto_status :: "(Condition \<Rightarrow> Condition) \<Rightarrow> heap \<Rightarrow> status_mem \<Rightarrow> (heap \<times> status_mem) option" where
  "DeepCopyInto_status copy_cond h t =
     (case copy_slice conditions_in CConditions copy_cond h (tm_conditions t) of
        None \<Rightarrow> None
      | Some (h1, cs) \<Rightarrow> Some (h1, t\<lparr>tm_conditions := cs\<rparr>))"

lemma status_value_Some:
  "status_value h t = Some v \<longleftrightarrow> read_slice conditions_in h (tm_conditions t) = Some (st_conditions v) \<and>
     st_phase v = tm_phase t \<and> st_observed v = tm_observed t"
  by (auto simp: status_value_def split: option.splits)

lemma status_deep_copy:
  assumes "\<And>c. copy_cond c = c"
  shows "deep_copy status_above status_value (DeepCopyInto_status copy_cond)"
proof
  fix h t v
  assume ok: "heap_ok h" and v: "status_value h t = Some v"
  then have "read_slice conditions_in h (tm_conditions t) = Some (st_conditions v)" by (simp add: status_value_Some)
  from copy_slice_ok[where wrap = CConditions, OF this ok _ assms] obtain h1 cs
    where "copy_slice conditions_in CConditions copy_cond h (tm_conditions t) = Some (h1, cs)" "heap_ok h1"
      "extends h h1" "slice_above (next_addr h) cs" "read_slice conditions_in h1 cs = Some (st_conditions v)" by auto
  with v show "\<exists>h' y. DeepCopyInto_status copy_cond h t = Some (h', y) \<and> heap_ok h' \<and> extends h h' \<and>
      status_above (next_addr h) h' y \<and> status_value h' y = Some v"
    by (simp add: DeepCopyInto_status_def status_above_def status_value_Some)
next
  fix lo h t h'
  assume ab: "status_above lo h t" and eq: "same_from lo h h'"
  then have "read_slice conditions_in h' (tm_conditions t) = read_slice conditions_in h (tm_conditions t)"
    by (auto simp: status_above_def intro: read_slice_above)
  with ab show "status_above lo h' t \<and> status_value h' t = status_value h t"
    by (simp add: status_value_def status_above_def)
qed (auto simp: status_value_Some status_above_def slice_above_def intro: read_slice_below split: slice.splits)

section \<open>Servers\<close>

text \<open>The only pointer of the metadata that the program reads is the deletion time.\<close>

definition deletion_value :: "heap \<Rightarrow> nat option \<Rightarrow> time option option" where
  "deletion_value h p =
     (case p of
        None \<Rightarrow> Some None
      | Some a \<Rightarrow> (case cells h a of Some (CTime t) \<Rightarrow> Some (Some t) | _ \<Rightarrow> None))"

definition meta_value :: "heap \<Rightarrow> object_meta \<Rightarrow> (string \<times> string \<times> string \<times> int64 \<times> time option) option" where
  "meta_value h m = map_option (\<lambda>d. (om_mem_namespace m, om_mem_name m, om_mem_uid m, om_mem_generation m, d))
     (deletion_value h (om_mem_deletion m))"

definition meta_above :: "nat \<Rightarrow> heap \<Rightarrow> object_meta \<Rightarrow> bool" where
  "meta_above lo h m \<longleftrightarrow> ptr_above lo (om_mem_deletion m)"

text \<open>The value of a server object: its type metadata and the server of theory \<open>Api\<close>.\<close>

definition server_value :: "heap \<Rightarrow> server_mem \<Rightarrow> (string \<times> string \<times> MCPServer) option" where
  "server_value h v =
     (case meta_value h (vm_meta v) of
        None \<Rightarrow> None
      | Some (ns, n, uid, gen, d) \<Rightarrow>
          (case spec_value h (vm_spec v) of
             None \<Rightarrow> None
           | Some sp \<Rightarrow>
               (case status_value h (vm_status v) of
                  None \<Rightarrow> None
                | Some st \<Rightarrow> Some (vm_kind v, vm_api_version v,
                    \<lparr>m_namespace = ns, m_name = n, m_uid = uid, m_generation = gen, m_deletion = d,
                     m_spec = sp, m_status = st\<rparr>))))"

definition server_above :: "nat \<Rightarrow> heap \<Rightarrow> server_mem \<Rightarrow> bool" where
  "server_above lo h v \<longleftrightarrow> meta_above lo h (vm_meta v) \<and> spec_above lo h (vm_spec v) \<and> status_above lo h (vm_status v)"

type_synonym meta_copier = "heap \<Rightarrow> object_meta \<Rightarrow> (heap \<times> object_meta) option"

definition DeepCopyInto_server :: "meta_copier \<Rightarrow> (Condition \<Rightarrow> Condition) \<Rightarrow> heap \<Rightarrow> server_mem
    \<Rightarrow> (heap \<times> server_mem) option" where
  "DeepCopyInto_server copy_meta copy_cond h v =
     (case copy_meta h (vm_meta v) of
        None \<Rightarrow> None
      | Some (h1, m) \<Rightarrow>
          (case DeepCopyInto_spec h1 (vm_spec v) of
             None \<Rightarrow> None
           | Some (h2, sp) \<Rightarrow>
               (case DeepCopyInto_status copy_cond h2 (vm_status v) of
                  None \<Rightarrow> None
                | Some (h3, st) \<Rightarrow> Some (h3, v\<lparr>vm_meta := m, vm_spec := sp, vm_status := st\<rparr>))))"

lemma server_value_Some:
  "server_value h v = Some (k, api, s) \<longleftrightarrow>
     vm_kind v = k \<and> vm_api_version v = api \<and>
     meta_value h (vm_meta v) = Some (m_namespace s, m_name s, m_uid s, m_generation s, m_deletion s) \<and>
     spec_value h (vm_spec v) = Some (m_spec s) \<and> status_value h (vm_status v) = Some (m_status s)"
  by (auto simp: server_value_def split: option.splits)

text \<open>What the program relies on from the copies of apimachinery.\<close>

locale api_copies =
  meta: deep_copy meta_above meta_value copy_meta for copy_meta :: meta_copier +
  fixes copy_cond :: "Condition \<Rightarrow> Condition"
  assumes copy_cond: "copy_cond c = c"
begin

lemma status_ok: "deep_copy status_above status_value (DeepCopyInto_status copy_cond)"
  by (rule status_deep_copy) (rule copy_cond)

lemma server_ok: "deep_copy server_above server_value (DeepCopyInto_server copy_meta copy_cond)"
proof
  fix h v w
  assume ok: "heap_ok h" and w: "server_value h v = Some w"
  obtain k api s where ws: "w = (k, api, s)" by (metis surj_pair)
  note vals = w[unfolded ws server_value_Some]
  note ls = status_ok
  from meta.copy_ok[OF ok] vals obtain h1 m where 1: "copy_meta h (vm_meta v) = Some (h1, m)" "heap_ok h1"
    "extends h h1" "meta_above (next_addr h) h1 m"
    "meta_value h1 m = Some (m_namespace s, m_name s, m_uid s, m_generation s, m_deletion s)" by blast
  from spec.copy_ok[OF 1(2)] spec.val_extends[OF ok 1(3)] vals obtain h2 sp
    where 2: "DeepCopyInto_spec h1 (vm_spec v) = Some (h2, sp)" "heap_ok h2" "extends h1 h2"
      "spec_above (next_addr h1) h2 sp" "spec_value h2 sp = Some (m_spec s)" by blast
  have e2: "extends h h2" using 1(3) 2(3) by (rule extends_trans)
  from deep_copy.copy_ok[OF ls 2(2)] deep_copy.val_extends[OF ls ok e2] vals obtain h3 st
    where 3: "DeepCopyInto_status copy_cond h2 (vm_status v) = Some (h3, st)" "heap_ok h3" "extends h2 h3"
      "status_above (next_addr h2) h3 st" "status_value h3 st = Some (m_status s)" by blast
  have e13: "extends h1 h3" using 2(3) 3(3) by (rule extends_trans)
  have "meta_above (next_addr h) h3 m \<and> meta_value h3 m = meta_value h1 m"
    using meta.above_extends[OF 1(2) e13 1(5) 1(4)] meta.val_extends[OF 1(2) e13 1(5)] 1(5) by simp
  moreover have "spec_above (next_addr h) h3 sp \<and> spec_value h3 sp = Some (m_spec s)"
    using spec.above_extends[OF 2(2) 3(3) 2(5) spec.above_le[OF 2(4)]] spec.val_extends[OF 2(2) 3(3) 2(5)] 1(3)
    by (simp add: extends_def)
  moreover have "status_above (next_addr h) h3 st"
    using deep_copy.above_le[OF ls 3(4)] e2 by (simp add: extends_def)
  moreover have "extends h h3" using e2 3(3) by (rule extends_trans)
  ultimately show "\<exists>h' y. DeepCopyInto_server copy_meta copy_cond h v = Some (h', y) \<and> heap_ok h' \<and> extends h h' \<and>
      server_above (next_addr h) h' y \<and> server_value h' y = Some w"
    using 1 2 3 vals by (simp add: ws DeepCopyInto_server_def server_above_def server_value_Some)
next
  fix lo h v h'
  assume ab: "server_above lo h v" and eq: "same_from lo h h'"
  from ab have "meta_above lo h (vm_meta v)" "spec_above lo h (vm_spec v)" "status_above lo h (vm_status v)"
    by (simp_all add: server_above_def)
  from meta.frame[OF this(1) eq] spec.frame[OF this(2) eq] deep_copy.frame[OF status_ok this(3) eq]
  show "server_above lo h' v \<and> server_value h' v = server_value h v"
    by (simp add: server_above_def server_value_def cong: option.case_cong)
next
  fix h h' v w
  assume a: "heap_ok h" "extends h h'" "server_value h v = Some w"
  obtain k api s where "w = (k, api, s)" by (metis surj_pair)
  with a(3) show "server_value h' v = Some w"
    using meta.val_extends[OF a(1,2)] spec.val_extends[OF a(1,2)] deep_copy.val_extends[OF status_ok a(1,2)]
    by (simp add: server_value_Some)
next
  fix h h' v w lo
  assume a: "heap_ok h" "extends h h'" "server_value h v = Some w" "server_above lo h v"
  obtain k api s where ws: "w = (k, api, s)" by (metis surj_pair)
  show "server_above lo h' v"
    using a(3,4)[unfolded ws] meta.above_extends[OF a(1,2)] spec.above_extends[OF a(1,2)] deep_copy.above_extends[OF status_ok a(1,2)]
    unfolding server_value_Some server_above_def by blast
next
  fix lo h v lo'
  assume "server_above lo h v" "lo' \<le> lo"
  then show "server_above lo' h v"
    unfolding server_above_def using meta.above_le spec.above_le deep_copy.above_le[OF status_ok] by blast
qed

end

sublocale api_copies \<subseteq> status: deep_copy status_above status_value "DeepCopyInto_status copy_cond"
  by (rule status_ok)

sublocale api_copies \<subseteq> server: deep_copy server_above server_value "DeepCopyInto_server copy_meta copy_cond"
  by (rule server_ok)

section \<open>Arrays of servers\<close>

definition zero_server :: server_mem where
  "zero_server = \<lparr>vm_kind = [], vm_api_version = [],
     vm_meta = \<lparr>om_mem_namespace = [], om_mem_name = [], om_mem_uid = [], om_mem_generation = 0, om_mem_deletion = None\<rparr>,
     vm_spec = \<lparr>sm_image = [], sm_port = 0, sm_tools = NilSlice, sm_allowed = NilSlice, sm_auth_type = [],
       sm_auth_secret_ref = []\<rparr>,
     vm_status = \<lparr>tm_phase = [], tm_observed = 0, tm_conditions = NilSlice\<rparr>\<rparr>"

definition items_value :: "heap \<Rightarrow> slice \<Rightarrow> (string \<times> string \<times> MCPServer) list option" where
  "items_value h s =
     (case read_slice servers_in h s of None \<Rightarrow> None | Some xs \<Rightarrow> those (map (server_value h) xs))"

definition items_above :: "nat \<Rightarrow> heap \<Rightarrow> slice \<Rightarrow> bool" where
  "items_above lo h s \<longleftrightarrow> slice_above lo s \<and>
     (case read_slice servers_in h s of None \<Rightarrow> True | Some xs \<Rightarrow> list_all (server_above lo h) xs)"

text \<open>The loop over the items: the source and the target array are read afresh in every round.\<close>

fun fill_items :: "meta_copier \<Rightarrow> (Condition \<Rightarrow> Condition) \<Rightarrow> slice \<Rightarrow> nat \<Rightarrow> nat \<Rightarrow> nat \<Rightarrow> heap \<Rightarrow> heap option" where
  "fill_items copy_meta copy_cond src b i 0 h = Some h"
| "fill_items copy_meta copy_cond src b i (Suc k) h =
     (case read_slice servers_in h src of
        None \<Rightarrow> None
      | Some xs \<Rightarrow>
          if i < length xs then
            (case DeepCopyInto_server copy_meta copy_cond h (xs ! i) of
               None \<Rightarrow> None
             | Some (h1, y) \<Rightarrow>
                 (case Option.bind (cells h1 b) servers_in of
                    None \<Rightarrow> None
                  | Some ys \<Rightarrow>
                      if i < length ys then
                        fill_items copy_meta copy_cond src b (i + 1) k (store b (CServers (ys[i := y])) h1)
                      else None))
          else None)"

definition copy_items :: "meta_copier \<Rightarrow> (Condition \<Rightarrow> Condition) \<Rightarrow> heap \<Rightarrow> slice \<Rightarrow> (heap \<times> slice) option" where
  "copy_items copy_meta copy_cond h s =
     (case s of
        NilSlice \<Rightarrow> Some (h, NilSlice)
      | Slice a off n \<Rightarrow>
          (let (h1, b) = alloc (CServers (replicate n zero_server)) h in
           case fill_items copy_meta copy_cond s b 0 n h1 of
             None \<Rightarrow> None
           | Some h2 \<Rightarrow> Some (h2, Slice b 0 n)))"

lemma those_map: "those (map f xs) = Some vs \<longleftrightarrow> list_all2 (\<lambda>x v. f x = Some v) xs vs"
proof (induction xs arbitrary: vs)
  case Nil
  then show ?case by auto
next
  case (Cons x xs)
  then show ?case by (cases vs) (auto split: option.splits)
qed

lemma items_value_Some:
  "items_value h s = Some ws \<longleftrightarrow>
     (\<exists>xs. read_slice servers_in h s = Some xs \<and> length xs = length ws \<and>
        (\<forall>i < length ws. server_value h (xs ! i) = Some (ws ! i)))"
  by (auto simp: items_value_def those_map list_all2_conv_all_nth split: option.splits)

context api_copies
begin

text \<open>After \<open>i\<close> rounds the first \<open>i\<close> elements are copies, made of memory above the array.\<close>

definition filled :: "heap \<Rightarrow> (string \<times> string \<times> MCPServer) list \<Rightarrow> nat \<Rightarrow> heap \<Rightarrow> bool" where
  "filled h0 ws i h \<longleftrightarrow> heap_ok h \<and> extends h0 h \<and> next_addr h0 < next_addr h \<and>
     (\<exists>ys. cells h (next_addr h0) = Some (CServers ys) \<and> length ys = length ws \<and>
        (\<forall>j < i. server_above (next_addr h0 + 1) h (ys ! j) \<and> server_value h (ys ! j) = Some (ws ! j)))"

lemma fill_step:
  assumes "heap_ok h0" and "items_value h0 src = Some ws" and "filled h0 ws i h" and "i < length ws"
  shows "\<exists>h'. fill_items copy_meta copy_cond src (next_addr h0) i (Suc k) h
      = fill_items copy_meta copy_cond src (next_addr h0) (i + 1) k h' \<and> filled h0 ws (i + 1) h'"
proof -
  let ?b = "next_addr h0"
  from assms(2) obtain xs where xs: "read_slice servers_in h0 src = Some xs" "length xs = length ws"
    "server_value h0 (xs ! i) = Some (ws ! i)" using assms(4) unfolding items_value_Some by blast
  from assms(3) obtain ys where h: "heap_ok h" "extends h0 h" "?b < next_addr h"
    and ys: "cells h ?b = Some (CServers ys)" "length ys = length ws"
      "\<And>j. j < i \<Longrightarrow> server_above (?b + 1) h (ys ! j) \<and> server_value h (ys ! j) = Some (ws ! j)"
    unfolding filled_def by blast
  have rd: "read_slice servers_in h src = Some xs" using read_slice_below[OF xs(1) assms(1) h(2)] .
  from server.copy_ok[OF h(1) server.val_extends[OF assms(1) h(2) xs(3)]] obtain h1 y where
    y: "DeepCopyInto_server copy_meta copy_cond h (xs ! i) = Some (h1, y)" "heap_ok h1" "extends h h1"
      "server_above (next_addr h) h1 y" "server_value h1 y = Some (ws ! i)" by blast
  have b1: "cells h1 ?b = Some (CServers ys)" "?b < next_addr h1" using y(3) h(3) ys(1) by (auto simp: extends_def)
  let ?h2 = "store ?b (CServers (ys[i := y])) h1"
  have "server_above (?b + 1) h1 y" using server.above_le[OF y(4)] h(3) by simp
  note new = server.frame_store[OF this, of ?b "CServers (ys[i := y])"]
  have old: "server_above (?b + 1) ?h2 (ys ! j) \<and> server_value ?h2 (ys ! j) = Some (ws ! j)" if "j < i" for j
    using server.frame_store[OF server.above_extends[OF h(1) y(3)], of "ys ! j" "ws ! j" "?b + 1" ?b "CServers (ys[i := y])"]
      server.val_extends[OF h(1) y(3)] ys(3)[OF that] by simp
  have "filled h0 ws (i + 1) ?h2"
    unfolding filled_def
  proof (intro conjI exI allI impI)
    show "heap_ok ?h2" using y(2) b1(2) by (rule heap_ok_store)
    show "extends h0 ?h2" using extends_store[OF extends_trans[OF h(2) y(3)]] by simp
    show "?b < next_addr ?h2" using b1(2) by simp
    show "cells ?h2 ?b = Some (CServers (ys[i := y]))" by (simp add: store_def)
    show "length (ys[i := y]) = length ws" using ys(2) by simp
    fix j assume "j < i + 1"
    then show "server_above (?b + 1) ?h2 (ys[i := y] ! j)" "server_value ?h2 (ys[i := y] ! j) = Some (ws ! j)"
      using old[of j] new y(5) assms(4) ys(2) by (auto simp: nth_list_update less_Suc_eq)
  qed
  moreover have "fill_items copy_meta copy_cond src ?b i (Suc k) h
      = fill_items copy_meta copy_cond src ?b (i + 1) k ?h2"
    using rd y(1) b1(1) assms(4) xs(2) ys(2) by simp
  ultimately show ?thesis by blast
qed

lemma fill_items_ok:
  assumes "heap_ok h0" and "items_value h0 src = Some ws"
  shows "filled h0 ws i h \<Longrightarrow> i + k = length ws \<Longrightarrow>
    \<exists>h'. fill_items copy_meta copy_cond src (next_addr h0) i k h = Some h' \<and> filled h0 ws (length ws) h'"
proof (induction k arbitrary: i h)
  case (Suc k)
  then obtain h' where "fill_items copy_meta copy_cond src (next_addr h0) i (Suc k) h
      = fill_items copy_meta copy_cond src (next_addr h0) (i + 1) k h'" "filled h0 ws (i + 1) h'"
    using fill_step[OF assms Suc.prems(1), of k] by auto
  with Suc.IH[of "i + 1" h'] Suc.prems(2) show ?case by simp
qed simp

lemma filled_start:
  assumes "heap_ok h"
  shows "filled h ws 0 (fst (alloc (CServers (replicate (length ws) zero_server)) h))"
  using assms unfolding filled_def by simp (simp add: alloc_def)

lemma filled_items:
  "filled h0 ws (length ws) h \<Longrightarrow> items_above (next_addr h0) h (Slice (next_addr h0) 0 (length ws)) \<and>
     items_value h (Slice (next_addr h0) 0 (length ws)) = Some ws"
proof -
  assume f: "filled h0 ws (length ws) h"
  then obtain ys where ys: "cells h (next_addr h0) = Some (CServers ys)" "length ys = length ws"
    "\<And>j. j < length ws \<Longrightarrow> server_above (next_addr h0 + 1) h (ys ! j) \<and> server_value h (ys ! j) = Some (ws ! j)"
    unfolding filled_def by blast
  then have rd: "read_slice servers_in h (Slice (next_addr h0) 0 (length ws)) = Some ys"
    by (simp add: read_slice_def)
  moreover have "list_all (server_above (next_addr h0) h) ys"
    unfolding list_all_length using ys(2,3) server.above_le[of "next_addr h0 + 1" h _ "next_addr h0"] by simp
  ultimately show ?thesis
    using ys(2,3) by (auto simp: items_above_def items_value_Some slice_above_def)
qed

lemma items_ok: "deep_copy items_above items_value (copy_items copy_meta copy_cond)"
proof
  fix h s ws
  assume ok: "heap_ok h" and ws: "items_value h s = Some ws"
  show "\<exists>h' y. copy_items copy_meta copy_cond h s = Some (h', y) \<and> heap_ok h' \<and> extends h h' \<and>
      items_above (next_addr h) h' y \<and> items_value h' y = Some ws"
  proof (cases s)
    case NilSlice
    with ok ws show ?thesis by (simp add: copy_items_def items_above_def slice_above_def read_slice_def)
  next
    case (Slice a off n)
    then have n: "n = length ws" using ws
      by (auto simp: items_value_Some read_slice_def split: option.splits if_splits)
    from fill_items_ok[OF ok ws filled_start[OF ok], of "length ws"] obtain h2 where
      h2: "fill_items copy_meta copy_cond s (next_addr h) 0 n (fst (alloc (CServers (replicate n zero_server)) h)) = Some h2"
      "filled h ws (length ws) h2" using n by auto
    then have "copy_items copy_meta copy_cond h s = Some (h2, Slice (next_addr h) 0 n)"
      using Slice by (simp add: copy_items_def alloc_def)
    with filled_items[OF h2(2)] h2(2) n show ?thesis by (simp add: filled_def)
  qed
next
  fix lo h s h'
  assume ab: "items_above lo h s" and eq: "same_from lo h h'"
  then have rd: "read_slice servers_in h' s = read_slice servers_in h s"
    by (auto simp: items_above_def intro: read_slice_above)
  show "items_above lo h' s \<and> items_value h' s = items_value h s"
  proof (cases "read_slice servers_in h s")
    case None
    with ab rd show ?thesis by (simp add: items_above_def items_value_def)
  next
    case (Some xs)
    with ab have "\<forall>x \<in> set xs. server_above lo h' x \<and> server_value h' x = server_value h x"
      using server.frame[OF _ eq] by (auto simp: items_above_def list_all_iff)
    then have "those (map (server_value h') xs) = those (map (server_value h) xs)" "list_all (server_above lo h') xs"
      by (auto simp: list_all_iff intro!: arg_cong[where f = those])
    with ab rd Some show ?thesis by (simp add: items_above_def items_value_def)
  qed
next
  fix h h' s ws
  assume a: "heap_ok h" "extends h h'" "items_value h s = Some ws"
  then show "items_value h' s = Some ws"
    unfolding items_value_Some using read_slice_below[OF _ a(1,2)] server.val_extends[OF a(1,2)] by metis
next
  fix h h' s ws lo
  assume a: "heap_ok h" "extends h h'" "items_value h s = Some ws" and ab: "items_above lo h s"
  from a(3) obtain xs where xs: "read_slice servers_in h s = Some xs" "length xs = length ws"
    "\<And>i. i < length ws \<Longrightarrow> server_value h (xs ! i) = Some (ws ! i)" unfolding items_value_Some by blast
  have "list_all (server_above lo h') xs"
    using ab xs server.above_extends[OF a(1,2)] unfolding list_all_length items_above_def by auto
  with ab xs(1) read_slice_below[OF xs(1) a(1,2)] show "items_above lo h' s" by (simp add: items_above_def)
next
  fix lo h s lo'
  assume "items_above lo h s" "lo' \<le> lo"
  then show "items_above lo' h s"
    by (auto simp: items_above_def slice_above_def list_all_iff intro: server.above_le split: slice.splits option.splits)
qed

end

section \<open>Lists\<close>

definition remaining_value :: "heap \<Rightarrow> nat option \<Rightarrow> int64 option option" where
  "remaining_value h p =
     (case p of
        None \<Rightarrow> Some None
      | Some a \<Rightarrow> (case cells h a of Some (CInt n) \<Rightarrow> Some (Some n) | _ \<Rightarrow> None))"

definition list_meta_value :: "heap \<Rightarrow> list_meta \<Rightarrow> (string \<times> string \<times> int64 option) option" where
  "list_meta_value h m = map_option (\<lambda>r. (lm_version m, lm_continue m, r)) (remaining_value h (lm_remaining m))"

definition list_meta_above :: "nat \<Rightarrow> heap \<Rightarrow> list_meta \<Rightarrow> bool" where
  "list_meta_above lo h m \<longleftrightarrow> ptr_above lo (lm_remaining m)"

type_synonym list_value = "string \<times> string \<times> (string \<times> string \<times> int64 option) \<times> (string \<times> string \<times> MCPServer) list"

definition list_value :: "heap \<Rightarrow> list_mem \<Rightarrow> list_value option" where
  "list_value h l =
     (case list_meta_value h (im_meta l) of
        None \<Rightarrow> None
      | Some m \<Rightarrow>
          (case items_value h (im_items l) of
             None \<Rightarrow> None
           | Some ws \<Rightarrow> Some (im_kind l, im_api_version l, m, ws)))"

definition list_above :: "nat \<Rightarrow> heap \<Rightarrow> list_mem \<Rightarrow> bool" where
  "list_above lo h l \<longleftrightarrow> list_meta_above lo h (im_meta l) \<and> items_above lo h (im_items l)"

type_synonym list_meta_copier = "heap \<Rightarrow> list_meta \<Rightarrow> (heap \<times> list_meta) option"

definition DeepCopyInto_list :: "list_meta_copier \<Rightarrow> meta_copier \<Rightarrow> (Condition \<Rightarrow> Condition) \<Rightarrow> heap \<Rightarrow> list_mem
    \<Rightarrow> (heap \<times> list_mem) option" where
  "DeepCopyInto_list copy_list_meta copy_meta copy_cond h l =
     (case copy_list_meta h (im_meta l) of
        None \<Rightarrow> None
      | Some (h1, m) \<Rightarrow>
          (case copy_items copy_meta copy_cond h1 (im_items l) of
             None \<Rightarrow> None
           | Some (h2, items) \<Rightarrow> Some (h2, l\<lparr>im_meta := m, im_items := items\<rparr>)))"

lemma list_value_Some:
  "list_value h l = Some (k, api, m, ws) \<longleftrightarrow> im_kind l = k \<and> im_api_version l = api \<and>
     list_meta_value h (im_meta l) = Some m \<and> items_value h (im_items l) = Some ws"
  by (auto simp: list_value_def split: option.splits)

locale list_copies = api_copies +
  lmeta: deep_copy list_meta_above list_meta_value copy_list_meta for copy_list_meta :: list_meta_copier
begin

lemma list_ok: "deep_copy list_above list_value (DeepCopyInto_list copy_list_meta copy_meta copy_cond)"
proof
  fix h l w
  assume ok: "heap_ok h" and w: "list_value h l = Some w"
  obtain k api m ws where ws: "w = (k, api, m, ws)" by (metis prod_cases4)
  note vals = w[unfolded ws list_value_Some]
  from lmeta.copy_ok[OF ok] vals obtain h1 n where 1: "copy_list_meta h (im_meta l) = Some (h1, n)" "heap_ok h1"
    "extends h h1" "list_meta_above (next_addr h) h1 n" "list_meta_value h1 n = Some m" by blast
  from deep_copy.copy_ok[OF items_ok 1(2)] deep_copy.val_extends[OF items_ok ok 1(3)] vals obtain h2 s
    where 2: "copy_items copy_meta copy_cond h1 (im_items l) = Some (h2, s)" "heap_ok h2" "extends h1 h2"
      "items_above (next_addr h1) h2 s" "items_value h2 s = Some ws" by blast
  have "items_above (next_addr h) h2 s"
    using deep_copy.above_le[OF items_ok 2(4)] 1(3) by (simp add: extends_def)
  moreover have "list_meta_above (next_addr h) h2 n" "list_meta_value h2 n = Some m"
    using lmeta.above_extends[OF 1(2) 2(3) 1(5) 1(4)] lmeta.val_extends[OF 1(2) 2(3) 1(5)] by blast+
  moreover have "extends h h2" using 1(3) 2(3) by (rule extends_trans)
  ultimately show "\<exists>h' y. DeepCopyInto_list copy_list_meta copy_meta copy_cond h l = Some (h', y) \<and> heap_ok h' \<and>
      extends h h' \<and> list_above (next_addr h) h' y \<and> list_value h' y = Some w"
    using 1 2 vals by (simp add: ws DeepCopyInto_list_def list_above_def list_value_Some)
next
  fix lo h l h'
  assume ab: "list_above lo h l" and eq: "same_from lo h h'"
  from ab have "list_meta_above lo h (im_meta l)" "items_above lo h (im_items l)" by (simp_all add: list_above_def)
  from lmeta.frame[OF this(1) eq] deep_copy.frame[OF items_ok this(2) eq]
  show "list_above lo h' l \<and> list_value h' l = list_value h l"
    by (simp add: list_above_def list_value_def cong: option.case_cong)
next
  fix h h' l w
  assume a: "heap_ok h" "extends h h'" "list_value h l = Some w"
  obtain k api m ws where ws: "w = (k, api, m, ws)" by (metis prod_cases4)
  show "list_value h' l = Some w"
    using a(3) lmeta.val_extends[OF a(1,2)] deep_copy.val_extends[OF items_ok a(1,2)]
    by (simp add: ws list_value_Some)
next
  fix h h' l w lo
  assume a: "heap_ok h" "extends h h'" "list_value h l = Some w" "list_above lo h l"
  obtain k api m ws where ws: "w = (k, api, m, ws)" by (metis prod_cases4)
  show "list_above lo h' l"
    using a(3,4)[unfolded ws] lmeta.above_extends[OF a(1,2)] deep_copy.above_extends[OF items_ok a(1,2)]
    unfolding list_value_Some list_above_def by blast
next
  fix lo h l lo'
  assume "list_above lo h l" "lo' \<le> lo"
  then show "list_above lo' h l"
    unfolding list_above_def using lmeta.above_le deep_copy.above_le[OF items_ok] by blast
qed

end

section \<open>Pointers\<close>

definition accountptr_in :: "cell \<Rightarrow> ServiceAccountReference option" where
  "accountptr_in c = (case c of CAccount x \<Rightarrow> Some x | _ \<Rightarrow> None)"

definition spec_in :: "cell \<Rightarrow> spec_mem option" where
  "spec_in c = (case c of CSpec x \<Rightarrow> Some x | _ \<Rightarrow> None)"

definition status_in :: "cell \<Rightarrow> status_mem option" where
  "status_in c = (case c of CStatus x \<Rightarrow> Some x | _ \<Rightarrow> None)"

definition server_in :: "cell \<Rightarrow> server_mem option" where
  "server_in c = (case c of CServer x \<Rightarrow> Some x | _ \<Rightarrow> None)"

definition list_in :: "cell \<Rightarrow> list_mem option" where
  "list_in c = (case c of CList x \<Rightarrow> Some x | _ \<Rightarrow> None)"

text \<open>\<^verbatim>\<open>DeepCopy()\<close> of a type whose \<^verbatim>\<open>DeepCopyInto\<close> is \<open>into\<close>: nil for nil, otherwise a new object.\<close>

definition copy_ptr :: "(cell \<Rightarrow> 'm option) \<Rightarrow> ('m \<Rightarrow> cell) \<Rightarrow> 'm \<Rightarrow> (heap \<Rightarrow> 'm \<Rightarrow> (heap \<times> 'm) option)
    \<Rightarrow> heap \<Rightarrow> nat option \<Rightarrow> (heap \<times> nat option) option" where
  "copy_ptr proj wrap zero into h p =
     (case p of
        None \<Rightarrow> Some (h, None)
      | Some a \<Rightarrow>
          (case Option.bind (cells h a) proj of
             None \<Rightarrow> None
           | Some x \<Rightarrow>
               (let (h1, b) = alloc (wrap zero) h in
                case into h1 x of
                  None \<Rightarrow> None
                | Some (h2, y) \<Rightarrow> Some (store b (wrap y) h2, Some b))))"

definition zero_account :: ServiceAccountReference where
  "zero_account = \<lparr>sa_namespace = [], sa_name = []\<rparr>"

definition zero_list :: list_mem where
  "zero_list = \<lparr>im_kind = [], im_api_version = [],
     im_meta = \<lparr>lm_version = [], lm_continue = [], lm_remaining = None\<rparr>, im_items = NilSlice\<rparr>"

definition DeepCopyInto_account :: "heap \<Rightarrow> ServiceAccountReference \<Rightarrow> (heap \<times> ServiceAccountReference) option" where
  "DeepCopyInto_account h x = Some (h, x)"

definition DeepCopy_account :: "heap \<Rightarrow> nat option \<Rightarrow> (heap \<times> nat option) option" where
  "DeepCopy_account = copy_ptr accountptr_in CAccount zero_account DeepCopyInto_account"

definition DeepCopy_spec :: "heap \<Rightarrow> nat option \<Rightarrow> (heap \<times> nat option) option" where
  "DeepCopy_spec = copy_ptr spec_in CSpec (vm_spec zero_server) DeepCopyInto_spec"

definition DeepCopy_status :: "(Condition \<Rightarrow> Condition) \<Rightarrow> heap \<Rightarrow> nat option \<Rightarrow> (heap \<times> nat option) option" where
  "DeepCopy_status copy_cond = copy_ptr status_in CStatus (vm_status zero_server) (DeepCopyInto_status copy_cond)"

definition DeepCopy_server :: "meta_copier \<Rightarrow> (Condition \<Rightarrow> Condition) \<Rightarrow> heap \<Rightarrow> nat option
    \<Rightarrow> (heap \<times> nat option) option" where
  "DeepCopy_server copy_meta copy_cond =
     copy_ptr server_in CServer zero_server (DeepCopyInto_server copy_meta copy_cond)"

definition DeepCopy_list :: "list_meta_copier \<Rightarrow> meta_copier \<Rightarrow> (Condition \<Rightarrow> Condition) \<Rightarrow> heap \<Rightarrow> nat option
    \<Rightarrow> (heap \<times> nat option) option" where
  "DeepCopy_list copy_list_meta copy_meta copy_cond =
     copy_ptr list_in CList zero_list (DeepCopyInto_list copy_list_meta copy_meta copy_cond)"

text \<open>\<^verbatim>\<open>DeepCopyObject\<close> wraps the pointer in an interface, which is nil for a nil pointer.\<close>

datatype runtime_object = NoObject | ServerObject nat | ListObject nat

definition DeepCopyObject_server :: "meta_copier \<Rightarrow> (Condition \<Rightarrow> Condition) \<Rightarrow> heap \<Rightarrow> nat option
    \<Rightarrow> (heap \<times> runtime_object) option" where
  "DeepCopyObject_server copy_meta copy_cond h p =
     (case DeepCopy_server copy_meta copy_cond h p of
        None \<Rightarrow> None
      | Some (h', c) \<Rightarrow> Some (h', case c of Some b \<Rightarrow> ServerObject b | None \<Rightarrow> NoObject))"

definition DeepCopyObject_list :: "list_meta_copier \<Rightarrow> meta_copier \<Rightarrow> (Condition \<Rightarrow> Condition) \<Rightarrow> heap \<Rightarrow> nat option
    \<Rightarrow> (heap \<times> runtime_object) option" where
  "DeepCopyObject_list copy_list_meta copy_meta copy_cond h p =
     (case DeepCopy_list copy_list_meta copy_meta copy_cond h p of
        None \<Rightarrow> None
      | Some (h', c) \<Rightarrow> Some (h', case c of Some b \<Rightarrow> ListObject b | None \<Rightarrow> NoObject))"

text \<open>The value behind a pointer.\<close>

definition value_at :: "(cell \<Rightarrow> 'm option) \<Rightarrow> (heap \<Rightarrow> 'm \<Rightarrow> 'v option) \<Rightarrow> heap \<Rightarrow> nat \<Rightarrow> 'v option" where
  "value_at proj val h a = Option.bind (Option.bind (cells h a) proj) (val h)"

text \<open>
  What a copy through a pointer gives: the value of the original in both places, and no write to
  memory that existed before shows in the copy, none to newer memory in the original.
\<close>

definition independent_copy :: "(heap \<Rightarrow> nat \<Rightarrow> 'v option) \<Rightarrow> heap \<Rightarrow> nat \<Rightarrow> heap \<Rightarrow> nat \<Rightarrow> 'v \<Rightarrow> bool" where
  "independent_copy value h a h' b v \<longleftrightarrow>
     heap_ok h' \<and> value h' a = Some v \<and> value h' b = Some v \<and>
     (\<forall>i c. i < next_addr h \<longrightarrow> value (store i c h') b = Some v) \<and>
     (\<forall>i c. next_addr h \<le> i \<longrightarrow> value (store i c h') a = Some v)"

context deep_copy
begin

lemma copy_ptr_ok:
  assumes "heap_ok h" and "value_at proj val h a = Some v" and "\<And>x. proj (wrap x) = Some x"
  shows "\<exists>h' b. copy_ptr proj wrap zero copy h (Some a) = Some (h', Some b) \<and>
    independent_copy (value_at proj val) h a h' b v"
proof -
  from assms(2) obtain cl x where x: "cells h a = Some cl" "proj cl = Some x" "val h x = Some v"
    by (auto simp: value_at_def bind_eq_Some_conv)
  have a: "a < next_addr h" using x(1) assms(1) by (auto simp: heap_ok_def not_le[symmetric])
  let ?b = "next_addr h"
  define h1 where "h1 = fst (alloc (wrap zero) h)"
  have h1: "heap_ok h1" "extends h h1" "next_addr h1 = ?b + 1" "alloc (wrap zero) h = (h1, ?b)"
    using assms(1) by (simp_all add: h1_def) (simp_all add: alloc_def)
  from copy_ok[OF h1(1) val_extends[OF assms(1) h1(2) x(3)]] obtain h2 y where
    y: "copy h1 x = Some (h2, y)" "heap_ok h2" "extends h1 h2" "above (?b + 1) h2 y" "val h2 y = Some v"
    unfolding h1(3) by blast
  let ?h = "store ?b (wrap y) h2"
  have ext: "extends h ?h" using extends_store[OF extends_trans[OF h1(2) y(3)]] by simp
  have b: "?b < next_addr h2" using y(3) h1(3) by (simp add: extends_def)
  have vy: "above (?b + 1) ?h y" "val ?h y = Some v" using frame_store[OF y(4), of ?b] y(5) by simp_all
  have orig: "value_at proj val h' a = Some v" if "extends h h'" for h'
  proof -
    have "cells h' a = Some cl" using that a x(1) by (simp add: extends_def)
    with val_extends[OF assms(1) that x(3)] x(2) show ?thesis by (simp add: value_at_def)
  qed
  have new: "value_at proj val h' ?b = Some v" if "same_from ?b ?h h'" for h'
  proof -
    have "cells h' ?b = Some (wrap y)" using that by (simp add: same_from_def store_def)
    moreover have "same_from (?b + 1) ?h h'" using that by (simp add: same_from_def)
    then have "val h' y = Some v" using frame[OF vy(1)] vy(2) by simp
    ultimately show ?thesis by (simp add: value_at_def assms(3))
  qed
  have "independent_copy (value_at proj val) h a ?h ?b v"
    unfolding independent_copy_def
  proof (intro conjI allI impI)
    show "heap_ok ?h" using y(2) b by (rule heap_ok_store)
    show "value_at proj val ?h a = Some v" using ext by (rule orig)
    show "value_at proj val ?h ?b = Some v" by (rule new) (simp add: same_from_def)
    fix i c
    show "i < next_addr h \<Longrightarrow> value_at proj val (store i c ?h) ?b = Some v" by (rule new) simp
    show "next_addr h \<le> i \<Longrightarrow> value_at proj val (store i c ?h) a = Some v"
      by (rule orig) (rule extends_store[OF ext])
  qed
  moreover have "copy_ptr proj wrap zero copy h (Some a) = Some (?h, Some ?b)"
    using x(1,2) y(1) h1(4) by (simp add: copy_ptr_def)
  ultimately show ?thesis by blast
qed

end

section \<open>A copier of the metadata\<close>

text \<open>What apimachinery does with the one pointer of each kind of metadata: a new cell.\<close>

definition copy_object_meta :: meta_copier where
  "copy_object_meta h m =
     (case om_mem_deletion m of
        None \<Rightarrow> Some (h, m)
      | Some a \<Rightarrow>
          (case cells h a of
             Some (CTime t) \<Rightarrow> (let (h', b) = alloc (CTime t) h in Some (h', m\<lparr>om_mem_deletion := Some b\<rparr>))
           | _ \<Rightarrow> None))"

definition copy_list_metadata :: list_meta_copier where
  "copy_list_metadata h m =
     (case lm_remaining m of
        None \<Rightarrow> Some (h, m)
      | Some a \<Rightarrow>
          (case cells h a of
             Some (CInt n) \<Rightarrow> (let (h', b) = alloc (CInt n) h in Some (h', m\<lparr>lm_remaining := Some b\<rparr>))
           | _ \<Rightarrow> None))"

lemma cell_below: "heap_ok h \<Longrightarrow> cells h a = Some c \<Longrightarrow> a < next_addr h"
  by (auto simp: heap_ok_def not_le[symmetric])

lemma object_meta_deep_copy: "deep_copy meta_above meta_value copy_object_meta"
proof
  fix h m v
  assume ok: "heap_ok h" and v: "meta_value h m = Some v"
  show "\<exists>h' y. copy_object_meta h m = Some (h', y) \<and> heap_ok h' \<and> extends h h' \<and>
      meta_above (next_addr h) h' y \<and> meta_value h' y = Some v"
  proof (cases "om_mem_deletion m")
    case None
    with ok v show ?thesis by (simp add: copy_object_meta_def meta_above_def ptr_above_def)
  next
    case (Some a)
    with v obtain t where t: "cells h a = Some (CTime t)"
      by (auto simp: meta_value_def deletion_value_def split: option.splits cell.splits)
    have "copy_object_meta h m = Some (fst (alloc (CTime t) h), m\<lparr>om_mem_deletion := Some (next_addr h)\<rparr>)"
      using Some t by (simp add: copy_object_meta_def alloc_def)
    then show ?thesis using ok v Some t
      by (simp add: meta_above_def ptr_above_def) (simp add: meta_value_def deletion_value_def alloc_def)
  qed
qed (auto simp: meta_value_def deletion_value_def meta_above_def ptr_above_def extends_def same_from_def
    dest: cell_below split: option.splits cell.splits)

lemma list_meta_deep_copy: "deep_copy list_meta_above list_meta_value copy_list_metadata"
proof
  fix h m v
  assume ok: "heap_ok h" and v: "list_meta_value h m = Some v"
  show "\<exists>h' y. copy_list_metadata h m = Some (h', y) \<and> heap_ok h' \<and> extends h h' \<and>
      list_meta_above (next_addr h) h' y \<and> list_meta_value h' y = Some v"
  proof (cases "lm_remaining m")
    case None
    with ok v show ?thesis by (simp add: copy_list_metadata_def list_meta_above_def ptr_above_def)
  next
    case (Some a)
    with v obtain n where n: "cells h a = Some (CInt n)"
      by (auto simp: list_meta_value_def remaining_value_def split: option.splits cell.splits)
    have "copy_list_metadata h m = Some (fst (alloc (CInt n) h), m\<lparr>lm_remaining := Some (next_addr h)\<rparr>)"
      using Some n by (simp add: copy_list_metadata_def alloc_def)
    then show ?thesis using ok v Some n
      by (simp add: list_meta_above_def ptr_above_def) (simp add: list_meta_value_def remaining_value_def alloc_def)
  qed
qed (auto simp: list_meta_value_def remaining_value_def list_meta_above_def ptr_above_def extends_def same_from_def
    dest: cell_below split: option.splits cell.splits)

interpretation k8s: list_copies copy_object_meta id copy_list_metadata
  by (intro list_copies.intro api_copies.intro object_meta_deep_copy list_meta_deep_copy api_copies_axioms.intro) simp

section \<open>Properties\<close>

text \<open>
  C18. The deep copy of a server list: for well-formed memory it succeeds and leaves well-formed
  memory, the copy has the value of the original with all its items, and the two share nothing
  that can be written: no write to older memory changes the copy, none to newer memory changes
  the original. A nil pointer gives a nil interface.
\<close>

theorem DeepCopy_list_independent:
  assumes "list_copies copy_meta copy_cond copy_list_meta" and "heap_ok h"
    and "value_at list_in list_value h a = Some v"
  shows "\<exists>h' b. DeepCopy_list copy_list_meta copy_meta copy_cond h (Some a) = Some (h', Some b) \<and>
      DeepCopyObject_list copy_list_meta copy_meta copy_cond h (Some a) = Some (h', ListObject b) \<and>
      DeepCopyObject_list copy_list_meta copy_meta copy_cond h None = Some (h, NoObject) \<and>
      independent_copy (value_at list_in list_value) h a h' b v"
proof -
  note copies = list_copies.list_ok[OF assms(1)]
  show ?thesis
    using deep_copy.copy_ptr_ok[OF copies assms(2,3), of CList zero_list]
    by (auto simp: DeepCopy_list_def DeepCopyObject_list_def copy_ptr_def list_in_def)
qed

text \<open>
  The same of the deep copies of a server, of its spec and of its status.
\<close>

theorem DeepCopy_server_independent:
  assumes "api_copies copy_meta copy_cond" and "heap_ok h"
  shows "(value_at server_in server_value h a = Some v \<longrightarrow>
      (\<exists>h' b. DeepCopy_server copy_meta copy_cond h (Some a) = Some (h', Some b) \<and>
        DeepCopyObject_server copy_meta copy_cond h (Some a) = Some (h', ServerObject b) \<and>
        independent_copy (value_at server_in server_value) h a h' b v))
    \<and> (value_at spec_in spec_value h a = Some sp \<longrightarrow>
      (\<exists>h' b. DeepCopy_spec h (Some a) = Some (h', Some b) \<and>
        independent_copy (value_at spec_in spec_value) h a h' b sp))
    \<and> (value_at status_in status_value h a = Some st \<longrightarrow>
      (\<exists>h' b. DeepCopy_status copy_cond h (Some a) = Some (h', Some b) \<and>
        independent_copy (value_at status_in status_value) h a h' b st))"
proof (intro conjI impI)
  note ok = api_copies.server_ok[OF assms(1)] api_copies.status_ok[OF assms(1)]
  show "\<exists>h' b. DeepCopy_server copy_meta copy_cond h (Some a) = Some (h', Some b) \<and>
        DeepCopyObject_server copy_meta copy_cond h (Some a) = Some (h', ServerObject b) \<and>
        independent_copy (value_at server_in server_value) h a h' b v"
    if "value_at server_in server_value h a = Some v"
    using deep_copy.copy_ptr_ok[OF ok(1) assms(2) that, of CServer zero_server]
    by (auto simp: DeepCopy_server_def DeepCopyObject_server_def server_in_def)
  show "\<exists>h' b. DeepCopy_spec h (Some a) = Some (h', Some b) \<and>
        independent_copy (value_at spec_in spec_value) h a h' b sp"
    if "value_at spec_in spec_value h a = Some sp"
    using spec.copy_ptr_ok[OF assms(2) that, of CSpec "vm_spec zero_server"]
    by (simp add: DeepCopy_spec_def spec_in_def)
  show "\<exists>h' b. DeepCopy_status copy_cond h (Some a) = Some (h', Some b) \<and>
        independent_copy (value_at status_in status_value) h a h' b st"
    if "value_at status_in status_value h a = Some st"
    using deep_copy.copy_ptr_ok[OF ok(2) assms(2) that, of CStatus "vm_status zero_server"]
    by (simp add: DeepCopy_status_def status_in_def)
qed

text \<open>A list of one server, whose status and policy arrays and deletion time are in memory.\<close>

definition sample_mem :: server_mem where
  "sample_mem = \<lparr>vm_kind = ''MCPServer'', vm_api_version = ''mcp.portkeeper.dev/v1alpha1'',
     vm_meta = \<lparr>om_mem_namespace = ''team'', om_mem_name = ''tools'', om_mem_uid = ''u'', om_mem_generation = 2,
       om_mem_deletion = Some 3\<rparr>,
     vm_spec = \<lparr>sm_image = ''img'', sm_port = 8080, sm_tools = NilSlice, sm_allowed = Slice 2 0 1, sm_auth_type = [],
       sm_auth_secret_ref = []\<rparr>,
     vm_status = \<lparr>tm_phase = ''Running'', tm_observed = 2, tm_conditions = NilSlice\<rparr>\<rparr>"

definition sample_heap :: heap where
  "sample_heap = \<lparr>cells = [0 \<mapsto> CList \<lparr>im_kind = [], im_api_version = [],
       im_meta = \<lparr>lm_version = ''7'', lm_continue = [], lm_remaining = None\<rparr>, im_items = Slice 1 0 1\<rparr>,
     1 \<mapsto> CServers [sample_mem], 2 \<mapsto> CAccounts [\<lparr>sa_namespace = ''team'', sa_name = ''agent''\<rparr>], 3 \<mapsto> CTime 9],
     next_addr = 4\<rparr>"

lemma sample_heap_ok: "heap_ok sample_heap"
  by (simp add: heap_ok_def sample_heap_def)

lemma sample_list_value:
  "\<exists>ws. value_at list_in list_value sample_heap 0 = Some ([], [], (''7'', [], None), ws) \<and> length ws = 1"
  by (simp add: value_at_def list_in_def list_value_def list_meta_value_def remaining_value_def items_value_def
      server_value_def meta_value_def deletion_value_def spec_value_def status_value_def read_slice_def
      sample_heap_def sample_mem_def)

theorem DeepCopy_list_independent_witness:
  "\<exists>h' b ws. DeepCopy_list copy_list_metadata copy_object_meta id sample_heap (Some 0) = Some (h', Some b) \<and>
     value_at list_in list_value (store 2 (CAccounts []) h') b = Some ([], [], (''7'', [], None), ws) \<and> length ws = 1"
proof -
  obtain ws where ws: "value_at list_in list_value sample_heap 0 = Some ([], [], (''7'', [], None), ws)" "length ws = 1"
    using sample_list_value by blast
  have "(2::nat) < next_addr sample_heap" by (simp add: sample_heap_def)
  with DeepCopy_list_independent[OF k8s.list_copies_axioms sample_heap_ok ws(1)] ws(2)
  show ?thesis unfolding independent_copy_def by blast
qed

theorem DeepCopy_server_independent_witness:
  "\<exists>h' b sp. DeepCopy_spec (store 0 (CSpec (vm_spec sample_mem)) sample_heap) (Some 0) = Some (h', Some b) \<and>
     value_at spec_in spec_value (store 2 (CAccounts []) h') b = Some sp \<and> spec_allowed sp = [\<lparr>sa_namespace = ''team'', sa_name = ''agent''\<rparr>]"
proof -
  let ?h = "store 0 (CSpec (vm_spec sample_mem)) sample_heap"
  have ok: "heap_ok ?h" by (rule heap_ok_store[OF sample_heap_ok]) (simp add: sample_heap_def)
  obtain sp where sp: "value_at spec_in spec_value ?h 0 = Some sp" "spec_allowed sp = [\<lparr>sa_namespace = ''team'', sa_name = ''agent''\<rparr>]"
    by (simp add: value_at_def spec_in_def spec_value_def read_slice_def store_def sample_heap_def sample_mem_def)
  have "(2::nat) < next_addr ?h" by (simp add: sample_heap_def)
  with DeepCopy_server_independent[OF k8s.api_copies_axioms ok, of 0 _ sp] sp
  show ?thesis unfolding independent_copy_def by blast
qed

end
