(* ===== verification/Client.thy ===== *)
theory Client
  imports Auth
begin

text \<open>
  The demo client (\<^verbatim>\<open>internal/democlient/client.go\<close>): the transport that attaches the
  credentials, the check of a target URL, the runbook workflow, the wait for a status and the
  network probe. What the code calls is a parameter: the URL parser, the file read, the MCP
  session, the HTTP exchange, the resolver and the dialer; the writer is a function that tells
  whether the next line can be written.
\<close>

section \<open>Targets\<close>

record parsed_url =
  u_scheme :: string
  u_host :: string
  u_hostname :: string
  u_port :: string
  u_user :: "string option"
  u_query :: string
  u_fragment :: string

type_synonym url_parser = "string \<Rightarrow> parsed_url option"

definition validateTarget :: "url_parser \<Rightarrow> string \<Rightarrow> string option" where
  "validateTarget parse endpoint =
     (case parse endpoint of
        None \<Rightarrow> Some ''endpoint must be an absolute HTTP or HTTPS URL''
      | Some u \<Rightarrow>
          if u_host u = [] \<or> (u_scheme u \<noteq> ''http'' \<and> u_scheme u \<noteq> ''https'')
          then Some ''endpoint must be an absolute HTTP or HTTPS URL''
          else if u_user u \<noteq> None \<or> u_query u \<noteq> [] \<or> u_fragment u \<noteq> []
          then Some ''endpoint must not contain credentials, a query, or a fragment''
          else None)"

lemma validateTarget_ok_iff:
  "validateTarget parse endpoint = None \<longleftrightarrow> (\<exists>u. parse endpoint = Some u \<and> u_host u \<noteq> [] \<and>
     u_scheme u \<in> {''http'', ''https''} \<and> u_user u = None \<and> u_query u = [] \<and> u_fragment u = [])"
  by (auto simp: validateTarget_def split: option.split)

section \<open>Credentials\<close>

record Credentials =
  TokenFile :: string
  AgentID :: string

definition bad_token_byte :: "char \<Rightarrow> bool" where
  "bad_token_byte c \<longleftrightarrow> c \<in> {CHR '' '', CHR 0x09, CHR 0x0D, CHR 0x0A}"

text \<open>The headers of the request that is sent, or the error before anything is sent.\<close>

definition RoundTrip :: "(string \<Rightarrow> string + string) \<Rightarrow> Credentials \<Rightarrow> header \<Rightarrow> string + header" where
  "RoundTrip read_file credentials inh =
     (let h1 = header_del ''Authorization'' inh;
          h2 = header_del ''X-Agent-ID'' h1;
          h3 = (if AgentID credentials \<noteq> [] then header_set ''X-Agent-ID'' (AgentID credentials) h2 else h2)
      in if TokenFile credentials \<noteq> [] then
           (case read_file (TokenFile credentials) of
              Inl err \<Rightarrow> Inl (''read token file: '' @ err)
            | Inr data \<Rightarrow>
                (let token = go_trim_space data in
                 if token = [] \<or> list_ex bad_token_byte token
                 then Inl ''token file must contain a nonempty bearer token''
                 else Inr (header_set ''Authorization'' (''Bearer '' @ token) h3)))
         else Inr h3)"

section \<open>Output\<close>

type_synonym writer = "string list \<Rightarrow> string \<Rightarrow> string option"

definition Fprintln :: "writer \<Rightarrow> string \<Rightarrow> string list \<Rightarrow> string option \<times> string list" where
  "Fprintln w line out = (case w out line of None \<Rightarrow> (None, out @ [line]) | Some err \<Rightarrow> (Some err, out))"

section \<open>The runbook workflow\<close>

datatype content = TextContent string | OtherContent

record call_tool_result =
  ctr_is_error :: bool
  ctr_content :: "content list"

text \<open>The session: the listing, a tool call with its name and its string arguments, the close.\<close>

record session =
  ss_list_tools :: "string + string list"
  ss_call :: "string \<Rightarrow> (string \<times> string) list \<Rightarrow> string + call_tool_result"
  ss_close :: "string option"

fun print_tools :: "writer \<Rightarrow> string list \<Rightarrow> bool \<Rightarrow> string list \<Rightarrow> string option \<times> bool \<times> string list" where
  "print_tools w [] found out = (None, found, out)"
| "print_tools w (name # names) found out =
     (case Fprintln w (''Discovered tool: '' @ name) out of
        (Some err, out') \<Rightarrow> (Some err, found, out')
      | (None, out') \<Rightarrow> print_tools w names (found \<or> name = ''read_runbook'') out')"

fun print_content :: "writer \<Rightarrow> content list \<Rightarrow> string list \<Rightarrow> string option \<times> string list" where
  "print_content w [] out = (None, out)"
| "print_content w (c # cs) out =
     (case c of
        OtherContent \<Rightarrow> (Some ''read_runbook returned empty or non-text content'', out)
      | TextContent text \<Rightarrow>
          if text = [] then (Some ''read_runbook returned empty or non-text content'', out)
          else (case Fprintln w text out of
              (Some err, out') \<Rightarrow> (Some err, out')
            | (None, out') \<Rightarrow> print_content w cs out'))"

definition client_readRunbook :: "(string \<Rightarrow> string) \<Rightarrow> writer \<Rightarrow> session \<Rightarrow> string \<Rightarrow> string \<Rightarrow> string list
    \<Rightarrow> string option \<times> string list" where
  "client_readRunbook quote w s endpoint topic out =
     (case Fprintln w (''Connected to '' @ endpoint) out of
        (Some err, out1) \<Rightarrow> (Some err, out1)
      | (None, out1) \<Rightarrow>
          (case ss_list_tools s of
             Inl err \<Rightarrow> (Some (''discover tools: '' @ err), out1)
           | Inr tools \<Rightarrow>
               (case print_tools w tools False out1 of
                  (Some err, _, out2) \<Rightarrow> (Some err, out2)
                | (None, found, out2) \<Rightarrow>
                    if \<not> found then (Some ''backend did not advertise read_runbook'', out2)
                    else (case ss_call s ''read_runbook'' [(''topic'', topic)] of
                        Inl err \<Rightarrow> (Some (''call read_runbook: '' @ err), out2)
                      | Inr result \<Rightarrow>
                          if ctr_is_error result then (Some (''read_runbook rejected topic '' @ quote topic), out2)
                          else if length (ctr_content result) = 0
                          then (Some ''read_runbook returned no content'', out2)
                          else (case print_content w (ctr_content result) out2 of
                              (Some err, out3) \<Rightarrow> (Some err, out3)
                            | (None, out3) \<Rightarrow> Fprintln w ''MCP discovery and tool call completed.'' out3)))))"

text \<open>\<^verbatim>\<open>errors.Join\<close> of two errors that may be nil.\<close>

definition join_errors :: "string option \<Rightarrow> string option \<Rightarrow> string option" where
  "join_errors a b = (case a of None \<Rightarrow> b | Some x \<Rightarrow>
     (case b of None \<Rightarrow> Some x | Some y \<Rightarrow> Some (x @ [CHR 0x0A] @ y)))"

definition Run :: "url_parser \<Rightarrow> (string \<Rightarrow> string) \<Rightarrow> writer \<Rightarrow> (string + session) \<Rightarrow> string \<Rightarrow> Credentials \<Rightarrow> string
    \<Rightarrow> string list \<Rightarrow> string option \<times> string list" where
  "Run parse quote w connect endpoint credentials topic out =
     (case validateTarget parse endpoint of
        Some err \<Rightarrow> (Some err, out)
      | None \<Rightarrow>
          if TokenFile credentials = [] then (Some ''token file is required for an MCP workflow'', out)
          else (case connect of
              Inl err \<Rightarrow> (Some (''connect to gateway: '' @ err), out)
            | Inr s \<Rightarrow>
                (let (err, out') = client_readRunbook quote w s endpoint topic out
                 in (join_errors err (ss_close s), out'))))"

section \<open>Waiting for a status\<close>

text \<open>
  One round of the loop: the error of building the request, the exchange (an error, or the
  status code, its text and the error of closing the body), and what the select statement
  receives: a tick, or the context's error.
\<close>

record attempt =
  at_request :: "string option"
  at_do :: "string + (int \<times> string \<times> string option)"
  at_done :: "string option"

text \<open>\<open>None\<close>: still polling after the attempts so far.\<close>

fun wait_loop :: "writer \<Rightarrow> string \<Rightarrow> int \<Rightarrow> string \<Rightarrow> attempt list \<Rightarrow> string list
    \<Rightarrow> (string option \<times> string list) option" where
  "wait_loop w endpoint want lst [] out = None"
| "wait_loop w endpoint want lst (a # as) out =
     (case at_request a of
        Some err \<Rightarrow> Some (Some err, out)
      | None \<Rightarrow>
          (let next = (\<lambda>lst'. case at_done a of
                 Some err \<Rightarrow> Some (Some (''waiting for HTTP '' @ itoa want @ ''; last response: '' @ lst' @ '': '' @ err), out)
               | None \<Rightarrow> wait_loop w endpoint want lst' as out)
           in case at_do a of
                Inl err \<Rightarrow> next err
              | Inr (code, status, close) \<Rightarrow>
                  (case close of
                     Some err \<Rightarrow> Some (Some (''close probe response: '' @ err), out)
                   | None \<Rightarrow>
                       if code = want
                       then Some (Fprintln w (''Observed HTTP '' @ itoa want @ '' at '' @ endpoint) out)
                       else next status)))"

definition WaitForStatus :: "url_parser \<Rightarrow> writer \<Rightarrow> string \<Rightarrow> int \<Rightarrow> attempt list \<Rightarrow> string list
    \<Rightarrow> (string option \<times> string list) option" where
  "WaitForStatus parse w endpoint want attempts out =
     (case validateTarget parse endpoint of
        Some err \<Rightarrow> Some (Some err, out)
      | None \<Rightarrow>
          if want < 100 \<or> 599 < want then Some (Some ''expected status must be an HTTP status code'', out)
          else wait_loop w endpoint want ''no response'' attempts out)"

section \<open>Probing the network\<close>

text \<open>
  A dial: nil, or an error, which is a timeout of the dial operation or something else;
  \<open>dl_ctx\<close> tells whether the caller's context was over after it.
\<close>

datatype dial_result = DialOk | DialTimeout string | DialOther string

record dial =
  dl_result :: dial_result
  dl_ctx :: bool

definition dial_error :: "dial_result \<Rightarrow> string option" where
  "dial_error r = (case r of DialOk \<Rightarrow> None | DialTimeout e \<Rightarrow> Some e | DialOther e \<Rightarrow> Some e)"

fun probe_loop :: "(string \<Rightarrow> string \<Rightarrow> dial) \<Rightarrow> string \<Rightarrow> bool \<Rightarrow> string list \<Rightarrow> string option" where
  "probe_loop dial port blocked [] = None"
| "probe_loop dial port blocked (address # rest) =
     (let d = dial address port; err = dial_error (dl_result d) in
      if \<not> blocked then
        (case err of
           Some e \<Rightarrow> Some (''expected TCP connectivity: '' @ e)
         | None \<Rightarrow> probe_loop dial port blocked rest)
      else
        (case err of
           None \<Rightarrow> Some ''expected network isolation, but TCP connection succeeded''
         | Some e \<Rightarrow>
             if dl_ctx d \<or> (case dl_result d of DialTimeout _ \<Rightarrow> False | _ \<Rightarrow> True)
             then Some (''expected enforced TCP dial timeout, not DNS/refusal/cancellation: '' @ e)
             else probe_loop dial port blocked rest))"

definition probe_port :: "parsed_url \<Rightarrow> string" where
  "probe_port u = (if u_port u = [] then (if u_scheme u = ''https'' then ''443'' else ''80'') else u_port u)"

definition go_bool :: "bool \<Rightarrow> string" where
  "go_bool b = (if b then ''true'' else ''false'')"

definition ProbeNetwork :: "url_parser \<Rightarrow> (string \<Rightarrow> string + string list) \<Rightarrow> (string \<Rightarrow> string \<Rightarrow> dial) \<Rightarrow> writer
    \<Rightarrow> string \<Rightarrow> bool \<Rightarrow> string list \<Rightarrow> string option \<times> string list" where
  "ProbeNetwork parse resolve dial w endpoint blocked out =
     (case validateTarget parse endpoint of
        Some err \<Rightarrow> (Some err, out)
      | None \<Rightarrow>
          (case parse endpoint of
             None \<Rightarrow> (Some ''nil URL'', out)
           | Some u \<Rightarrow>
               (case resolve (u_hostname u) of
                  Inl err \<Rightarrow> (Some (''resolve network probe target: '' @ err), out)
                | Inr addresses \<Rightarrow>
                    if length addresses = 0
                    then (Some ''network probe target resolved to no addresses'', out)
                    else (case probe_loop dial (probe_port u) blocked addresses of
                        Some err \<Rightarrow> (Some err, out)
                      | None \<Rightarrow> Fprintln w (''Network probe passed: DNS resolved; TCP blocked='' @ go_bool blocked
                          @ '' at '' @ endpoint) out))))"

section \<open>What the client promises\<close>

text \<open>
  The transport replaces the caller's credentials by its own: after it, the agent header
  is the configured identity or absent, the Authorization header is the token of the file,
  read for this request, or absent, every other header is as it was, and a file without a
  single clean token sends nothing.
\<close>

theorem transport_headers:
  assumes "RoundTrip rf cr inh = Inr outh"
  shows "header_values outh ''X-Agent-ID'' = (if AgentID cr = [] then [] else [AgentID cr])
    \<and> (TokenFile cr = [] \<longrightarrow> header_values outh ''Authorization'' = [])
    \<and> (TokenFile cr \<noteq> [] \<longrightarrow> (\<exists>data. rf (TokenFile cr) = Inr data \<and> go_trim_space data \<noteq> [] \<and>
        \<not> list_ex bad_token_byte (go_trim_space data) \<and>
        header_values outh ''Authorization'' = [''Bearer '' @ go_trim_space data]))
    \<and> (\<forall>k. canonical_key k \<noteq> ''Authorization'' \<longrightarrow> canonical_key k \<noteq> ''X-Agent-Id'' \<longrightarrow>
        header_values outh k = header_values inh k)"
  using assms by (auto simp: RoundTrip_def Let_def split: if_splits sum.splits)

theorem transport_headers_witness:
  "header_values (header_set ''Authorization'' ''Bearer tok'' []) ''X-Agent-ID'' = []"
proof -
  have "RoundTrip (\<lambda>_. Inr ''tok'') \<lparr>TokenFile = ''/token'', AgentID = []\<rparr> [(''X-Agent-Id'', [''me''])]
      = Inr (header_set ''Authorization'' ''Bearer tok'' [])" by code_simp
  from transport_headers[OF this] show ?thesis by simp
qed

lemma fields_from_plain:
  "\<forall>i < length s. space_width (drop i s) = 0 \<Longrightarrow>
     fields_from acc s = (if acc = [] \<and> s = [] then [] else [rev acc @ s])"
proof (induction acc s rule: fields_from.induct)
  case (2 acc a s)
  have w: "space_width (a # s) = 0" using 2(3) by (metis drop0 length_greater_0_conv list.distinct(1))
  moreover have "\<forall>i < length s. space_width (drop i s) = 0"
    using 2(3) by (metis Suc_less_eq drop_Suc_Cons length_Cons)
  ultimately show ?case using 2(1)[OF refl w] by (simp add: Let_def del: space_width.simps)
qed simp

lemma space_width_ascii: "\<not> ascii_space a \<Longrightarrow> (of_char a :: nat) < 128 \<Longrightarrow> space_width (a # s) = 0"
  by (auto simp: Let_def split: list.split)

lemma bearer_fields:
  assumes "\<forall>i < length token. space_width (drop i token) = 0" and "token \<noteq> []"
  shows "go_fields (''Bearer '' @ token) = [''Bearer'', token]"
proof -
  have "go_fields (''Bearer '' @ token) = ''Bearer'' # fields_from [] token"
    by (simp add: go_fields_def ascii_space_def Let_def space_width_ascii del: space_width.simps)
      (simp add: ascii_space_def)
  then show ?thesis using fields_from_plain[OF assms(1), of "[]"] assms(2) by simp
qed

text \<open>
  C38. The gateway reads the token the client sends: a token without space of at most 16377
  bytes arrives as the bearer token that is reviewed, whatever credentials the caller had set.
\<close>

theorem gateway_reads_client_token:
  assumes "RoundTrip rf cr inh = Inr outh" and "rf (TokenFile cr) = Inr data" and "TokenFile cr \<noteq> []"
    and "\<forall>i < length (go_trim_space data). space_width (drop i (go_trim_space data)) = 0"
    and "length (go_trim_space data) \<le> 16377"
  shows "bearer_token outh = Inr (go_trim_space data)"
proof -
  let ?t = "go_trim_space data"
  have v: "header_values outh ''Authorization'' = [''Bearer '' @ ?t]" and ne: "?t \<noteq> []"
    using assms(1-3) by (auto simp: RoundTrip_def Let_def split: if_splits)
  show ?thesis
    using bearer_fields[OF assms(4) ne] assms(5) by (simp add: bearer_token_def v equal_fold_def)
qed

theorem gateway_reads_client_token_witness:
  "bearer_token (header_set ''Authorization'' ''Bearer tok'' []) = Inr ''tok''"
proof -
  have run: "RoundTrip (\<lambda>_. Inr '' tok'') \<lparr>TokenFile = ''/token'', AgentID = []\<rparr> [(''X-Agent-Id'', [''me''])]
      = Inr (header_set ''Authorization'' ''Bearer tok'' [])" by code_simp
  have trim: "go_trim_space '' tok'' = ''tok''" by code_simp
  have "\<forall>i < length (go_trim_space '' tok''). space_width (drop i (go_trim_space '' tok'')) = 0"
    unfolding trim by (auto simp: less_Suc_eq numeral_3_eq_3 ascii_space_def)
  from gateway_reads_client_token[OF run _ _ this] show ?thesis by (simp add: trim)
qed

definition attempt_continues :: "int \<Rightarrow> attempt \<Rightarrow> bool" where
  "attempt_continues want a \<longleftrightarrow> at_request a = None \<and> at_done a = None \<and>
     (case at_do a of Inl _ \<Rightarrow> True | Inr (code, _, close) \<Rightarrow> close = None \<and> code \<noteq> want)"

definition attempt_matches :: "int \<Rightarrow> attempt \<Rightarrow> bool" where
  "attempt_matches want a \<longleftrightarrow> at_request a = None \<and> (\<exists>status. at_do a = Inr (want, status, None))"

text \<open>
  Waiting reports success only for the wanted status: it returns nil exactly when the
  target and the status are valid, some round got that status with nothing before it ending
  the wait, and the line could be written.
\<close>

theorem WaitForStatus_success_iff:
  "(\<exists>out'. WaitForStatus parse w endpoint want attempts out = Some (None, out')) \<longleftrightarrow>
     validateTarget parse endpoint = None \<and> 100 \<le> want \<and> want \<le> 599 \<and>
     w out (''Observed HTTP '' @ itoa want @ '' at '' @ endpoint) = None \<and>
     (\<exists>before a rest. attempts = before @ a # rest \<and> list_all (attempt_continues want) before \<and>
        attempt_matches want a)"
proof -
  let ?w = "w out (''Observed HTTP '' @ itoa want @ '' at '' @ endpoint) = None"
  have "(\<exists>out'. wait_loop w endpoint want lst as out = Some (None, out')) \<longleftrightarrow>
      ?w \<and> (\<exists>before a rest. as = before @ a # rest \<and> list_all (attempt_continues want) before \<and>
        attempt_matches want a)" for lst as
  proof (induction as arbitrary: lst)
    case (Cons a as)
    have split: "(\<exists>before b rest. a # as = before @ b # rest \<and> list_all (attempt_continues want) before \<and>
          attempt_matches want b) \<longleftrightarrow> attempt_matches want a \<or> attempt_continues want a \<and>
        (\<exists>before b rest. as = before @ b # rest \<and> list_all (attempt_continues want) before \<and>
          attempt_matches want b)" (is "?l \<longleftrightarrow> ?r")
    proof
      assume ?l
      then obtain before b rest where "a # as = before @ b # rest"
        "list_all (attempt_continues want) before" "attempt_matches want b" by blast
      then show ?r by (cases before) auto
    next
      assume ?r
      then show ?l
      proof (elim disjE conjE exE)
        assume "attempt_matches want a"
        then show ?l by (intro exI[of _ "[]"] exI[of _ a] exI[of _ as]) simp
      next
        fix before b rest
        assume "attempt_continues want a" "as = before @ b # rest"
          "list_all (attempt_continues want) before" "attempt_matches want b"
        then show ?l by (intro exI[of _ "a # before"] exI[of _ b] exI[of _ rest]) simp
      qed
    qed
    define M where "M \<longleftrightarrow> (\<exists>before b rest. as = before @ b # rest \<and>
        list_all (attempt_continues want) before \<and> attempt_matches want b)"
    have IH: "(\<exists>out'. wait_loop w endpoint want lst' as out = Some (None, out')) \<longleftrightarrow> ?w \<and> M" for lst'
      unfolding M_def by (rule Cons)
    show ?case
      unfolding split M_def[symmetric] using IH
      by (auto simp: attempt_continues_def attempt_matches_def Fprintln_def Let_def
          split: option.splits sum.splits prod.splits if_splits)
  qed simp
  note loop = this[of "''no response''" attempts]
  show ?thesis
  proof (cases "validateTarget parse endpoint = None \<and> 100 \<le> want \<and> want \<le> 599")
    case True
    then have "WaitForStatus parse w endpoint want attempts out
        = wait_loop w endpoint want ''no response'' attempts out" by (simp add: WaitForStatus_def)
    with loop True show ?thesis by simp
  next
    case False
    then have "WaitForStatus parse w endpoint want attempts out \<noteq> Some (None, out')" for out'
      by (auto simp: WaitForStatus_def split: option.split)
    with False show ?thesis by blast
  qed
qed

text \<open>
  The network probe passes exactly on what it was asked to show, for every address the
  name resolves to and at least one: every dial connects, or, when blocked, every dial runs
  into its own timeout while the caller's context is alive, so a refusal, a resolver failure
  or a cancellation never counts as isolation.
\<close>

theorem ProbeNetwork_passes_iff:
  "(\<exists>out'. ProbeNetwork parse resolve dial (\<lambda>_ _. None) endpoint blocked out = (None, out')) \<longleftrightarrow>
     validateTarget parse endpoint = None \<and>
     (\<exists>u addresses. parse endpoint = Some u \<and> resolve (u_hostname u) = Inr addresses \<and> addresses \<noteq> [] \<and>
        list_all (\<lambda>ad. if blocked
          then (\<exists>e. dl_result (dial ad (probe_port u)) = DialTimeout e) \<and> \<not> dl_ctx (dial ad (probe_port u))
          else dl_result (dial ad (probe_port u)) = DialOk) addresses)"
proof -
  have loop: "probe_loop dial port blocked as = None \<longleftrightarrow>
      list_all (\<lambda>ad. if blocked then (\<exists>e. dl_result (dial ad port) = DialTimeout e) \<and> \<not> dl_ctx (dial ad port)
        else dl_result (dial ad port) = DialOk) as" for port as
    by (induction as) (auto simp: dial_error_def Let_def split: dial_result.splits)
  show ?thesis
    unfolding loop[symmetric]
    by (auto simp: ProbeNetwork_def Fprintln_def validateTarget_def split: option.splits sum.splits if_splits)
qed

text \<open>
  The workflow succeeds exactly when every part of it does: a valid target and a token
  file, a session whose listing has the read tool, whose call of the read tool with the topic is accepted
  with nonempty text only, and which closes cleanly; then the output is the transcript of all of it.
\<close>

theorem Run_success_iff:
  "Run parse quote (\<lambda>_ _. None) connect endpoint credentials topic [] = (None, out) \<longleftrightarrow>
     validateTarget parse endpoint = None \<and> TokenFile credentials \<noteq> [] \<and>
     (\<exists>s tools texts. connect = Inr s \<and> ss_list_tools s = Inr tools \<and> ''read_runbook'' \<in> set tools \<and>
        (\<exists>r. ss_call s ''read_runbook'' [(''topic'', topic)] = Inr r \<and> \<not> ctr_is_error r \<and> ctr_content r = map TextContent texts) \<and>
        texts \<noteq> [] \<and> [] \<notin> set texts \<and> ss_close s = None \<and>
        out = (''Connected to '' @ endpoint) # map (\<lambda>n. ''Discovered tool: '' @ n) tools @ texts
          @ [''MCP discovery and tool call completed.''])"
proof -
  let ?w = "\<lambda>_ _. None :: string option"
  have tools: "print_tools ?w ns fd o' = (None, fd \<or> ''read_runbook'' \<in> set ns,
      o' @ map (\<lambda>n. ''Discovered tool: '' @ n) ns)" for ns fd o'
    by (induction ns arbitrary: fd o') (auto simp: Fprintln_def)
  have good: "print_content ?w (map TextContent texts) o' = (None, o' @ texts)" if "[] \<notin> set texts" for texts o'
    using that by (induction texts arbitrary: o') (auto simp: Fprintln_def)
  have bad: "\<exists>e. fst (print_content ?w cs o') = Some e" if "\<nexists>texts. cs = map TextContent texts \<and> [] \<notin> set texts" for cs o'
    using that
  proof (induction cs arbitrary: o')
    case (Cons c cs)
    show ?case
    proof (cases "\<exists>t. c = TextContent t \<and> t \<noteq> []")
      case True
      then obtain t where t: "c = TextContent t" "t \<noteq> []" by blast
      have "\<nexists>texts. cs = map TextContent texts \<and> [] \<notin> set texts"
      proof
        assume "\<exists>texts. cs = map TextContent texts \<and> [] \<notin> set texts"
        then obtain texts where "cs = map TextContent texts" "[] \<notin> set texts" by blast
        then have "c # cs = map TextContent (t # texts) \<and> [] \<notin> set (t # texts)" using t by simp
        then have "\<exists>ts. c # cs = map TextContent ts \<and> [] \<notin> set ts" by (rule exI)
        with Cons.prems show False by (rule notE)
      qed
      from Cons.IH[OF this] t show ?thesis by (simp add: Fprintln_def)
    qed (cases c; simp)
  qed simp
  have read: "client_readRunbook quote ?w s endpoint topic [] = (None, out) \<longleftrightarrow>
      (\<exists>tools texts r. ss_list_tools s = Inr tools \<and> ''read_runbook'' \<in> set tools \<and>
         ss_call s ''read_runbook'' [(''topic'', topic)] = Inr r \<and> \<not> ctr_is_error r \<and> ctr_content r = map TextContent texts \<and>
         texts \<noteq> [] \<and> [] \<notin> set texts \<and>
         out = (''Connected to '' @ endpoint) # map (\<lambda>n. ''Discovered tool: '' @ n) tools @ texts
          @ [''MCP discovery and tool call completed.''])" for s
  proof (cases "ss_list_tools s")
    case (Inr tools)
    show ?thesis
    proof (cases "ss_call s ''read_runbook'' [(''topic'', topic)]")
      case (Inr r)
      let ?o = "(''Connected to '' @ endpoint) # map (\<lambda>n. ''Discovered tool: '' @ n) tools"
      note eqs = \<open>ss_list_tools s = Inr tools\<close> Inr
      show ?thesis
      proof (cases "\<exists>texts. ctr_content r = map TextContent texts \<and> [] \<notin> set texts")
        case True
        then obtain texts where t: "ctr_content r = map TextContent texts" "[] \<notin> set texts" by blast
        have inj: "map TextContent texts = map TextContent ts \<longleftrightarrow> texts = ts" for ts
          by (rule inj_map_eq_map) (simp add: inj_on_def)
        show ?thesis
          by (auto simp: client_readRunbook_def Fprintln_def tools eqs t good inj)
      next
        case False
        then obtain e where "fst (print_content ?w (ctr_content r) ?o) = Some e" using bad by blast
        then have "client_readRunbook quote ?w s endpoint topic [] \<noteq> (None, out)"
          by (auto simp: client_readRunbook_def Fprintln_def tools eqs split: prod.splits option.splits)
        with False show ?thesis by (auto simp: eqs)
      qed
    qed (simp add: client_readRunbook_def Fprintln_def tools \<open>ss_list_tools s = Inr tools\<close>)
  qed (simp add: client_readRunbook_def Fprintln_def)
  show ?thesis
  proof (cases connect)
    case (Inr s)
    obtain e o2 where r: "client_readRunbook quote ?w s endpoint topic [] = (e, o2)" by fastforce
    then have "Run parse quote ?w connect endpoint credentials topic [] = (None, out) \<longleftrightarrow>
        validateTarget parse endpoint = None \<and> TokenFile credentials \<noteq> [] \<and>
        client_readRunbook quote ?w s endpoint topic [] = (None, out) \<and> ss_close s = None"
      using Inr by (auto simp: Run_def join_errors_def split: option.splits)
    with read[of s] Inr show ?thesis by blast
  qed (simp add: Run_def split: option.split)
qed

end
