(* ===== verification/Runbook.thy ===== *)
theory Runbook
  imports Float64
begin

text \<open>
  The runbook server (\<^verbatim>\<open>internal/runbookmcp\<close>): the two tool handlers and the wrapper
  that records their executions. The embedded file system is the parameter \<open>read_file\<close>; the
  context, the progress token, the notification call and the timer are the record \<open>step_env\<close>,
  one per step of the stream. An error is its message with the answers of the two
  \<^verbatim>\<open>errors.Is\<close> questions the code asks.
\<close>

section \<open>Errors and results\<close>

record tool_error =
  te_message :: string
  te_canceled :: bool
  te_deadline :: bool

definition plain_error :: "string \<Rightarrow> tool_error" where
  "plain_error msg = \<lparr>te_message = msg, te_canceled = False, te_deadline = False\<rparr>"

record tool_result =
  tr_text :: "string list"
  tr_is_error :: bool

type_synonym file_system = "string \<Rightarrow> tool_error + string"

definition ReadTool :: string where "ReadTool = ''read_runbook''"
definition StreamTool :: string where "StreamTool = ''stream_runbook''"

section \<open>Reading\<close>

text \<open>\<open>quote\<close> is the \<^verbatim>\<open>%q\<close> verb, \<open>wrap\<close> keeps the answers of \<^verbatim>\<open>errors.Is\<close>.\<close>

definition readRunbook :: "(string \<Rightarrow> string) \<Rightarrow> file_system \<Rightarrow> string \<Rightarrow> tool_error + tool_result" where
  "readRunbook quote read_file topic =
     (if topic = ''gateway-routing'' \<or> topic = ''rate-limiting'' then
        (case read_file (''runbooks/'' @ topic @ ''.md'') of
           Inl err \<Rightarrow> Inl (err\<lparr>te_message := ''read runbook: '' @ te_message err\<rparr>)
         | Inr content \<Rightarrow> Inr \<lparr>tr_text = [content], tr_is_error = False\<rparr>)
      else Inl (plain_error (''unknown runbook '' @ quote topic @ ''; choose gateway-routing or rate-limiting'')))"

section \<open>Streaming\<close>

record step_env =
  se_ctx :: "tool_error option"
  se_token :: "string option"
  se_notify :: "tool_error option"
  se_done :: "tool_error option"

record progress =
  pg_token :: string
  pg_progress :: real
  pg_total :: real
  pg_message :: string

text \<open>
  The loop from \<open>step\<close> to 3, with the notifications it sends. \<open>se_done\<close> is the context's
  error when it is done before the timer fires.
\<close>

function stream_loop :: "(int \<Rightarrow> step_env) \<Rightarrow> int \<Rightarrow> tool_error option \<times> progress list" where
  "stream_loop env step =
     (if step \<le> 3 then
        (case se_ctx (env step) of
           Some err \<Rightarrow> (Some err, [])
         | None \<Rightarrow>
             (let sent = (case se_token (env step) of
                    None \<Rightarrow> []
                  | Some token \<Rightarrow> [\<lparr>pg_token = token, pg_progress = f64 (of_int step), pg_total = 3,
                      pg_message = ''Runbook progress '' @ itoa step @ ''/3''\<rparr>])
              in case (if sent = [] then None else se_notify (env step)) of
                   Some err \<Rightarrow> (Some err, sent)
                 | None \<Rightarrow>
                     (case se_done (env step) of
                        Some err \<Rightarrow> (Some err, sent)
                      | None \<Rightarrow>
                          (let (err, more) = stream_loop env (step + 1) in (err, sent @ more)))))
      else (None, []))"
  by pat_completeness auto
termination
  by (relation "measure (\<lambda>(_, step). nat (4 - step))") auto

declare stream_loop.simps [simp del]

definition streamRunbook :: "(string \<Rightarrow> string) \<Rightarrow> file_system \<Rightarrow> (int \<Rightarrow> step_env) \<Rightarrow> string
    \<Rightarrow> (tool_error + tool_result) \<times> progress list" where
  "streamRunbook quote read_file env topic =
     (case readRunbook quote read_file topic of
        Inl err \<Rightarrow> (Inl err, [])
      | Inr result \<Rightarrow>
          (let (err, sent) = stream_loop env 1 in
           (case err of Some e \<Rightarrow> (Inl e, sent) | None \<Rightarrow> (Inr result, sent))))"

section \<open>Observing\<close>

datatype handler_outcome = HandlerReturned "tool_error + tool_result" | HandlerPanicked

record tool_event =
  tv_tool :: string
  tv_outcome :: string
  tv_seconds :: real

text \<open>The deferred function of the wrapper, on the named results as they are then.\<close>

definition observed_outcome :: "tool_error option \<Rightarrow> bool \<Rightarrow> tool_error option \<Rightarrow> tool_result option \<Rightarrow> string" where
  "observed_outcome ctx_err completed err result =
     (if ctx_err \<noteq> None \<or> (case err of None \<Rightarrow> False | Some e \<Rightarrow> te_canceled e) \<or>
         (case err of None \<Rightarrow> False | Some e \<Rightarrow> te_deadline e) then ''cancelled''
      else if \<not> completed \<or> err \<noteq> None \<or> (case result of None \<Rightarrow> False | Some r \<Rightarrow> tr_is_error r) then ''error''
      else ''success'')"

definition observe :: "string \<Rightarrow> tool_error option \<Rightarrow> duration \<Rightarrow> handler_outcome
    \<Rightarrow> tool_event list \<Rightarrow> handler_outcome \<times> tool_event list" where
  "observe tool ctx_err elapsed h events =
     (let (completed, err, result) = (case h of
            HandlerPanicked \<Rightarrow> (False, None, None)
          | HandlerReturned (Inl e) \<Rightarrow> (True, Some e, None)
          | HandlerReturned (Inr r) \<Rightarrow> (True, None, Some r))
      in (h, events @ [\<lparr>tv_tool = tool, tv_outcome = observed_outcome ctx_err completed err result,
           tv_seconds = Seconds f64 elapsed\<rparr>]))"

section \<open>What the server promises\<close>

lemma stream_loop_end: "stream_loop env 4 = (None, [])"
  by (subst stream_loop.simps) simp

text \<open>What one step contributes: its notification, and the error that ends the stream there.\<close>

definition step_sent :: "step_env \<Rightarrow> int \<Rightarrow> progress list" where
  "step_sent e step = (case se_ctx e of Some _ \<Rightarrow> [] | None \<Rightarrow>
     (case se_token e of None \<Rightarrow> []
      | Some token \<Rightarrow> [\<lparr>pg_token = token, pg_progress = of_int step, pg_total = 3,
          pg_message = ''Runbook progress '' @ itoa step @ ''/3''\<rparr>]))"

definition step_error :: "step_env \<Rightarrow> tool_error option" where
  "step_error e = (case se_ctx e of Some err \<Rightarrow> Some err | None \<Rightarrow>
     (case (case se_token e of None \<Rightarrow> None | Some _ \<Rightarrow> se_notify e) of
        Some err \<Rightarrow> Some err | None \<Rightarrow> se_done e))"

lemma stream_loop_step:
  assumes "1 \<le> step" and "step \<le> 3"
  shows "stream_loop env step =
     (case step_error (env step) of
        Some err \<Rightarrow> (Some err, step_sent (env step) step)
      | None \<Rightarrow> (fst (stream_loop env (step + 1)), step_sent (env step) step @ snd (stream_loop env (step + 1))))"
proof -
  have "f64 (of_int step) = of_int step" using assms by (intro f64.fl_int) auto
  then show ?thesis
    by (subst stream_loop.simps)
      (auto simp: step_error_def step_sent_def Let_def split_beta assms(2) split: option.splits)
qed

lemma stream_loop_3:
  "stream_loop env 1 =
     (case step_error (env 1) of Some err \<Rightarrow> (Some err, step_sent (env 1) 1) | None \<Rightarrow>
     (case step_error (env 2) of Some err \<Rightarrow> (Some err, step_sent (env 1) 1 @ step_sent (env 2) 2) | None \<Rightarrow>
     (step_error (env 3), step_sent (env 1) 1 @ step_sent (env 2) 2 @ step_sent (env 3) 3)))"
  using stream_loop_step[of 1 env] stream_loop_step[of 2 env] stream_loop_step[of 3 env]
  by (simp add: stream_loop_end split: option.split)

text \<open>
  C40. A stream reports progress in order and finishes only after all of it: with a progress
  token the notifications sent are the steps 1 up to some k of 3, all carrying that token, and
  without one there are none; the stream succeeds exactly when the runbook can be read and no
  step meets a cancelled context, a failed notification or a done context, and then all three
  were sent and the content is that of a plain read.
\<close>

theorem stream_reports_progress:
  assumes "\<forall>i. se_token (env i) = tok"
  shows "(\<exists>k \<in> {0, 1, 2, 3}. map pg_progress (snd (streamRunbook quote rf env topic)) =
        (case tok of None \<Rightarrow> [] | Some _ \<Rightarrow> take k [1, 2, 3]))
    \<and> (\<forall>p \<in> set (snd (streamRunbook quote rf env topic)). tok = Some (pg_token p) \<and> pg_total p = 3)
    \<and> (\<forall>r. fst (streamRunbook quote rf env topic) = Inr r \<longleftrightarrow>
        readRunbook quote rf topic = Inr r \<and> step_error (env 1) = None \<and> step_error (env 2) = None \<and>
        step_error (env 3) = None)
    \<and> (\<forall>r. fst (streamRunbook quote rf env topic) = Inr r \<longrightarrow>
        length (snd (streamRunbook quote rf env topic)) = (case tok of None \<Rightarrow> 0 | Some _ \<Rightarrow> 3))"
proof -
  have sent: "map pg_progress (step_sent (env i) i) =
      (case tok of None \<Rightarrow> [] | Some _ \<Rightarrow> if se_ctx (env i) = None then [of_int i] else [])"
    "\<forall>p \<in> set (step_sent (env i) i). tok = Some (pg_token p) \<and> pg_total p = 3"
    "length (step_sent (env i) i) = (case tok of None \<Rightarrow> 0 | Some _ \<Rightarrow> if se_ctx (env i) = None then 1 else 0)" for i
    using assms by (auto simp: step_sent_def split: option.splits)
  have ctx: "step_error (env i) = None \<Longrightarrow> se_ctx (env i) = None" for i
    by (auto simp: step_error_def split: option.splits)
  show ?thesis
  proof (cases "readRunbook quote rf topic")
    case (Inl e)
    then show ?thesis by (simp add: streamRunbook_def split: option.split)
  next
    case (Inr r)
    then show ?thesis
      using sent(2)[of 1] sent(2)[of 2] sent(2)[of 3] ctx[of 1] ctx[of 2] ctx[of 3]
      by (cases tok; cases "step_error (env 1)"; cases "step_error (env 2)"; cases "step_error (env 3)")
        (auto simp: streamRunbook_def stream_loop_3 sent(1,3) split: if_splits)
  qed
qed

definition sample_steps :: "int \<Rightarrow> step_env" where
  "sample_steps i = \<lparr>se_ctx = None, se_token = Some ''t'', se_notify = None, se_done = None\<rparr>"

theorem stream_reports_progress_witness:
  "length (snd (streamRunbook id (\<lambda>_. Inr ''# text'') sample_steps ''rate-limiting'')) = 3"
proof -
  have tok: "\<forall>i. se_token (sample_steps i) = Some ''t''" by (simp add: sample_steps_def)
  have "readRunbook id (\<lambda>_. Inr ''# text'') ''rate-limiting'' = Inr \<lparr>tr_text = [''# text''], tr_is_error = False\<rparr>"
    by (simp add: readRunbook_def)
  moreover have "step_error (sample_steps i) = None" for i by (simp add: step_error_def sample_steps_def)
  ultimately show ?thesis
    using stream_reports_progress[OF tok, of id "\<lambda>_. Inr ''# text''" "''rate-limiting''"] by simp
qed

text \<open>
  The read tool serves two embedded files and nothing else: it succeeds only for a known
  topic with the content of that topic's file, and for any other topic its answer does not
  depend on any file.
\<close>

theorem readRunbook_confined:
  "(readRunbook quote rf topic = Inr r \<longleftrightarrow>
      topic \<in> {''gateway-routing'', ''rate-limiting''} \<and>
      (\<exists>content. rf (''runbooks/'' @ topic @ ''.md'') = Inr content \<and>
         r = \<lparr>tr_text = [content], tr_is_error = False\<rparr>))
   \<and> (topic \<in> {''gateway-routing'', ''rate-limiting''} \<or>
      (\<forall>rf'. readRunbook quote rf' topic = readRunbook quote rf topic))"
  by (auto simp: readRunbook_def split: sum.splits)

text \<open>
  Every execution is counted once, with one of three outcomes, and the handler's result
  or panic passes through unchanged: cancelled exactly when the context or the error says so,
  success exactly when the handler returned a result that is no error under a live context,
  so a panic is never a success.
\<close>

theorem observe_counts_once:
  "fst (observe tool ctx_err elapsed h events) = h \<and>
   (\<exists>ev. snd (observe tool ctx_err elapsed h events) = events @ [ev] \<and> tv_tool ev = tool \<and>
      tv_outcome ev \<in> {''success'', ''cancelled'', ''error''} \<and>
      (tv_outcome ev = ''success'' \<longleftrightarrow> ctx_err = None \<and> (\<exists>r. h = HandlerReturned (Inr r) \<and> \<not> tr_is_error r)) \<and>
      (tv_outcome ev = ''cancelled'' \<longleftrightarrow> (\<exists>ce. ctx_err = Some ce) \<or>
         (\<exists>e. h = HandlerReturned (Inl e) \<and> (te_canceled e \<or> te_deadline e))))"
  by (auto simp: observe_def observed_outcome_def Let_def split: handler_outcome.split sum.split)

end
