(* ===== verification/Benchmark.thy ===== *)
theory Benchmark
  imports Client Runbook
begin

text \<open>
  The benchmark (\<^verbatim>\<open>internal/democlient/benchmark.go\<close>): the normalised configuration, one
  call and its classification, the workers of a phase, the aggregation with its percentiles,
  the comparison of the two targets, and the schedule of phases.

  The workers of a phase run in parallel and each writes only its own slots, so a phase maps
  over them. What a worker's session, its HTTP exchange and the clock do is the record
  \<open>worker_env\<close>, and \<open>call_env\<close> for one call. A time of 0 is Go's zero time.
\<close>

section \<open>Configuration\<close>

record BenchmarkConfig =
  DirectEndpoint :: string
  GatewayEndpoint :: string
  BCredentials :: Credentials
  Concurrency :: "int list"
  CallsPerWorker :: int
  WarmupPerWorker :: int
  Repetitions :: int
  Topic :: string

text \<open>The loop over the concurrency values: an error, or the total.\<close>

fun concurrency_loop :: "BenchmarkConfig \<Rightarrow> int list \<Rightarrow> int list \<Rightarrow> int \<Rightarrow> string + int" where
  "concurrency_loop c [] seen tot = Inr tot"
| "concurrency_loop c (n # ns) seen tot =
     (if n < 1 \<or> 64 < n \<or> n \<in> set seen
      then Inl ''concurrency values must be distinct integers from 1 to 64''
      else concurrency_loop c ns (n # seen) (tot + n * CallsPerWorker c * Repetitions c * 4))"

definition with_defaults :: "BenchmarkConfig \<Rightarrow> BenchmarkConfig" where
  "with_defaults c =
     (let c1 = (if length (Concurrency c) = 0 then c\<lparr>Concurrency := [1, 4, 8]\<rparr> else c);
          c2 = (if CallsPerWorker c1 = 0 then c1\<lparr>CallsPerWorker := 20\<rparr> else c1);
          c3 = (if WarmupPerWorker c2 = 0 then c2\<lparr>WarmupPerWorker := 3\<rparr> else c2);
          c4 = (if Repetitions c3 = 0 then c3\<lparr>Repetitions := 2\<rparr> else c3)
      in if Topic c4 = [] then c4\<lparr>Topic := ''gateway-routing''\<rparr> else c4)"

definition normalizeBenchmark :: "url_parser \<Rightarrow> BenchmarkConfig \<Rightarrow> string + BenchmarkConfig" where
  "normalizeBenchmark parse c0 =
     (if validateTarget parse (DirectEndpoint c0) \<noteq> None then Inl ''invalid direct endpoint''
      else if validateTarget parse (GatewayEndpoint c0) \<noteq> None then Inl ''invalid gateway endpoint''
      else if DirectEndpoint c0 = GatewayEndpoint c0 \<or> TokenFile (BCredentials c0) = []
      then Inl ''benchmark requires distinct endpoints and a gateway token file''
      else
        (let c = with_defaults c0 in
         if Topic c \<noteq> ''gateway-routing'' \<and> Topic c \<noteq> ''rate-limiting''
         then Inl ''benchmark topic must be an embedded runbook''
         else if 8 < length (Concurrency c) \<or> CallsPerWorker c < 1 \<or> 1000 < CallsPerWorker c \<or>
            WarmupPerWorker c < 1 \<or> 100 < WarmupPerWorker c \<or> Repetitions c < 1 \<or> 10 < Repetitions c
         then Inl ''benchmark workload exceeds bounds''
         else (case concurrency_loop c (Concurrency c) [] 0 of
             Inl err \<Rightarrow> Inl err
           | Inr tot \<Rightarrow>
               if 100000 < tot then Inl ''benchmark is limited to 100000 measured calls'' else Inr c)))"

section \<open>Errors\<close>

datatype ctx_state = CtxAlive | CtxDeadline | CtxCanceled

text \<open>An error, with the answers of \<^verbatim>\<open>errors.Is\<close> and \<^verbatim>\<open>errors.As\<close>.\<close>

record call_error =
  ce_deadline :: bool
  ce_canceled :: bool
  ce_unexpected_eof :: bool
  ce_eof :: bool
  ce_rpc :: "int64 option"
  ce_net_timeout :: "bool option"

definition opaque_error :: call_error where
  "opaque_error = \<lparr>ce_deadline = False, ce_canceled = False, ce_unexpected_eof = False, ce_eof = False,
     ce_rpc = None, ce_net_timeout = None\<rparr>"

definition benchmarkError :: "ctx_state \<Rightarrow> call_error \<Rightarrow> int \<Rightarrow> string" where
  "benchmarkError ctx err status =
     (if ce_deadline err \<or> ctx = CtxDeadline then ''deadline''
      else if ce_canceled err \<or> ctx = CtxCanceled then ''cancelled''
      else if status = 401 then ''http_401''
      else if status = 403 then ''http_403''
      else if status = 429 then ''http_429''
      else if 500 \<le> status then ''http_5xx''
      else if 300 \<le> status then ''http_other''
      else if ce_unexpected_eof err then ''unexpected_eof''
      else if ce_eof err then ''eof''
      else if ce_rpc err \<noteq> None then ''jsonrpc_error''
      else (case ce_net_timeout err of
          Some timeout \<Rightarrow> if timeout then ''transport_timeout'' else ''transport''
        | None \<Rightarrow> ''protocol_or_transport''))"

section \<open>One call\<close>

record BenchmarkSample =
  Worker :: int
  Call :: int
  DurationSeconds :: real
  FirstProgressSeconds :: real
  ProgressUpdates :: int
  ErrorCategory :: string
  JSONRPCErrorCode :: "int64 option"

record benchmarkWorker =
  bw_token :: string
  bw_first :: time
  bw_updates :: int

text \<open>The handler of a progress notification that arrives at \<open>now\<close>.\<close>

definition progress_handler :: "string \<Rightarrow> time \<Rightarrow> benchmarkWorker \<Rightarrow> benchmarkWorker" where
  "progress_handler token now w =
     (if token \<noteq> bw_token w \<or> bw_token w = [] then w
      else
        (let w1 = (if bw_first w = 0 then w\<lparr>bw_first := now\<rparr> else w)
         in w1\<lparr>bw_updates := bw_updates w1 + 1\<rparr>))"

record mcp_result =
  mr_is_error :: bool
  mr_needs_input :: bool
  mr_content :: "content list"

record call_env =
  cv_start :: time
  cv_end :: time
  cv_progress :: "(string \<times> time) list"
  cv_err :: "call_error option"
  cv_result :: "mcp_result option"
  cv_status :: int
  cv_ctx :: ctx_state

definition bad_content :: "content \<Rightarrow> bool" where
  "bad_content c = (case c of TextContent text \<Rightarrow> text = [] | OtherContent \<Rightarrow> True)"

text \<open>The switch on the outcome of the call: the category and the JSON-RPC code.\<close>

definition classify :: "call_env \<Rightarrow> string \<times> int64 option" where
  "classify e =
     (case cv_err e of
        Some err \<Rightarrow> (benchmarkError (cv_ctx e) err (cv_status e), ce_rpc err)
      | None \<Rightarrow>
          (case cv_result e of
             None \<Rightarrow> (''invalid_content'', None)
           | Some r \<Rightarrow>
               if mr_is_error r then (''tool_error'', None)
               else if mr_needs_input r then (''input_required'', None)
               else if length (mr_content r) = 0 \<or> list_ex bad_content (mr_content r)
               then (''invalid_content'', None) else ([], None)))"

definition call_token :: "string \<Rightarrow> int \<Rightarrow> int \<Rightarrow> string" where
  "call_token phase worker call = phase @ ''-'' @ itoa worker @ ''-'' @ itoa call"

definition bench_call :: "string \<Rightarrow> int \<Rightarrow> int \<Rightarrow> string \<Rightarrow> call_env \<Rightarrow> benchmarkWorker
    \<Rightarrow> BenchmarkSample \<times> benchmarkWorker" where
  "bench_call tool worker call phase e w =
     (let w0 = w\<lparr>bw_token := [], bw_first := 0, bw_updates := 0\<rparr>;
          w1 = (if tool = StreamTool then w0\<lparr>bw_token := call_token phase worker call\<rparr> else w0);
          w2 = fold (\<lambda>(token, now). progress_handler token now) (cv_progress e) w1;
          first = bw_first w2;
          updates = bw_updates w2;
          w3 = w2\<lparr>bw_token := []\<rparr>;
          (category, code) = classify e;
          category1 =
            (if category = [] \<and> tool = StreamTool then
               (if first = 0 \<or> updates \<noteq> 3 then ''stream_missing_progress''
                else if first < cv_start e \<or> time_sub (cv_end e) first < 25000000 then ''stream_late_progress''
                else category)
             else category)
      in (\<lparr>Worker = worker, Call = call,
           DurationSeconds = Seconds f64 (time_sub (cv_end e) (cv_start e)),
           FirstProgressSeconds = (if first \<noteq> 0 then Seconds f64 (time_sub first (cv_start e)) else 0),
           ProgressUpdates = updates, ErrorCategory = category1, JSONRPCErrorCode = code\<rparr>, w3))"

section \<open>Percentiles\<close>

record LatencySummary =
  Samples :: int
  P50 :: real
  P95 :: real
  P99 :: real

definition zero_summary :: LatencySummary where
  "zero_summary = \<lparr>Samples = 0, P50 = 0, P95 = 0, P99 = 0\<rparr>"

text \<open>\<^verbatim>\<open>int(math.Ceil(p*float64(len(sorted))))-1\<close>\<close>

definition percentile_index :: "real \<Rightarrow> nat \<Rightarrow> int" where
  "percentile_index p n = \<lceil>f64 (f64 p * f64 (of_nat n))\<rceil> - 1"

definition latencySummary :: "real list \<Rightarrow> LatencySummary" where
  "latencySummary vals =
     (if length vals = 0 then zero_summary
      else
        (let sorted = sort vals;
             percentile = (\<lambda>p. sorted ! nat (percentile_index p (length sorted)))
         in \<lparr>Samples = int (length sorted), P50 = percentile (50 / 100), P95 = percentile (95 / 100),
             P99 = percentile (99 / 100)\<rparr>))"

section \<open>Aggregation\<close>

type_synonym counts = "(string, int) gomap"

definition bump :: "string \<Rightarrow> counts \<Rightarrow> counts" where
  "bump k m = AList.update k ((case map_of m k of None \<Rightarrow> 0 | Some n \<Rightarrow> n) + 1) m"

record BenchmarkMeasurement =
  Target :: string
  Tool :: string
  MConcurrency :: int
  Repetition :: int
  PlannedCalls :: int
  Attempts :: int
  Successes :: int
  Errors :: int
  ErrorCategories :: counts
  InitializationErrors :: counts
  CloseErrors :: counts
  WarmupAttempts :: int
  WarmupErrors :: counts
  WallSeconds :: real
  AttemptsPerSecond :: real
  SuccessesPerSecond :: real
  CompletionLatencySeconds :: LatencySummary
  SuccessLatencySeconds :: LatencySummary
  FirstProgressLatencySeconds :: LatencySummary
  MSamples :: "BenchmarkSample list"

text \<open>The loop over the samples, with the three lists of latencies it collects.\<close>

fun aggregate_loop :: "BenchmarkSample list \<Rightarrow> BenchmarkMeasurement \<times> real list \<times> real list \<times> real list
    \<Rightarrow> BenchmarkMeasurement \<times> real list \<times> real list \<times> real list" where
  "aggregate_loop [] st = st"
| "aggregate_loop (s # ss) (m, all, successful, progress) =
     (let m1 = m\<lparr>Attempts := Attempts m + 1\<rparr>;
          all1 = all @ [DurationSeconds s]
      in if ErrorCategory s \<noteq> [] then
           aggregate_loop ss (m1\<lparr>Errors := Errors m1 + 1,
             ErrorCategories := bump (ErrorCategory s) (ErrorCategories m1)\<rparr>, all1, successful, progress)
         else
           aggregate_loop ss (m1\<lparr>Successes := Successes m1 + 1\<rparr>, all1, successful @ [DurationSeconds s],
             (if 0 < ProgressUpdates s then progress @ [FirstProgressSeconds s] else progress)))"

definition aggregateMeasurement :: "BenchmarkMeasurement \<Rightarrow> BenchmarkMeasurement" where
  "aggregateMeasurement m0 =
     (let (m, all, successful, progress) = aggregate_loop (MSamples m0) (m0, [], [], []);
          m1 = m\<lparr>CompletionLatencySeconds := latencySummary all,
            SuccessLatencySeconds := latencySummary successful,
            FirstProgressLatencySeconds := latencySummary progress\<rparr>
      in if 0 < WallSeconds m1 then
           m1\<lparr>AttemptsPerSecond := f64 (f64 (of_int (Attempts m1)) / WallSeconds m1),
              SuccessesPerSecond := f64 (f64 (of_int (Successes m1)) / WallSeconds m1)\<rparr>
         else m1)"

section \<open>Comparing the targets\<close>

record BenchmarkOverhead =
  OTool :: string
  OConcurrency :: int
  ORepetition :: int
  CompletionDeltaSeconds :: LatencySummary
  P50CompletionPercent :: real
  FirstProgressDeltaSeconds :: LatencySummary

definition summary_delta :: "LatencySummary \<Rightarrow> LatencySummary \<Rightarrow> LatencySummary" where
  "summary_delta a b = \<lparr>Samples = Samples a, P50 = f64 (P50 b - P50 a), P95 = f64 (P95 b - P95 a),
     P99 = f64 (P99 b - P99 a)\<rparr>"

definition overhead_of :: "BenchmarkMeasurement \<Rightarrow> BenchmarkMeasurement \<Rightarrow> BenchmarkOverhead" where
  "overhead_of direct gateway =
     (let completion = summary_delta (CompletionLatencySeconds direct) (CompletionLatencySeconds gateway)
      in \<lparr>OTool = Tool direct, OConcurrency = MConcurrency direct, ORepetition = Repetition direct,
          CompletionDeltaSeconds = completion,
          P50CompletionPercent =
            (if 0 < P50 (CompletionLatencySeconds direct)
             then f64 (f64 (100 * P50 completion) / P50 (CompletionLatencySeconds direct)) else 0),
          FirstProgressDeltaSeconds = summary_delta (FirstProgressLatencySeconds direct)
            (FirstProgressLatencySeconds gateway)\<rparr>)"

definition pairs_with :: "BenchmarkMeasurement \<Rightarrow> BenchmarkMeasurement \<Rightarrow> bool" where
  "pairs_with direct gateway \<longleftrightarrow> \<not> (Target gateway \<noteq> ''gateway'' \<or> Tool gateway \<noteq> Tool direct \<or>
     MConcurrency gateway \<noteq> MConcurrency direct \<or> Repetition gateway \<noteq> Repetition direct)"

fun overhead_loop :: "BenchmarkMeasurement list \<Rightarrow> BenchmarkMeasurement list \<Rightarrow> BenchmarkOverhead list" where
  "overhead_loop all [] = []"
| "overhead_loop all (direct # rest) =
     (if Target direct \<noteq> ''direct'' then overhead_loop all rest
      else map (overhead_of direct) (filter (pairs_with direct) all) @ overhead_loop all rest)"

definition benchmarkOverhead :: "BenchmarkMeasurement list \<Rightarrow> BenchmarkOverhead list" where
  "benchmarkOverhead measurements = overhead_loop measurements measurements"

section \<open>A phase\<close>

text \<open>
  Each error comes with the status the worker's transport recorded last and the state of the
  context. \<open>we_stop phase call\<close>: the context is over when the loop checks it before a call.
\<close>

type_synonym failure = "call_error \<times> int \<times> ctx_state"

record worker_env =
  we_connect :: "failure option"
  we_tools :: "failure + string list"
  we_stop :: "string \<Rightarrow> int \<Rightarrow> bool"
  we_call :: "string \<Rightarrow> int \<Rightarrow> call_env"
  we_close :: "call_error option \<times> int \<times> ctx_state"

text \<open>The endpoint and the credentials of a target.\<close>

definition target_of :: "BenchmarkConfig \<Rightarrow> string \<Rightarrow> string \<times> Credentials" where
  "target_of c target =
     (if target = ''gateway'' then (GatewayEndpoint c, BCredentials c)
      else (DirectEndpoint c, \<lparr>TokenFile = [], AgentID = []\<rparr>))"

definition error_of :: "failure \<Rightarrow> string" where
  "error_of f = (case f of (err, status, ctx) \<Rightarrow> benchmarkError ctx err status)"

text \<open>The set-up of a worker: its category, empty when it found the tool.\<close>

definition setup_worker :: "string \<Rightarrow> worker_env \<Rightarrow> string" where
  "setup_worker tool e =
     (case we_connect e of
        Some f \<Rightarrow> error_of f
      | None \<Rightarrow>
          (case we_tools e of
             Inl f \<Rightarrow> error_of f
           | Inr tools \<Rightarrow> if tool \<in> set tools then [] else ''missing_tool''))"

function call_loop :: "string \<Rightarrow> string \<Rightarrow> int \<Rightarrow> worker_env \<Rightarrow> int \<Rightarrow> int \<Rightarrow> benchmarkWorker \<Rightarrow> BenchmarkSample list" where
  "call_loop tool phase worker e limit call w =
     (if call < limit \<and> \<not> we_stop e phase call then
        (let (s, w1) = bench_call tool worker call phase (we_call e phase call) w
         in s # call_loop tool phase worker e limit (call + 1) w1)
      else [])"
  by pat_completeness auto
termination
  by (relation "measure (\<lambda>(_, _, _, _, limit, call, _). nat (limit - call))") auto

declare call_loop.simps [simp del]

definition close_worker :: "worker_env \<Rightarrow> string" where
  "close_worker e =
     (case we_connect e of
        Some _ \<Rightarrow> []
      | None \<Rightarrow>
          (case we_close e of (err, status, ctx) \<Rightarrow>
             (case err of
                Some er \<Rightarrow> benchmarkError ctx er status
              | None \<Rightarrow> if 300 \<le> status \<and> status \<noteq> 405 then benchmarkError ctx opaque_error status else [])))"

definition count_categories :: "string list \<Rightarrow> counts" where
  "count_categories cs = fold (\<lambda>c m. if c \<noteq> [] then bump c m else m) cs []"

definition new_worker :: benchmarkWorker where
  "new_worker = \<lparr>bw_token = [], bw_first = 0, bw_updates = 0\<rparr>"

record phase_env =
  ph_worker :: "string \<Rightarrow> Credentials \<Rightarrow> int \<Rightarrow> worker_env"
  ph_start :: time
  ph_end :: time

text \<open>What a phase reports, from the slots that its workers have filled.\<close>

definition phase_measurement :: "phase_env \<Rightarrow> BenchmarkConfig \<Rightarrow> string \<Rightarrow> string \<Rightarrow> int \<Rightarrow> int \<Rightarrow> string list
    \<Rightarrow> BenchmarkSample list list \<Rightarrow> BenchmarkSample list list \<Rightarrow> string list \<Rightarrow> BenchmarkMeasurement" where
  "phase_measurement P c target tool concurrency repetition setups warmups samples closeErrors =
     (let m = \<lparr>Target = target, Tool = tool, MConcurrency = concurrency, Repetition = repetition,
               PlannedCalls = concurrency * CallsPerWorker c, Attempts = 0, Successes = 0, Errors = 0,
               ErrorCategories = [], InitializationErrors = count_categories setups, CloseErrors = [],
               WarmupAttempts = 0, WarmupErrors = [], WallSeconds = 0, AttemptsPerSecond = 0,
               SuccessesPerSecond = 0, CompletionLatencySeconds = zero_summary,
               SuccessLatencySeconds = zero_summary, FirstProgressLatencySeconds = zero_summary, MSamples = []\<rparr>;
          m1 = (if length (InitializationErrors m) = 0 then
                  m\<lparr>WarmupAttempts := int (length (concat warmups)),
                    WarmupErrors := count_categories (map ErrorCategory (concat warmups)),
                    WallSeconds := Seconds f64 (time_sub (ph_end P) (ph_start P)),
                    MSamples := concat samples\<rparr>
                else m);
          m2 = m1\<lparr>CloseErrors := count_categories closeErrors\<rparr>
      in aggregateMeasurement m2)"

text \<open>The slots as the workers fill them, each its own; \<open>Parallel\<close> derives this from their steps.\<close>

definition benchmarkPhase :: "phase_env \<Rightarrow> BenchmarkConfig \<Rightarrow> string \<Rightarrow> string \<Rightarrow> int \<Rightarrow> int \<Rightarrow> BenchmarkMeasurement" where
  "benchmarkPhase P c target tool concurrency repetition =
     (let workers = [0..concurrency - 1];
          (endpoint, credentials) = target_of c target;
          env = ph_worker P endpoint credentials
      in phase_measurement P c target tool concurrency repetition
           (map (\<lambda>i. setup_worker tool (env i)) workers)
           (map (\<lambda>i. call_loop tool ''warmup'' i (env i) (WarmupPerWorker c) 0 new_worker) workers)
           (map (\<lambda>i. call_loop tool ''measured'' i (env i) (CallsPerWorker c) 0 new_worker) workers)
           (map (\<lambda>i. close_worker (env i)) workers))"

section \<open>The benchmark\<close>

type_synonym phase_id = "string \<times> string \<times> int \<times> int"

definition targets :: "int \<Rightarrow> string list" where
  "targets repetition = (if repetition mod 2 = 0 then [''gateway'', ''direct''] else [''direct'', ''gateway''])"

text \<open>The nested loops of \<^verbatim>\<open>Benchmark\<close>: target, tool, concurrency, repetition of each phase.\<close>

definition schedule :: "BenchmarkConfig \<Rightarrow> phase_id list" where
  "schedule c = concat (map (\<lambda>n. concat (map (\<lambda>tool. concat (map (\<lambda>rep.
     map (\<lambda>target. (target, tool, n, rep)) (targets rep)) [1..Repetitions c]))
     [ReadTool, StreamTool])) (Concurrency c))"

record BenchmarkReport =
  Successful :: bool
  RConfig :: BenchmarkConfig
  Measurements :: "BenchmarkMeasurement list"
  Overhead :: "BenchmarkOverhead list"

definition phase_failed :: "BenchmarkMeasurement \<Rightarrow> bool" where
  "phase_failed m \<longleftrightarrow> Attempts m \<noteq> PlannedCalls m \<or> 0 < Errors m \<or>
     0 < length (InitializationErrors m) + length (CloseErrors m) + length (WarmupErrors m)"

text \<open>\<open>over\<close>: whether the context is over after the phase; then the loops are left.\<close>

fun run_phases :: "(phase_id \<Rightarrow> phase_env) \<Rightarrow> (phase_id \<Rightarrow> bool) \<Rightarrow> BenchmarkConfig \<Rightarrow> phase_id list
    \<Rightarrow> BenchmarkReport \<Rightarrow> BenchmarkReport" where
  "run_phases P over c [] r = r"
| "run_phases P over c ((target, tool, n, rep) # rest) r =
     (let m = benchmarkPhase (P (target, tool, n, rep)) c target tool n rep;
          r1 = r\<lparr>Measurements := Measurements r @ [m]\<rparr>;
          r2 = (if phase_failed m then r1\<lparr>Successful := False\<rparr> else r1)
      in if over (target, tool, n, rep) then r2\<lparr>Successful := False\<rparr> else run_phases P over c rest r2)"

text \<open>The error returned, and the report when one was written.\<close>

definition Benchmark :: "url_parser \<Rightarrow> (phase_id \<Rightarrow> phase_env) \<Rightarrow> (phase_id \<Rightarrow> bool) \<Rightarrow> (BenchmarkReport \<Rightarrow> string option)
    \<Rightarrow> BenchmarkConfig \<Rightarrow> string option \<times> BenchmarkReport option" where
  "Benchmark parse P over encode config =
     (case normalizeBenchmark parse config of
        Inl err \<Rightarrow> (Some err, None)
      | Inr c \<Rightarrow>
          (let report0 = \<lparr>Successful = True, RConfig = c, Measurements = [], Overhead = []\<rparr>;
               report1 = run_phases P over c (schedule c) report0;
               report = (if Successful report1
                 then report1\<lparr>Overhead := benchmarkOverhead (Measurements report1)\<rparr> else report1)
           in case encode report of
                Some err \<Rightarrow> (Some (''write benchmark report: '' @ err), None)
              | None \<Rightarrow>
                  if \<not> Successful report
                  then (Some ''benchmark failed; see sanitized error categories in JSON report'', Some report)
                  else (None, Some report)))"

section \<open>The configuration\<close>

lemma concurrency_loop_iff:
  "concurrency_loop c ns seen t = Inr r \<longleftrightarrow>
     (\<forall>n \<in> set ns. 1 \<le> n \<and> n \<le> 64) \<and> distinct ns \<and> set ns \<inter> set seen = {} \<and>
     r = t + sum_list (map (\<lambda>n. n * CallsPerWorker c * Repetitions c * 4) ns)"
  by (induction c ns seen t rule: concurrency_loop.induct) (auto simp: algebra_simps)

lemma with_defaults_fields:
  "DirectEndpoint (with_defaults c) = DirectEndpoint c" "GatewayEndpoint (with_defaults c) = GatewayEndpoint c"
  "BCredentials (with_defaults c) = BCredentials c"
  "Concurrency (with_defaults c) = (if Concurrency c = [] then [1, 4, 8] else Concurrency c)"
  "CallsPerWorker (with_defaults c) = (if CallsPerWorker c = 0 then 20 else CallsPerWorker c)"
  "WarmupPerWorker (with_defaults c) = (if WarmupPerWorker c = 0 then 3 else WarmupPerWorker c)"
  "Repetitions (with_defaults c) = (if Repetitions c = 0 then 2 else Repetitions c)"
  "Topic (with_defaults c) = (if Topic c = [] then ''gateway-routing'' else Topic c)"
  by (simp_all add: with_defaults_def Let_def)

lemma with_defaults_idem: "with_defaults (with_defaults c) = with_defaults c"
  using with_defaults_fields[of "with_defaults c"] with_defaults_fields[of c]
  by (intro BenchmarkConfig.equality) (auto split: if_splits)

definition planned_calls :: "BenchmarkConfig \<Rightarrow> phase_id \<Rightarrow> int" where
  "planned_calls c p = (case p of (target, tool, n, rep) \<Rightarrow> n * CallsPerWorker c)"

lemma sum_list_concat: "sum_list (concat xss) = sum_list (map sum_list (xss :: int list list))"
  by (induction xss) simp_all

lemma planned_schedule:
  assumes "0 \<le> Repetitions c"
  shows "sum_list (map (planned_calls c) (schedule c))
    = sum_list (map (\<lambda>n. n * CallsPerWorker c * Repetitions c * 4) (Concurrency c))"
proof -
  have t: "sum_list (map (\<lambda>target. planned_calls c (target, tool, n, rep)) (targets rep)) = 2 * (n * CallsPerWorker c)"
    for tool n rep by (simp add: targets_def planned_calls_def)
  have r: "sum_list (map (\<lambda>rep. 2 * (n * CallsPerWorker c)) [1..Repetitions c]) = Repetitions c * (2 * (n * CallsPerWorker c))"
    for n using assms by (simp add: sum_list_triv)
  have per: "sum_list (map (planned_calls c) (concat (map (\<lambda>tool. concat (map (\<lambda>rep.
      map (\<lambda>target. (target, tool, n, rep)) (targets rep)) [1..Repetitions c])) [ReadTool, StreamTool])))
      = n * CallsPerWorker c * Repetitions c * 4" for n
  proof -
    have "sum_list (map (planned_calls c) (concat (map (\<lambda>tool. concat (map (\<lambda>rep.
        map (\<lambda>target. (target, tool, n, rep)) (targets rep)) [1..Repetitions c])) [ReadTool, StreamTool])))
        = 2 * (Repetitions c * (2 * (n * CallsPerWorker c)))"
      by (simp add: map_concat sum_list_concat comp_def t r)
    also have "\<dots> = n * CallsPerWorker c * Repetitions c * 4" by (simp add: algebra_simps)
    finally show ?thesis .
  qed
  show ?thesis
    by (simp only: schedule_def map_concat[of _ "map _ (Concurrency c)"] sum_list_concat map_map comp_def per)
qed

lemma normalize_iff:
  "normalizeBenchmark parse c0 = Inr c \<longleftrightarrow>
     validateTarget parse (DirectEndpoint c0) = None \<and> validateTarget parse (GatewayEndpoint c0) = None \<and>
     DirectEndpoint c0 \<noteq> GatewayEndpoint c0 \<and> TokenFile (BCredentials c0) \<noteq> [] \<and> c = with_defaults c0 \<and>
     Topic c \<in> {''gateway-routing'', ''rate-limiting''} \<and> length (Concurrency c) \<le> 8 \<and>
     1 \<le> CallsPerWorker c \<and> CallsPerWorker c \<le> 1000 \<and> 1 \<le> WarmupPerWorker c \<and> WarmupPerWorker c \<le> 100 \<and>
     1 \<le> Repetitions c \<and> Repetitions c \<le> 10 \<and> (\<forall>n \<in> set (Concurrency c). 1 \<le> n \<and> n \<le> 64) \<and>
     distinct (Concurrency c) \<and> sum_list (map (planned_calls c) (schedule c)) \<le> 100000"
proof -
  let ?w = "with_defaults c0"
  show ?thesis
  proof (cases "1 \<le> Repetitions ?w")
    case True
    then have p: "sum_list (map (\<lambda>n. n * CallsPerWorker ?w * Repetitions ?w * 4) (Concurrency ?w))
        = sum_list (map (planned_calls ?w) (schedule ?w))" by (simp add: planned_schedule)
    show ?thesis
    proof (cases "concurrency_loop ?w (Concurrency ?w) [] 0")
      case (Inl e)
      then have "\<not> ((\<forall>n \<in> set (Concurrency ?w). 1 \<le> n \<and> n \<le> 64) \<and> distinct (Concurrency ?w))"
        using concurrency_loop_iff[of ?w "Concurrency ?w" "[]" 0] by auto
      with Inl show ?thesis by (auto simp: normalizeBenchmark_def Let_def)
    next
      case (Inr t)
      then have "(\<forall>n \<in> set (Concurrency ?w). 1 \<le> n \<and> n \<le> 64) \<and> distinct (Concurrency ?w)"
        and "t = sum_list (map (planned_calls ?w) (schedule ?w))"
        using concurrency_loop_iff[of ?w "Concurrency ?w" "[]" 0 t] p by auto
      with Inr show ?thesis by (auto simp: normalizeBenchmark_def Let_def)
    qed
  qed (auto simp: normalizeBenchmark_def Let_def)
qed

section \<open>Percentiles\<close>

text \<open>The value at rank \<open>q\<close> percent: it is one of the samples, at least \<open>q\<close> percent of them
  are at most it, and fewer are below it.\<close>

definition nearest_rank :: "nat \<Rightarrow> real list \<Rightarrow> real \<Rightarrow> bool" where
  "nearest_rank q vals v \<longleftrightarrow> v \<in> set vals \<and>
     q * length vals \<le> 100 * length (filter (\<lambda>x. x \<le> v) vals) \<and>
     100 * length (filter (\<lambda>x. x < v) vals) < q * length vals"

lemma sorted_rank:
  assumes "sorted xs" and "k < length xs"
  shows "Suc k \<le> length (filter (\<lambda>x. x \<le> xs ! k) xs)" and "length (filter (\<lambda>x. x < xs ! k) xs) \<le> k"
proof -
  have "{..k} \<subseteq> {i. i < length xs \<and> xs ! i \<le> xs ! k}"
    using assms by (auto intro: sorted_nth_mono)
  then have "card {..k} \<le> card {i. i < length xs \<and> xs ! i \<le> xs ! k}" by (intro card_mono) auto
  then show "Suc k \<le> length (filter (\<lambda>x. x \<le> xs ! k) xs)" by (simp add: length_filter_conv_card)
  have "{i. i < length xs \<and> xs ! i < xs ! k} \<subseteq> {..<k}"
    using assms by (auto simp: not_le[symmetric] dest: sorted_nth_mono)
  then have "card {i. i < length xs \<and> xs ! i < xs ! k} \<le> card {..<k}" by (intro card_mono) auto
  then show "length (filter (\<lambda>x. x < xs ! k) xs) \<le> k" by (simp add: length_filter_conv_card)
qed

lemma filter_sort_length: "length (filter P (sort xs)) = length (filter P xs)"
  by (metis mset_filter mset_sort size_mset)

text \<open>The three constants are rounded down, or exact.\<close>

lemma f64_half_to_one:
  assumes "1 / 2 \<le> x" and "x < 1"
  shows "f64 x = of_int (rne (x * 2 ^ 53)) / 2 ^ 53"
proof -
  have "- 1 \<le> log 2 x" using assms by (simp add: le_log_iff powr_minus_divide)
  moreover have "log 2 x < 0" using assms by simp
  ultimately have "f64_exp x = - 1" using assms by (simp add: f64_exp_def floor_eq_iff)
  then have "f64_ulp x = 2 powr - real 53" by (simp add: f64_ulp_def)
  then have ulp: "f64_ulp x = 1 / 2 ^ 53" by (simp only: powr_minus_divide powr_realpow zero_less_numeral)
  have "x \<noteq> 0" using assms by simp
  then show ?thesis unfolding f64_def ulp by simp
qed

lemma rne_down: "of_int n \<le> x \<Longrightarrow> x < of_int n + 1 / 2 \<Longrightarrow> rne x = n"
proof -
  assume "of_int n \<le> x" and "x < of_int n + 1 / 2"
  then have "\<lfloor>x\<rfloor> = n" by (simp add: floor_eq_iff)
  with \<open>x < of_int n + 1 / 2\<close> show ?thesis by (simp add: rne_def)
qed

lemma f64_percents: "f64 (50 / 100) \<le> 50 / 100" "f64 (95 / 100) \<le> 95 / 100" "f64 (99 / 100) \<le> 99 / 100"
proof -
  have "rne (50 / 100 * 2 ^ 53) = 4503599627370496" by (rule rne_down) simp_all
  then show "f64 (50 / 100) \<le> 50 / 100" by (subst f64_half_to_one) simp_all
  have "rne (95 / 100 * 2 ^ 53) = 8556839292003942" by (rule rne_down) simp_all
  then show "f64 (95 / 100) \<le> 95 / 100" by (subst f64_half_to_one) simp_all
  have "rne (99 / 100 * 2 ^ 53) = 8917127262193582" by (rule rne_down) simp_all
  then show "f64 (99 / 100) \<le> 99 / 100" by (subst f64_half_to_one) simp_all
qed

text \<open>The index the code computes in \<^verbatim>\<open>float64\<close> is the exact one.\<close>

lemma percentile_index_exact:
  fixes q :: nat
  assumes q: "1 \<le> q" "q \<le> 100" and down: "f64 (real q / 100) \<le> real q / 100"
    and n: "1 \<le> n" "n \<le> 100000"
  shows "percentile_index (real q / 100) n = \<lceil>real (q * n) / 100\<rceil> - 1"
proof -
  define p x k where "p = real q / 100" and "x = real (q * n) / 100" and "k = \<lceil>x\<rceil>"
  have x: "x = p * real n" by (simp add: x_def p_def)
  have fn: "f64 (real n) = real n" using f64_of_int[of "int n"] n by simp
  have p0: "0 < p" "p \<le> 1" using q by (simp_all add: p_def)
  have xn: "x \<le> real n" unfolding x using p0 n by (simp add: mult_left_le_one_le)
  have x0: "0 < x" unfolding x using p0 n by simp
  have kn: "\<bar>k\<bar> \<le> 2 ^ 53"
    using xn x0 n unfolding k_def by (simp add: abs_le_iff ceiling_le_iff)
  let ?y = "f64 (f64 p * f64 (real n))"
  have "f64 p * real n \<le> of_int k"
    using down n le_of_int_ceiling[of x] mult_right_mono[of "f64 p" p "real n"] unfolding k_def x p_def by linarith
  then have hi: "?y \<le> of_int k" unfolding fn using f64_mono f64_of_int[OF kn] by metis
  have u: "(1 - 1 / 2 ^ 53) * p \<le> f64 p" using f64.fl_lower[of p] p0 by simp
  then have lower: "(1 - 1 / 2 ^ 53) * x \<le> f64 p * real n"
    unfolding x using n mult_right_mono[OF u, of "real n"] by (simp only: mult.assoc)
  have "(1 - 1 / 2 ^ 53) * ((1 - 1 / 2 ^ 53) * x) \<le> (1 - 1 / 2 ^ 53) * (f64 p * real n)"
    by (rule mult_left_mono[OF lower]) simp
  also have "0 \<le> f64 p * real n" using p0 f64_nonneg[of p] by simp
  then have "(1 - 1 / 2 ^ 53) * (f64 p * real n) \<le> ?y" unfolding fn by (rule f64.fl_lower)
  finally have "(1 - 1 / 2 ^ 53) * ((1 - 1 / 2 ^ 53) * x) \<le> ?y" .
  moreover have "x - 1 / 1000 < (1 - 1 / 2 ^ 53) * ((1 - 1 / 2 ^ 53) * x)"
  proof -
    have "x \<le> 100000" using xn n by simp
    moreover have "(1 - 1 / 2 ^ 53) * ((1 - 1 / 2 ^ 53) * x) = x - (2 / 2 ^ 53 - 1 / 2 ^ 106) * x"
      by (simp add: algebra_simps)
    ultimately show ?thesis using x0 by simp
  qed
  moreover have "of_int (k - 1) + 1 / 100 \<le> x"
  proof -
    have "of_int (k - 1) < x" unfolding k_def by linarith
    then have "real_of_int (100 * (k - 1)) < real_of_int (int (q * n))" by (simp add: x_def)
    then have "100 * (k - 1) + 1 \<le> int (q * n)" by linarith
    then have "real_of_int (100 * (k - 1) + 1) \<le> real_of_int (int (q * n))" by (simp only: of_int_le_iff)
    then show ?thesis by (simp add: x_def)
  qed
  ultimately have lo: "of_int (k - 1) < ?y" by linarith
  have "\<lceil>?y\<rceil> = k" using lo hi by (simp add: ceiling_eq_iff)
  then show ?thesis by (simp add: percentile_index_def p_def k_def x_def)
qed

lemma percentile_nearest:
  fixes q :: nat
  assumes "1 \<le> q" "q \<le> 100" and "f64 (real q / 100) \<le> real q / 100"
    and "vals \<noteq> []" and "length vals \<le> 100000"
  shows "0 \<le> percentile_index (real q / 100) (length vals)"
    and "percentile_index (real q / 100) (length vals) < int (length vals)"
    and "nearest_rank q vals (sort vals ! nat (percentile_index (real q / 100) (length vals)))"
proof -
  let ?n = "length vals"
  define k where "k = \<lceil>real (q * ?n) / 100\<rceil> - 1"
  have n: "1 \<le> ?n" using assms(4) by (simp add: Suc_le_eq)
  have idx: "percentile_index (real q / 100) ?n = k"
    unfolding k_def using percentile_index_exact[OF assms(1-3) n assms(5)] .
  have "0 < q * ?n" using assms(1,4) by simp
  then have "0 < real (q * ?n) / 100" by (simp only: of_nat_0_less_iff divide_pos_pos zero_less_numeral)
  then have k0: "0 \<le> k" unfolding k_def by linarith
  have "real (q * ?n) \<le> real (100 * ?n)" using assms(2) by (simp only: of_nat_le_iff mult_le_mono1)
  then have "real (q * ?n) / 100 \<le> real ?n" by simp
  then have kn: "k < int ?n" unfolding k_def by linarith
  show "0 \<le> percentile_index (real q / 100) ?n" "percentile_index (real q / 100) ?n < int ?n"
    using k0 kn idx by simp_all
  let ?k = "nat k"
  have kk: "?k < length (sort vals)" "int ?k = k" using k0 kn by simp_all
  note rank = sorted_rank[OF sorted_sort kk(1), unfolded filter_sort_length]
  define z where "z = real (q * ?n) / 100"
  have z: "real (q * ?n) = 100 * z" "k = \<lceil>z\<rceil> - 1" by (simp_all add: z_def k_def)
  have "real (q * ?n) \<le> 100 * of_int (k + 1)" unfolding z using le_of_int_ceiling[of z] by simp
  moreover have "100 * real_of_int k < real (q * ?n)" unfolding z using ceiling_correct[of z] by simp
  ultimately have qn: "int (q * ?n) \<le> 100 * (k + 1)" "100 * k < int (q * ?n)" by linarith+
  have "sort vals ! ?k \<in> set vals" using kk(1) by (metis nth_mem set_sort)
  moreover have "q * ?n \<le> 100 * length (filter (\<lambda>x. x \<le> sort vals ! ?k) vals)"
  proof -
    define w where "w = q * ?n"
    obtain j where j: "k = int j" using zero_le_imp_eq_int[OF k0] by blast
    have "int w \<le> int (100 * Suc j)" using qn(1) unfolding w_def[symmetric] j by simp
    then have "w \<le> 100 * Suc ?k" unfolding of_nat_le_iff j nat_int .
    then show ?thesis unfolding w_def[symmetric] by (rule order_trans[OF _ mult_le_mono2[OF rank(1)]])
  qed
  moreover have "100 * length (filter (\<lambda>x. x < sort vals ! ?k) vals) < q * ?n"
  proof -
    define w where "w = q * ?n"
    obtain j where j: "k = int j" using zero_le_imp_eq_int[OF k0] by blast
    have "int (100 * j) < int w" using qn(2) unfolding w_def[symmetric] j by simp
    then have "100 * ?k < w" unfolding of_nat_less_iff j nat_int .
    then show ?thesis unfolding w_def[symmetric] by (rule order.strict_trans1[OF mult_le_mono2[OF rank(2)]])
  qed
  ultimately show "nearest_rank q vals (sort vals ! nat (percentile_index (real q / 100) ?n))"
    by (simp add: nearest_rank_def idx)
qed

section \<open>Aggregation\<close>

definition count_of :: "counts \<Rightarrow> string \<Rightarrow> int" where
  "count_of m k = (case map_of m k of None \<Rightarrow> 0 | Some n \<Rightarrow> n)"

lemma count_bump: "count_of (bump k m) k' = count_of m k' + (if k' = k then 1 else 0)"
  by (simp add: count_of_def bump_def update_conv')

lemma bump_keys [simp]: "gomap_keys (bump k m) = insert k (gomap_keys m)"
  by (simp add: bump_def)

lemma bump_ne [simp]: "bump k m \<noteq> []"
  using bump_keys[of k m] by (metis image_empty insert_not_empty list.set(1))

definition bad :: "BenchmarkSample list \<Rightarrow> BenchmarkSample list" where
  "bad ss = filter (\<lambda>s. ErrorCategory s \<noteq> []) ss"

definition good :: "BenchmarkSample list \<Rightarrow> BenchmarkSample list" where
  "good ss = filter (\<lambda>s. ErrorCategory s = []) ss"

lemma aggregate_loop_eq:
  "aggregate_loop ss (m, all, successful, progress) =
     (m\<lparr>Attempts := Attempts m + int (length ss), Errors := Errors m + int (length (bad ss)),
        ErrorCategories := fold bump (map ErrorCategory (bad ss)) (ErrorCategories m),
        Successes := Successes m + int (length (good ss))\<rparr>,
      all @ map DurationSeconds ss, successful @ map DurationSeconds (good ss),
      progress @ map FirstProgressSeconds (filter (\<lambda>s. 0 < ProgressUpdates s) (good ss)))"
  by (induction ss arbitrary: m all successful progress) (simp_all add: bad_def good_def)

lemma good_bad_length: "length (good ss) + length (bad ss) = length ss"
  unfolding good_def bad_def by (induction ss) auto

lemma count_fold_bump: "count_of (fold bump ks m) k = count_of m k + int (length (filter (\<lambda>x. x = k) ks))"
  by (induction ks arbitrary: m) (auto simp: count_bump)

lemma fold_bump_keys: "gomap_keys (fold bump ks m) = set ks \<union> gomap_keys m"
  by (induction ks arbitrary: m) auto

section \<open>Calls\<close>

definition error_categories :: "string list" where
  "error_categories = [''deadline'', ''cancelled'', ''http_401'', ''http_403'', ''http_429'', ''http_5xx'',
     ''http_other'', ''unexpected_eof'', ''eof'', ''jsonrpc_error'', ''transport_timeout'', ''transport'',
     ''protocol_or_transport'']"

definition call_categories :: "string list" where
  "call_categories = error_categories @ [''invalid_content'', ''tool_error'', ''input_required'',
     ''stream_missing_progress'', ''stream_late_progress'']"

lemma benchmarkError_in: "benchmarkError ctx err status \<in> set error_categories"
  by (simp add: benchmarkError_def error_categories_def split: option.split)

lemma benchmarkError_ne: "benchmarkError ctx err status \<noteq> []"
  using benchmarkError_in[of ctx err status] by (auto simp: error_categories_def)

definition valid_result :: "call_env \<Rightarrow> bool" where
  "valid_result e \<longleftrightarrow> cv_err e = None \<and> (\<exists>r. cv_result e = Some r \<and> \<not> mr_is_error r \<and> \<not> mr_needs_input r \<and>
     mr_content r \<noteq> [] \<and> \<not> list_ex bad_content (mr_content r))"

lemma classify_ok_iff: "fst (classify e) = [] \<longleftrightarrow> valid_result e"
  by (auto simp: classify_def valid_result_def benchmarkError_ne split: option.splits)

lemma classify_in: "fst (classify e) = [] \<or> fst (classify e) \<in> set call_categories"
  using benchmarkError_in[of "cv_ctx e"] by (auto simp: classify_def call_categories_def split: option.splits)

lemma call_token_ne: "call_token phase worker call \<noteq> []"
  by (simp add: call_token_def)

text \<open>What the notifications of a call leave in the worker.\<close>

definition own_progress :: "string \<Rightarrow> (string \<times> time) list \<Rightarrow> time list" where
  "own_progress token ps = map snd (filter (\<lambda>p. fst p = token) ps)"

lemma progress_fold:
  assumes "\<forall>p \<in> set ps. snd p \<noteq> 0" and "bw_token w \<noteq> []" and "bw_updates w = 0 \<longleftrightarrow> bw_first w = 0"
    and "0 \<le> bw_updates w"
  shows "fold (\<lambda>(token, now). progress_handler token now) ps w =
    w\<lparr>bw_first := (if bw_first w = 0 then (case own_progress (bw_token w) ps of [] \<Rightarrow> 0 | t # _ \<Rightarrow> t) else bw_first w),
      bw_updates := bw_updates w + int (length (own_progress (bw_token w) ps))\<rparr>"
  using assms
proof (induction ps arbitrary: w)
  case Nil
  then show ?case by (simp add: own_progress_def)
next
  case (Cons p ps)
  obtain tok t where p: "p = (tok, t)" by fastforce
  have t: "t \<noteq> 0" using Cons.prems p by simp
  let ?w = "progress_handler tok t w"
  show ?case
  proof (cases "tok = bw_token w")
    case True
    then have w: "?w = w\<lparr>bw_first := (if bw_first w = 0 then t else bw_first w), bw_updates := bw_updates w + 1\<rparr>"
      using Cons.prems by (simp add: progress_handler_def Let_def)
    have "fold (\<lambda>(token, now). progress_handler token now) ps ?w = ?w\<lparr>bw_first := (if bw_first ?w = 0 then (case own_progress (bw_token ?w) ps of [] \<Rightarrow> 0 | t # _ \<Rightarrow> t) else bw_first ?w),
        bw_updates := bw_updates ?w + int (length (own_progress (bw_token ?w) ps))\<rparr>"
      using Cons.prems t by (intro Cons.IH) (auto simp: w)
    with t show ?thesis by (simp add: p w w[unfolded True] own_progress_def True)
  next
    case False
    then have w: "?w = w" by (simp add: progress_handler_def)
    have "own_progress (bw_token w) (p # ps) = own_progress (bw_token w) ps"
      using False by (simp add: own_progress_def p)
    moreover have "fold (\<lambda>(token, now). progress_handler token now) (p # ps) w
        = fold (\<lambda>(token, now). progress_handler token now) ps w" by (simp add: p w)
    ultimately show ?thesis using Cons.IH[of w] Cons.prems by simp
  qed
qed

lemma progress_ignored:
  "bw_token w = [] \<Longrightarrow> fold (\<lambda>(token, now). progress_handler token now) ps w = w"
  by (induction ps arbitrary: w) (auto simp: progress_handler_def)

lemma bench_call_category_in:
  "ErrorCategory (fst (bench_call tool worker call phase e w)) = []
   \<or> ErrorCategory (fst (bench_call tool worker call phase e w)) \<in> set call_categories"
  using classify_in[of e] by (auto simp: bench_call_def Let_def split_beta call_categories_def)

lemma call_loop_categories:
  "s \<in> set (call_loop tool phase worker e limit call w) \<Longrightarrow> ErrorCategory s = [] \<or> ErrorCategory s \<in> set call_categories"
proof (induction tool phase worker e limit call w rule: call_loop.induct)
  case (1 tool phase worker e limit call w)
  from 1(2) have c: "call < limit \<and> \<not> we_stop e phase call"
    by (subst (asm) call_loop.simps) (auto split: if_splits)
  obtain s' w1 where b: "bench_call tool worker call phase (we_call e phase call) w = (s', w1)" by fastforce
  have "s = s' \<or> s \<in> set (call_loop tool phase worker e limit (call + 1) w1)"
    using 1(2) c b by (subst (asm) call_loop.simps) simp
  then show ?case
    using 1(1)[OF c b[symmetric] refl] bench_call_category_in[of tool worker call phase "we_call e phase call" w] b
    by auto
qed

section \<open>What the benchmark promises\<close>

lemma normalizeBenchmark_bounded:
  assumes "normalizeBenchmark parse c0 = Inr c"
  shows "distinct (Concurrency c) \<and> Concurrency c \<noteq> []"
proof -
  have "c = with_defaults c0" "distinct (Concurrency c)" using assms unfolding normalize_iff by blast+
  then show ?thesis by (simp add: with_defaults_fields)
qed

text \<open>
  C35. A configuration is accepted only with distinct valid endpoints, a token file and a
  workload within the documented bounds, and the calls of all phases of its schedule add up
  to at most 100000; normalising it again gives it back.
\<close>

theorem normalizeBenchmark_bounds:
  assumes "normalizeBenchmark parse c0 = Inr c"
  shows "normalizeBenchmark parse c = Inr c
    \<and> DirectEndpoint c \<noteq> GatewayEndpoint c \<and> TokenFile (BCredentials c) \<noteq> []
    \<and> Concurrency c \<noteq> [] \<and> length (Concurrency c) \<le> 8 \<and> distinct (Concurrency c)
    \<and> (\<forall>n \<in> set (Concurrency c). 1 \<le> n \<and> n \<le> 64)
    \<and> 1 \<le> CallsPerWorker c \<and> CallsPerWorker c \<le> 1000 \<and> 1 \<le> WarmupPerWorker c \<and> WarmupPerWorker c \<le> 100
    \<and> 1 \<le> Repetitions c \<and> Repetitions c \<le> 10
    \<and> sum_list (map (planned_calls c) (schedule c)) \<le> 100000"
proof -
  have c: "c = with_defaults c0" using assms unfolding normalize_iff by blast
  have again: "normalizeBenchmark parse c = Inr c"
    using assms unfolding normalize_iff c with_defaults_idem by (simp add: with_defaults_fields)
  with normalizeBenchmark_bounded[OF assms] show ?thesis unfolding normalize_iff by blast
qed

definition sample_parser :: url_parser where
  "sample_parser s = Some \<lparr>u_scheme = ''http'', u_host = s, u_hostname = s, u_port = [], u_user = None,
     u_query = [], u_fragment = []\<rparr>"

definition sample_config :: BenchmarkConfig where
  "sample_config = \<lparr>DirectEndpoint = ''direct'', GatewayEndpoint = ''gateway'',
     BCredentials = \<lparr>TokenFile = ''/token'', AgentID = []\<rparr>, Concurrency = [], CallsPerWorker = 0,
     WarmupPerWorker = 0, Repetitions = 0, Topic = []\<rparr>"

lemma sample_normalized: "normalizeBenchmark sample_parser sample_config = Inr (with_defaults sample_config)"
  by code_simp

theorem normalizeBenchmark_bounds_witness:
  "sum_list (map (planned_calls (with_defaults sample_config)) (schedule (with_defaults sample_config))) \<le> 100000
   \<and> normalizeBenchmark sample_parser (with_defaults sample_config) = Inr (with_defaults sample_config)"
  using normalizeBenchmark_bounds[OF sample_normalized] by blast

text \<open>
  C25. The percentiles are the nearest ranks of the samples: although the rank is computed
  with rounded \<^verbatim>\<open>float64\<close> products, for up to 100000 samples the index is in range and
  each reported value is a sample with at least that share of the samples at or below it and
  less than that share below it.
\<close>

theorem latencySummary_nearest_rank:
  assumes "vals \<noteq> []" and "length vals \<le> 100000"
  shows "Samples (latencySummary vals) = int (length vals)
    \<and> nearest_rank 50 vals (P50 (latencySummary vals))
    \<and> nearest_rank 95 vals (P95 (latencySummary vals))
    \<and> nearest_rank 99 vals (P99 (latencySummary vals))
    \<and> {percentile_index (50 / 100) (length vals), percentile_index (95 / 100) (length vals),
        percentile_index (99 / 100) (length vals)} \<subseteq> {0..<int (length vals)}"
  using percentile_nearest[where q = 50 and vals = vals] percentile_nearest[where q = 95 and vals = vals]
    percentile_nearest[where q = 99 and vals = vals] f64_percents assms
  by (simp add: latencySummary_def Let_def)

theorem latencySummary_nearest_rank_witness:
  "nearest_rank 95 (map real [0..<20]) (P95 (latencySummary (map real [0..<20])))"
  using latencySummary_nearest_rank[of "map real [0..<20]"] by simp

text \<open>
  The aggregation accounts for every sample: attempts are the samples, split into
  successes and errors, each category is counted as often as it occurs and nothing else is,
  and the three latency summaries are those of all samples, of the successes, and of the
  successes that reported progress.
\<close>

theorem aggregate_accounts_for_samples:
  assumes "Attempts m = 0" and "Successes m = 0" and "Errors m = 0" and "ErrorCategories m = []"
  shows "Attempts (aggregateMeasurement m) = int (length (MSamples m))
    \<and> Successes (aggregateMeasurement m) + Errors (aggregateMeasurement m) = Attempts (aggregateMeasurement m)
    \<and> Errors (aggregateMeasurement m) = int (length (filter (\<lambda>s. ErrorCategory s \<noteq> []) (MSamples m)))
    \<and> (\<forall>k. k \<noteq> [] \<longrightarrow> count_of (ErrorCategories (aggregateMeasurement m)) k
        = int (length (filter (\<lambda>s. ErrorCategory s = k) (MSamples m))))
    \<and> CompletionLatencySeconds (aggregateMeasurement m) = latencySummary (map DurationSeconds (MSamples m))
    \<and> SuccessLatencySeconds (aggregateMeasurement m)
        = latencySummary (map DurationSeconds (filter (\<lambda>s. ErrorCategory s = []) (MSamples m)))
    \<and> FirstProgressLatencySeconds (aggregateMeasurement m)
        = latencySummary (map FirstProgressSeconds
            (filter (\<lambda>s. ErrorCategory s = [] \<and> 0 < ProgressUpdates s) (MSamples m)))"
proof -
  let ?ss = "MSamples m"
  have cnt: "count_of (fold bump (map ErrorCategory (bad ?ss)) []) k
      = int (length (filter (\<lambda>s. ErrorCategory s = k) ?ss))" if "k \<noteq> []" for k
  proof -
    have "filter (\<lambda>s. ErrorCategory s = k) (bad ?ss) = filter (\<lambda>s. ErrorCategory s = k) ?ss"
      using that by (auto simp: bad_def intro: filter_cong)
    then show ?thesis by (simp add: count_fold_bump filter_map comp_def) (simp add: count_of_def)
  qed
  have len: "int (length (good ?ss)) + int (length (bad ?ss)) = int (length ?ss)"
    using good_bad_length[of ?ss] by linarith
  show ?thesis
    using assms cnt len
    by (simp add: aggregateMeasurement_def aggregate_loop_eq Let_def)
      (simp add: good_def bad_def conj_commute)
qed

definition sample_sample :: "string \<Rightarrow> BenchmarkSample" where
  "sample_sample category = \<lparr>Worker = 0, Call = 0, DurationSeconds = 1, FirstProgressSeconds = 0,
     ProgressUpdates = 0, ErrorCategory = category, JSONRPCErrorCode = None\<rparr>"

definition sample_call :: call_env where
  "sample_call = \<lparr>cv_start = 1000, cv_end = 200001000, cv_progress = [], cv_err = None,
     cv_result = Some \<lparr>mr_is_error = False, mr_needs_input = False, mr_content = [TextContent ''text'']\<rparr>,
     cv_status = 200, cv_ctx = CtxAlive\<rparr>"

definition sample_worker :: worker_env where
  "sample_worker = \<lparr>we_connect = None, we_tools = Inr [ReadTool, StreamTool], we_stop = \<lambda>_ _. False,
     we_call = \<lambda>_ _. sample_call, we_close = (None, 405, CtxAlive)\<rparr>"

definition sample_phase :: phase_env where
  "sample_phase = \<lparr>ph_worker = \<lambda>_ _ _. sample_worker, ph_start = 1, ph_end = 2\<rparr>"

definition sample_measurement :: BenchmarkMeasurement where
  "sample_measurement = (benchmarkPhase sample_phase sample_config ''direct'' ReadTool 0 1)\<lparr>
     MSamples := [sample_sample [], sample_sample ''eof'']\<rparr>"

theorem aggregate_accounts_for_samples_witness:
  "count_of (ErrorCategories (aggregateMeasurement sample_measurement)) ''eof'' = 1
   \<and> Successes (aggregateMeasurement sample_measurement) + Errors (aggregateMeasurement sample_measurement)
     = Attempts (aggregateMeasurement sample_measurement)"
proof -
  have "Attempts sample_measurement = 0" "Successes sample_measurement = 0" "Errors sample_measurement = 0"
    "ErrorCategories sample_measurement = []"
    by (simp_all add: sample_measurement_def sample_phase_def benchmarkPhase_def phase_measurement_def target_of_def
        count_categories_def aggregateMeasurement_def aggregate_loop_eq bad_def good_def Let_def)
  from aggregate_accounts_for_samples[OF this] show ?thesis
    by (simp add: sample_measurement_def sample_sample_def)
qed

text \<open>
  C36. A call counts as a success exactly when it is one: the SDK returned a result without an
  error, not a tool error and not a request for input, with text only, and, for the streaming
  tool, exactly three notifications carrying this call's own token were handled, the first not
  before the call and at least 25 milliseconds before its end. A failure is recorded under one
  of eighteen fixed categories, so no error text reaches the report.
\<close>

theorem call_success_iff:
  assumes "\<forall>p \<in> set (cv_progress e). snd p \<noteq> 0"
  shows "(ErrorCategory (fst (bench_call tool worker call phase e w)) = [] \<longleftrightarrow>
      valid_result e \<and> (tool = StreamTool \<longrightarrow>
        (\<exists>first second third. own_progress (call_token phase worker call) (cv_progress e) = [first, second, third] \<and>
           cv_start e \<le> first \<and> 25000000 \<le> time_sub (cv_end e) first)))
    \<and> (ErrorCategory (fst (bench_call tool worker call phase e w)) = [] \<or>
       ErrorCategory (fst (bench_call tool worker call phase e w)) \<in> set call_categories)"
proof -
  let ?w0 = "w\<lparr>bw_token := [], bw_first := 0, bw_updates := 0\<rparr>"
  let ?tok = "call_token phase worker call"
  let ?own = "own_progress ?tok (cv_progress e)"
  have ok: "fst (classify e) = [] \<longleftrightarrow> valid_result e" by (rule classify_ok_iff)
  have "ErrorCategory (fst (bench_call tool worker call phase e w)) = [] \<longleftrightarrow>
      valid_result e \<and> (tool = StreamTool \<longrightarrow>
        (\<exists>first second third. ?own = [first, second, third] \<and>
           cv_start e \<le> first \<and> 25000000 \<le> time_sub (cv_end e) first))"
  proof (cases "tool = StreamTool")
    case False
    then show ?thesis using ok by (simp add: bench_call_def Let_def split_beta)
  next
    case True
    let ?w1 = "?w0\<lparr>bw_token := ?tok\<rparr>"
    have f: "fold (\<lambda>(token, now). progress_handler token now) (cv_progress e) ?w1 =
        ?w1\<lparr>bw_first := (case ?own of [] \<Rightarrow> 0 | t # _ \<Rightarrow> t), bw_updates := int (length ?own)\<rparr>"
      using progress_fold[of "cv_progress e" ?w1] assms by (simp add: call_token_ne)
    have nz: "\<forall>t \<in> set ?own. t \<noteq> 0" using assms by (auto simp: own_progress_def)
    have three: "length ?own = 3 \<longleftrightarrow> (\<exists>a b c. ?own = [a, b, c])"
      by (auto simp: numeral_3_eq_3 length_Suc_conv)
    show ?thesis
    proof (cases "\<exists>a b c. ?own = [a, b, c]")
      case True3: True
      then obtain a b c where own: "?own = [a, b, c]" by blast
      with nz have "a \<noteq> 0" by simp
      then show ?thesis using True ok f own by (simp add: bench_call_def Let_def split_beta not_less)
    next
      case False
      then have "length ?own \<noteq> 3" using three by blast
      then have "int (length ?own) \<noteq> 3" by simp
      then have "bw_updates (fold (\<lambda>(token, now). progress_handler token now) (cv_progress e) ?w1) \<noteq> 3"
        unfolding f by simp
      then have "ErrorCategory (fst (bench_call tool worker call phase e w)) \<noteq> []"
        using True by (simp add: bench_call_def Let_def split_beta)
      with False True show ?thesis by blast
    qed
  qed
  with bench_call_category_in[of tool worker call phase e w] show ?thesis by blast
qed

theorem call_success_iff_witness:
  "ErrorCategory (fst (bench_call ReadTool 0 0 ''measured'' sample_call new_worker)) = []"
proof -
  have "\<forall>p \<in> set (cv_progress sample_call). snd p \<noteq> 0" by (simp add: sample_call_def)
  moreover have "valid_result sample_call" by (simp add: valid_result_def sample_call_def bad_content_def)
  moreover have "ReadTool \<noteq> StreamTool" by (simp add: ReadTool_def StreamTool_def)
  ultimately show ?thesis using call_success_iff[of sample_call ReadTool 0 0 "''measured''" new_worker] by blast
qed

section \<open>The whole run\<close>

definition phase_of :: "(phase_id \<Rightarrow> phase_env) \<Rightarrow> BenchmarkConfig \<Rightarrow> phase_id \<Rightarrow> BenchmarkMeasurement" where
  "phase_of P c p = (case p of (target, tool, n, rep) \<Rightarrow> benchmarkPhase (P p) c target tool n rep)"

lemma aggregate_keys [simp]:
  "Target (aggregateMeasurement m) = Target m" "Tool (aggregateMeasurement m) = Tool m"
  "MConcurrency (aggregateMeasurement m) = MConcurrency m" "Repetition (aggregateMeasurement m) = Repetition m"
  by (simp_all add: aggregateMeasurement_def aggregate_loop_eq Let_def)

lemma phase_keys [simp]:
  "Target (phase_of P c (t, tool, n, rep)) = t" "Tool (phase_of P c (t, tool, n, rep)) = tool"
  "MConcurrency (phase_of P c (t, tool, n, rep)) = n" "Repetition (phase_of P c (t, tool, n, rep)) = rep"
  by (simp_all add: phase_of_def benchmarkPhase_def phase_measurement_def Let_def split_beta)

text \<open>
  What a worker has to do for its phase to be clean, and a clean phase: every worker finds the
  tool and closes its session without an error, none of its warm-up calls fails, and it makes
  every measured call of the configuration without an error, before the context is over.
\<close>

definition worker_clean :: "BenchmarkConfig \<Rightarrow> string \<Rightarrow> int \<Rightarrow> worker_env \<Rightarrow> bool" where
  "worker_clean c tool i e \<longleftrightarrow> setup_worker tool e = [] \<and> close_worker e = [] \<and>
     list_all (\<lambda>s. ErrorCategory s = []) (call_loop tool ''warmup'' i e (WarmupPerWorker c) 0 new_worker) \<and>
     list_all (\<lambda>s. ErrorCategory s = []) (call_loop tool ''measured'' i e (CallsPerWorker c) 0 new_worker) \<and>
     int (length (call_loop tool ''measured'' i e (CallsPerWorker c) 0 new_worker)) = CallsPerWorker c"

definition phase_clean :: "(phase_id \<Rightarrow> phase_env) \<Rightarrow> (phase_id \<Rightarrow> bool) \<Rightarrow> BenchmarkConfig \<Rightarrow> phase_id \<Rightarrow> bool" where
  "phase_clean P over c p \<longleftrightarrow> \<not> over p \<and>
     (case p of (target, tool, n, rep) \<Rightarrow>
        list_all (\<lambda>i. worker_clean c tool i
          (ph_worker (P p) (fst (target_of c target)) (snd (target_of c target)) i)) [0..n - 1])"

lemma count_fold_Nil:
  "fold (\<lambda>c m. if c \<noteq> [] then bump c m else m) cs m = [] \<longleftrightarrow> m = [] \<and> list_all (\<lambda>c. c = []) cs"
  by (induction cs arbitrary: m) auto

lemma count_categories_Nil: "count_categories cs = [] \<longleftrightarrow> list_all (\<lambda>c. c = []) cs"
  by (simp add: count_categories_def count_fold_Nil)

lemma call_loop_length:
  "call \<le> limit \<Longrightarrow> int (length (call_loop tool phase worker e limit call w)) \<le> limit - call"
proof (induction tool phase worker e limit call w rule: call_loop.induct)
  case (1 tool phase worker e limit call w)
  obtain s w1 where b: "bench_call tool worker call phase (we_call e phase call) w = (s, w1)" by fastforce
  show ?case using 1(1)[OF _ b[symmetric] refl] 1(2) by (subst call_loop.simps) (auto simp: b)
qed

lemma sum_reaches_bound:
  fixes f :: "'a \<Rightarrow> int"
  assumes "\<forall>x \<in> set xs. f x \<le> C"
  shows "sum_list (map f xs) = int (length xs) * C \<longleftrightarrow> list_all (\<lambda>x. f x = C) xs"
proof -
  have le: "sum_list (map f ys) \<le> int (length ys) * C" if "\<forall>x \<in> set ys. f x \<le> C" for ys
    using that by (induction ys) (auto simp: algebra_simps intro: add_mono)
  from assms show ?thesis
  proof (induction xs)
    case (Cons x xs)
    with le[of xs] have "f x \<le> C" "sum_list (map f xs) \<le> int (length xs) * C" by simp_all
    then have "f x + sum_list (map f xs) = C + int (length xs) * C \<longleftrightarrow>
        f x = C \<and> sum_list (map f xs) = int (length xs) * C" by linarith
    with Cons show ?case by (simp add: algebra_simps)
  qed simp
qed

lemma length_concat_int: "int (length (concat xss)) = sum_list (map (\<lambda>xs. int (length xs)) xss)"
  by (induction xss) simp_all

lemma measurement_failed_iff:
  "\<not> phase_failed (phase_measurement P c target tool n rep setups warmups samples closeErrors) \<longleftrightarrow>
    list_all (\<lambda>c. c = []) setups \<and> list_all (\<lambda>s. ErrorCategory s = []) (concat warmups) \<and>
    list_all (\<lambda>s. ErrorCategory s = []) (concat samples) \<and> list_all (\<lambda>c. c = []) closeErrors \<and>
    int (length (concat samples)) = n * CallsPerWorker c"
proof -
  have bad: "bad ss = [] \<longleftrightarrow> list_all (\<lambda>s. ErrorCategory s = []) ss" for ss
    by (simp add: bad_def filter_empty_conv list_all_iff)
  have cats: "list_all (\<lambda>c. c = []) (map ErrorCategory ss) \<longleftrightarrow> list_all (\<lambda>s. ErrorCategory s = []) ss" for ss
    by (simp add: list_all_iff)
  show ?thesis
    by (cases "count_categories setups = []")
      (auto simp: phase_failed_def phase_measurement_def aggregateMeasurement_def aggregate_loop_eq Let_def
        bad cats count_categories_Nil simp del: length_concat map_concat concat_eq_Nil_conv)
qed

lemma phase_failed_iff:
  assumes "0 \<le> n" and "0 \<le> CallsPerWorker c"
  shows "\<not> phase_failed (benchmarkPhase P c target tool n rep) \<longleftrightarrow>
    list_all (\<lambda>i. worker_clean c tool i (ph_worker P (fst (target_of c target)) (snd (target_of c target)) i)) [0..n - 1]"
proof -
  let ?env = "ph_worker P (fst (target_of c target)) (snd (target_of c target))"
  let ?run = "\<lambda>i. call_loop tool ''measured'' i (?env i) (CallsPerWorker c) 0 new_worker"
  have "int (length (?run i)) \<le> CallsPerWorker c" for i
    using call_loop_length[where call = 0 and limit = "CallsPerWorker c"] assms(2) by fastforce
  then have "sum_list (map (\<lambda>i. int (length (?run i))) [0..n - 1]) = n * CallsPerWorker c \<longleftrightarrow>
      list_all (\<lambda>i. int (length (?run i)) = CallsPerWorker c) [0..n - 1]"
    using sum_reaches_bound[of "[0..n - 1]" "\<lambda>i. int (length (?run i))" "CallsPerWorker c"] assms(1) by simp
  then have attempts: "int (length (concat (map ?run [0..n - 1]))) = n * CallsPerWorker c \<longleftrightarrow>
      list_all (\<lambda>i. int (length (?run i)) = CallsPerWorker c) [0..n - 1]"
    by (simp add: length_concat_int comp_def)
  have "\<not> phase_failed (benchmarkPhase P c target tool n rep) \<longleftrightarrow>
      list_all (\<lambda>c. c = []) (map (\<lambda>i. setup_worker tool (?env i)) [0..n - 1]) \<and>
      list_all (\<lambda>s. ErrorCategory s = [])
        (concat (map (\<lambda>i. call_loop tool ''warmup'' i (?env i) (WarmupPerWorker c) 0 new_worker) [0..n - 1])) \<and>
      list_all (\<lambda>s. ErrorCategory s = []) (concat (map ?run [0..n - 1])) \<and>
      list_all (\<lambda>c. c = []) (map (\<lambda>i. close_worker (?env i)) [0..n - 1]) \<and>
      list_all (\<lambda>i. int (length (?run i)) = CallsPerWorker c) [0..n - 1]"
    by (simp only: benchmarkPhase_def Let_def split_beta measurement_failed_iff attempts)
  then show ?thesis by (auto simp: list_all_iff worker_clean_def)
qed

lemma run_phases_successful:
  "Successful (run_phases P over c ps r) \<longleftrightarrow>
     Successful r \<and> list_all (\<lambda>p. \<not> phase_failed (phase_of P c p) \<and> \<not> over p) ps"
  by (induction P over c ps r rule: run_phases.induct) (auto simp: Let_def phase_of_def)

lemma run_phases_clean:
  "list_all (\<lambda>p. \<not> phase_failed (phase_of P c p) \<and> \<not> over p) ps \<Longrightarrow>
     run_phases P over c ps r = r\<lparr>Measurements := Measurements r @ map (phase_of P c) ps\<rparr>"
  by (induction P over c ps r rule: run_phases.induct) (auto simp: Let_def phase_of_def)

lemma schedule_clean:
  assumes "normalizeBenchmark parse config = Inr c"
  shows "list_all (\<lambda>p. \<not> phase_failed (phase_of P c p) \<and> \<not> over p) (schedule c) \<longleftrightarrow>
    list_all (phase_clean P over c) (schedule c)"
proof -
  have "0 \<le> n" if "(target, tool, n, rep) \<in> set (schedule c)" for target tool n rep
    using that assms unfolding normalize_iff by (fastforce simp: schedule_def)
  moreover have "0 \<le> CallsPerWorker c" using assms unfolding normalize_iff by linarith
  ultimately have "(\<not> phase_failed (phase_of P c p) \<and> \<not> over p) = phase_clean P over c p" if "p \<in> set (schedule c)" for p
    using that by (cases p) (auto simp: phase_clean_def phase_of_def phase_failed_iff)
  then show ?thesis unfolding list_all_iff by blast
qed

text \<open>
  C37. The benchmark returns nil exactly when all of it succeeded: the configuration is
  accepted; in every phase of the schedule every worker found the tool, made all its measured
  calls, had none of them and no warm-up call fail, and closed its session without an error; the
  context was alive after each phase; and the report, which holds these phases in order, could be
  written.
\<close>

theorem Benchmark_success_iff:
  "Benchmark parse P over encode config = (None, Some r) \<longleftrightarrow>
     (\<exists>c. normalizeBenchmark parse config = Inr c \<and> list_all (phase_clean P over c) (schedule c) \<and>
        r = \<lparr>Successful = True, RConfig = c, Measurements = map (phase_of P c) (schedule c),
             Overhead = benchmarkOverhead (map (phase_of P c) (schedule c))\<rparr> \<and> encode r = None)"
proof (cases "normalizeBenchmark parse config")
  case (Inl e)
  then show ?thesis by (simp add: Benchmark_def)
next
  case (Inr c)
  let ?r0 = "\<lparr>Successful = True, RConfig = c, Measurements = [], Overhead = []\<rparr>"
  let ?run = "run_phases P over c (schedule c) ?r0"
  note clean = schedule_clean[OF Inr, of P over]
  show ?thesis
  proof (cases "list_all (phase_clean P over c) (schedule c)")
    case True
    then have "?run = ?r0\<lparr>Measurements := map (phase_of P c) (schedule c)\<rparr>"
      by (simp add: run_phases_clean clean)
    then show ?thesis using Inr True by (auto simp: Benchmark_def Let_def split: option.splits)
  next
    case False
    then have "\<not> Successful ?run" by (simp add: run_phases_successful clean)
    then show ?thesis using Inr False by (auto simp: Benchmark_def Let_def split: option.splits)
  qed
qed

lemma concat_pick:
  "distinct xs \<Longrightarrow> a \<in> set xs \<Longrightarrow> (\<And>y. y \<in> set xs \<Longrightarrow> y \<noteq> a \<Longrightarrow> h y = []) \<Longrightarrow> concat (map h xs) = h a"
proof (induction xs)
  case (Cons x xs)
  show ?case
  proof (cases "x = a")
    case True
    with Cons.prems have "concat (map h xs) = []" by (auto simp: concat_eq_Nil_conv)
    with True show ?thesis by simp
  next
    case False
    with Cons.prems have "h x = []" "a \<in> set xs" by auto
    with Cons show ?thesis by simp
  qed
qed simp

text \<open>The tool, concurrency and repetition of each pair of phases.\<close>

definition phase_pairs :: "BenchmarkConfig \<Rightarrow> (string \<times> int \<times> int) list" where
  "phase_pairs c = concat (map (\<lambda>n. concat (map (\<lambda>tool. map (\<lambda>rep. (tool, n, rep))
     [1..Repetitions c]) [ReadTool, StreamTool])) (Concurrency c))"

lemma schedule_direct:
  "filter (\<lambda>p. fst p = ''direct'') (schedule c) = map (\<lambda>p. (''direct'', p)) (phase_pairs c)"
proof -
  have d: "filter (\<lambda>p. fst p = ''direct'') (map (\<lambda>target. (target, tool, n, rep)) (targets rep))
      = [(''direct'', tool, n, rep)]" for tool n rep
    by (simp add: targets_def)
  have one: "concat (map (\<lambda>x. [g x]) xs) = map g xs" for g :: "int \<Rightarrow> phase_id" and xs
    by (induction xs) simp_all
  show ?thesis by (simp add: schedule_def phase_pairs_def filter_concat map_concat comp_def d one)
qed

lemma tools_distinct: "distinct [ReadTool, StreamTool]"
  by (simp add: ReadTool_def StreamTool_def)

lemma schedule_gateway:
  assumes "distinct (Concurrency c)" and "(tool, n, rep) \<in> set (phase_pairs c)"
  shows "filter (\<lambda>p. p = (''gateway'', tool, n, rep)) (schedule c) = [(''gateway'', tool, n, rep)]"
proof -
  have m: "n \<in> set (Concurrency c)" "tool \<in> set [ReadTool, StreamTool]" "rep \<in> set [1..Repetitions c]"
    using assms(2) by (auto simp: phase_pairs_def)
  let ?t = "\<lambda>n' tool' rep'. filter (\<lambda>p. p = (''gateway'', tool, n, rep))
      (map (\<lambda>target. (target, tool', n', rep')) (targets rep'))"
  have t: "?t n' tool' rep' = (if n' = n \<and> tool' = tool \<and> rep' = rep then [(''gateway'', tool, n, rep)] else [])"
    for n' tool' rep' by (auto simp: targets_def)
  have r: "concat (map (?t n tool) [1..Repetitions c]) = [(''gateway'', tool, n, rep)]"
    using concat_pick[OF distinct_upto m(3), of "?t n tool"] by (simp add: t)
  have tl: "concat (map (\<lambda>tool'. concat (map (?t n tool') [1..Repetitions c])) [ReadTool, StreamTool])
      = [(''gateway'', tool, n, rep)]"
    using concat_pick[OF tools_distinct m(2), of "\<lambda>tool'. concat (map (?t n tool') [1..Repetitions c])"]
    by (simp only: r) (simp add: t)
  have "concat (map (\<lambda>n'. concat (map (\<lambda>tool'. concat (map (?t n' tool') [1..Repetitions c]))
      [ReadTool, StreamTool])) (Concurrency c)) = [(''gateway'', tool, n, rep)]"
    using concat_pick[OF assms(1) m(1), of "\<lambda>n'. concat (map (\<lambda>tool'. concat (map (?t n' tool')
      [1..Repetitions c])) [ReadTool, StreamTool])"]
    by (simp only: tl) (simp add: t)
  then show ?thesis by (simp add: schedule_def filter_concat map_concat comp_def)
qed

lemma overhead_loop_eq:
  assumes "\<And>p. p \<in> set ps \<Longrightarrow> Target (f p) = fst p"
  shows "overhead_loop all (map f ps) = concat (map (\<lambda>p. map (overhead_of (f p)) (filter (pairs_with (f p)) all))
      (filter (\<lambda>p. fst p = ''direct'') ps))"
  using assms by (induction ps) auto

text \<open>
  A successful report compares like with like: for an accepted configuration the overhead
  has exactly one entry for every tool, concurrency and repetition, in the order of the
  schedule, and each sets the gateway phase of that combination against the direct one,
  whichever of the two ran first.
\<close>

theorem overhead_one_per_pair:
  assumes "normalizeBenchmark parse config = Inr c"
  shows "benchmarkOverhead (map (phase_of P c) (schedule c))
    = map (\<lambda>p. overhead_of (phase_of P c (''direct'', p)) (phase_of P c (''gateway'', p))) (phase_pairs c)"
proof -
  let ?ms = "map (phase_of P c) (schedule c)"
  have dist: "distinct (Concurrency c)" using normalizeBenchmark_bounded[OF assms] by blast
  have pair: "filter (pairs_with (phase_of P c (''direct'', p))) ?ms = [phase_of P c (''gateway'', p)]"
    if "p \<in> set (phase_pairs c)" for p
  proof -
    obtain tool n rep where p: "p = (tool, n, rep)" by (metis prod_cases3)
    have "pairs_with (phase_of P c (''direct'', p)) (phase_of P c x) \<longleftrightarrow> x = (''gateway'', tool, n, rep)" for x
      by (cases x) (auto simp: pairs_with_def p)
    then have "filter (pairs_with (phase_of P c (''direct'', p))) ?ms
        = map (phase_of P c) (filter (\<lambda>x. x = (''gateway'', tool, n, rep)) (schedule c))"
      by (simp add: filter_map comp_def)
    with schedule_gateway[OF dist that[unfolded p]] show ?thesis by (simp add: p)
  qed
  have "benchmarkOverhead ?ms = concat (map (\<lambda>p. map (overhead_of (phase_of P c p)) (filter (pairs_with (phase_of P c p)) ?ms))
      (filter (\<lambda>p. fst p = ''direct'') (schedule c)))"
    unfolding benchmarkOverhead_def by (rule overhead_loop_eq) (auto split: prod.splits)
  also have "\<dots> = concat (map (\<lambda>p. [overhead_of (phase_of P c (''direct'', p)) (phase_of P c (''gateway'', p))]) (phase_pairs c))"
    unfolding schedule_direct map_map comp_def by (intro arg_cong[of _ _ concat] map_cong refl) (simp add: pair)
  also have "\<dots> = map (\<lambda>p. overhead_of (phase_of P c (''direct'', p)) (phase_of P c (''gateway'', p))) (phase_pairs c)"
    by (induction "phase_pairs c") simp_all
  finally show ?thesis .
qed

theorem overhead_one_per_pair_witness:
  "length (benchmarkOverhead (map (phase_of (\<lambda>_. sample_phase) (with_defaults sample_config))
     (schedule (with_defaults sample_config)))) = 12"
proof -
  have "length (phase_pairs (with_defaults sample_config)) = 12" by code_simp
  with overhead_one_per_pair[OF sample_normalized, of "\<lambda>_. sample_phase"] show ?thesis by simp
qed

end
