(* ===== verification/Transport.thy ===== *)
theory Transport
  imports Benchmark
begin

text \<open>
  The status-capturing transport of the benchmark (\<^verbatim>\<open>statusTransport\<close> and
  \<^verbatim>\<open>benchmarkBody\<close> in \<^verbatim>\<open>internal/democlient/benchmark.go\<close>) as a state machine: every
  request gets a context of its own, a callback on the phase's context that cancels it, and a
  response body whose closing undoes both. The steps of the goroutines interleave freely: the
  requests of a worker, the callbacks, the end of the phase's context.
\<close>

section \<open>States and steps\<close>

datatype exchange_phase = InFlight | BodyOpen | Finished

text \<open>
  \<open>ex_cancelled\<close>: the request's own context is cancelled; \<open>ex_registered\<close>: the callback of
  \<^verbatim>\<open>context.AfterFunc\<close> has neither run nor been stopped.
\<close>

record exchange =
  ex_phase :: exchange_phase
  ex_cancelled :: bool
  ex_registered :: bool

record statusTransport =
  tp_done :: bool
  tp_status :: int32
  tp_exchanges :: "exchange list"

definition new_transport :: "bool \<Rightarrow> statusTransport" where
  "new_transport over = \<lparr>tp_done = over, tp_status = 0, tp_exchanges = []\<rparr>"

text \<open>\<^verbatim>\<open>RoundTrip\<close> up to the call of the base transport.\<close>

definition begin_exchange :: "statusTransport \<Rightarrow> statusTransport" where
  "begin_exchange t =
     t\<lparr>tp_exchanges := tp_exchanges t @
       [\<lparr>ex_phase = InFlight, ex_cancelled = tp_done t, ex_registered = True\<rparr>]\<rparr>"

definition store_status :: "int option \<Rightarrow> statusTransport \<Rightarrow> statusTransport" where
  "store_status code t = (case code of None \<Rightarrow> t | Some c \<Rightarrow> t\<lparr>tp_status := word_of_int c\<rparr>)"

text \<open>\<^verbatim>\<open>stop()\<close> and \<^verbatim>\<open>cancel()\<close>.\<close>

definition release_exchange :: "exchange \<Rightarrow> exchange" where
  "release_exchange x = x\<lparr>ex_phase := Finished, ex_registered := False, ex_cancelled := True\<rparr>"

definition on_exchange :: "nat \<Rightarrow> (exchange \<Rightarrow> exchange) \<Rightarrow> statusTransport \<Rightarrow> statusTransport" where
  "on_exchange i f t = t\<lparr>tp_exchanges := (tp_exchanges t)[i := f (tp_exchanges t ! i)]\<rparr>"

text \<open>
  The base transport returned: with an error, and perhaps a response, the request is released;
  otherwise its body is handed out.
\<close>

definition end_round_trip :: "nat \<Rightarrow> int option \<Rightarrow> bool \<Rightarrow> statusTransport \<Rightarrow> statusTransport" where
  "end_round_trip i code failed t =
     (let t1 = store_status code t in
      if failed then on_exchange i release_exchange t1
      else on_exchange i (\<lambda>x. x\<lparr>ex_phase := BodyOpen\<rparr>) t1)"

datatype transport_event =
    BeginExchange
  | EndRoundTrip nat "int option" bool
  | CloseBody nat
  | ContextDone
  | CallbackRuns nat
  | RequestCancelled nat
  | ResetStatus

inductive transport_step :: "transport_event \<Rightarrow> statusTransport \<Rightarrow> statusTransport \<Rightarrow> bool" where
  begins: "transport_step BeginExchange t (begin_exchange t)"
| returns: "i < length (tp_exchanges t) \<Longrightarrow> ex_phase (tp_exchanges t ! i) = InFlight \<Longrightarrow>
     failed \<or> code \<noteq> None \<Longrightarrow> transport_step (EndRoundTrip i code failed) t (end_round_trip i code failed t)"
| closes: "i < length (tp_exchanges t) \<Longrightarrow> ex_phase (tp_exchanges t ! i) \<noteq> InFlight \<Longrightarrow>
     transport_step (CloseBody i) t (on_exchange i release_exchange t)"
| over: "transport_step ContextDone t (t\<lparr>tp_done := True\<rparr>)"
| callback: "i < length (tp_exchanges t) \<Longrightarrow> tp_done t \<Longrightarrow> ex_registered (tp_exchanges t ! i) \<Longrightarrow>
     transport_step (CallbackRuns i) t (on_exchange i (\<lambda>x. x\<lparr>ex_registered := False, ex_cancelled := True\<rparr>) t)"
| cancelled: "i < length (tp_exchanges t) \<Longrightarrow>
     transport_step (RequestCancelled i) t (on_exchange i (\<lambda>x. x\<lparr>ex_cancelled := True\<rparr>) t)"
| reset: "transport_step ResetStatus t (t\<lparr>tp_status := 0\<rparr>)"

inductive transport_run :: "transport_event list \<Rightarrow> statusTransport \<Rightarrow> statusTransport \<Rightarrow> bool" where
  start: "transport_run [] t t"
| snoc: "transport_run evs t u \<Longrightarrow> transport_step ev u v \<Longrightarrow> transport_run (evs @ [ev]) t v"

inductive_cases transport_stepE:
  "transport_step BeginExchange t u" "transport_step (EndRoundTrip i code failed) t u"
  "transport_step (CloseBody i) t u" "transport_step ContextDone t u" "transport_step (CallbackRuns i) t u"
  "transport_step (RequestCancelled i) t u" "transport_step ResetStatus t u"

inductive_simps transport_run_Nil: "transport_run [] t u"

lemmas transport_defs = begin_exchange_def store_status_def on_exchange_def end_round_trip_def new_transport_def

section \<open>The invariant\<close>

definition exchange_ok :: "bool \<Rightarrow> exchange \<Rightarrow> bool" where
  "exchange_ok over x \<longleftrightarrow>
     (ex_phase x = Finished \<longrightarrow> ex_cancelled x \<and> \<not> ex_registered x) \<and>
     (ex_phase x \<noteq> Finished \<longrightarrow> ex_registered x \<or> over \<and> ex_cancelled x)"

definition transport_ok :: "statusTransport \<Rightarrow> bool" where
  "transport_ok t \<longleftrightarrow> list_all (exchange_ok (tp_done t)) (tp_exchanges t)"

lemma transport_ok_on_exchange:
  "transport_ok t \<Longrightarrow> i < length (tp_exchanges t) \<Longrightarrow> exchange_ok (tp_done t) (f (tp_exchanges t ! i)) \<Longrightarrow>
     transport_ok (on_exchange i f t)"
  by (auto simp: transport_ok_def on_exchange_def list_all_iff dest!: set_update_subset_insert[THEN subsetD])

lemma exchange_ok_release: "exchange_ok over (release_exchange x)"
  by (simp add: exchange_ok_def release_exchange_def)

lemma transport_step_ok: "transport_step ev t u \<Longrightarrow> transport_ok t \<Longrightarrow> transport_ok u"
proof (induction rule: transport_step.induct)
  case (begins t)
  then show ?case by (simp add: transport_ok_def begin_exchange_def exchange_ok_def)
next
  case (returns i t failed code)
  have "transport_ok (store_status code t)" "tp_exchanges (store_status code t) = tp_exchanges t"
    using returns(4) by (simp_all add: store_status_def transport_ok_def split: option.split)
  moreover have "exchange_ok (tp_done t) ((tp_exchanges t ! i)\<lparr>ex_phase := BodyOpen\<rparr>)"
    using returns(1,2,4) by (simp add: transport_ok_def list_all_length exchange_ok_def)
  moreover have "tp_done (store_status code t) = tp_done t" by (simp add: store_status_def split: option.split)
  ultimately show ?case
    using returns(1) by (auto simp: end_round_trip_def Let_def intro!: transport_ok_on_exchange exchange_ok_release)
next
  case (closes i t)
  then show ?case by (intro transport_ok_on_exchange exchange_ok_release)
next
  case (over t)
  then show ?case by (auto simp: transport_ok_def exchange_ok_def list_all_iff)
next
  case (callback i t)
  then have "ex_phase (tp_exchanges t ! i) \<noteq> Finished" by (auto simp: transport_ok_def list_all_length exchange_ok_def)
  with callback show ?case by (intro transport_ok_on_exchange) (simp_all add: exchange_ok_def)
next
  case (cancelled i t)
  then show ?case
    by (intro transport_ok_on_exchange) (auto simp: exchange_ok_def transport_ok_def list_all_length)
next
  case (reset t)
  then show ?case by (simp add: transport_ok_def)
qed

lemma transport_run_ok: "transport_run evs t u \<Longrightarrow> transport_ok t \<Longrightarrow> transport_ok u"
  by (induction rule: transport_run.induct) (auto intro: transport_step_ok)

lemma new_transport_ok: "transport_ok (new_transport over)"
  by (simp add: transport_ok_def new_transport_def)

text \<open>While the phase's context lives, an open exchange is cancelled only by its own request.\<close>

definition spared :: "transport_event list \<Rightarrow> statusTransport \<Rightarrow> bool" where
  "spared evs t \<longleftrightarrow> (\<forall>i < length (tp_exchanges t). \<not> tp_done t \<and> ex_phase (tp_exchanges t ! i) \<noteq> Finished \<and>
     ex_cancelled (tp_exchanges t ! i) \<longrightarrow> RequestCancelled i \<in> set evs)"

lemma spared_step: "transport_step ev t u \<Longrightarrow> spared evs t \<Longrightarrow> spared (evs @ [ev]) u"
proof (induction rule: transport_step.induct)
  case (returns i t failed code)
  then show ?case
    by (auto simp: spared_def end_round_trip_def Let_def on_exchange_def store_status_def release_exchange_def
        nth_list_update split: option.splits)
qed (auto simp: spared_def begin_exchange_def on_exchange_def release_exchange_def nth_list_update nth_append less_Suc_eq)

lemma run_spared: "transport_run evs t u \<Longrightarrow> spared [] t \<Longrightarrow> spared evs u"
  by (induction rule: transport_run.induct) (simp_all add: spared_step)

text \<open>
  C31. The transport leaks nothing and loses no cancellation. In every reachable state a finished
  exchange has its context cancelled and its callback gone; an exchange that is not finished
  still has its callback, unless the phase's context is done and the callback has cancelled it;
  and as long as the phase's context lives, it has its callback and is cancelled only if its own
  request was.
\<close>

theorem transport_releases:
  assumes "transport_run evs (new_transport over) u" and "i < length (tp_exchanges u)"
  shows "if ex_phase (tp_exchanges u ! i) = Finished
    then ex_cancelled (tp_exchanges u ! i) \<and> \<not> ex_registered (tp_exchanges u ! i)
    else if tp_done u then ex_registered (tp_exchanges u ! i) \<or> ex_cancelled (tp_exchanges u ! i)
    else ex_registered (tp_exchanges u ! i) \<and>
      (ex_cancelled (tp_exchanges u ! i) \<longrightarrow> RequestCancelled i \<in> set evs)"
proof -
  have "exchange_ok (tp_done u) (tp_exchanges u ! i)"
    using transport_run_ok[OF assms(1) new_transport_ok] assms(2) by (simp add: transport_ok_def list_all_length)
  moreover have "spared evs u" using run_spared[OF assms(1)] by (simp add: spared_def new_transport_def)
  ultimately show ?thesis using assms(2) by (auto simp: exchange_ok_def spared_def)
qed

text \<open>Running every pending callback.\<close>

definition pending :: "statusTransport \<Rightarrow> nat list" where
  "pending t = filter (\<lambda>i. ex_registered (tp_exchanges t ! i)) [0..<length (tp_exchanges t)]"

lemma callback_run:
  assumes "tp_done t" and "sorted_wrt (<) is" and "\<forall>i \<in> set is. i < length (tp_exchanges t) \<and> ex_registered (tp_exchanges t ! i)"
  shows "\<exists>u. transport_run (map CallbackRuns is) t u \<and> tp_done u \<and> length (tp_exchanges u) = length (tp_exchanges t) \<and>
    (\<forall>i < length (tp_exchanges t). tp_exchanges u ! i =
       (if i \<in> set is then (tp_exchanges t ! i)\<lparr>ex_registered := False, ex_cancelled := True\<rparr> else tp_exchanges t ! i))"
  using assms
proof (induction "is" rule: rev_induct)
  case Nil
  then show ?case by (intro exI[of _ t]) (auto intro: transport_run.start)
next
  case (snoc k ks)
  then obtain u where u: "transport_run (map CallbackRuns ks) t u" "tp_done u"
    "length (tp_exchanges u) = length (tp_exchanges t)"
    "\<And>i. i < length (tp_exchanges t) \<Longrightarrow> tp_exchanges u ! i =
       (if i \<in> set ks then (tp_exchanges t ! i)\<lparr>ex_registered := False, ex_cancelled := True\<rparr> else tp_exchanges t ! i)"
    by (auto simp: sorted_wrt_append)
  have k: "k \<notin> set ks" "k < length (tp_exchanges t)" "ex_registered (tp_exchanges t ! k)"
    using snoc.prems by (auto simp: sorted_wrt_append)
  let ?v = "on_exchange k (\<lambda>x. x\<lparr>ex_registered := False, ex_cancelled := True\<rparr>) u"
  have "transport_step (CallbackRuns k) u ?v" using k u by (intro transport_step.callback) simp_all
  with u(1) have "transport_run (map CallbackRuns (ks @ [k])) t ?v" by (auto intro: transport_run.snoc)
  moreover have "tp_done ?v" "length (tp_exchanges ?v) = length (tp_exchanges t)"
    using u by (simp_all add: on_exchange_def)
  moreover have "tp_exchanges ?v ! i = (if i \<in> set (ks @ [k])
      then (tp_exchanges t ! i)\<lparr>ex_registered := False, ex_cancelled := True\<rparr> else tp_exchanges t ! i)"
    if "i < length (tp_exchanges t)" for i
    using that u(3,4) k by (simp add: on_exchange_def nth_list_update)
  ultimately show ?case by blast
qed

text \<open>
  C32. The end of the phase reaches every exchange: from any reachable state in which the phase's
  context is done, the callbacks that are pending can run, and after them every exchange is
  cancelled; an exchange that begins in such a state is cancelled from its start.
\<close>

theorem cancellation_delivered:
  assumes "transport_run evs (new_transport over) t" and "tp_done t"
  shows "\<exists>u. transport_run (map CallbackRuns (pending t)) t u \<and> list_all ex_cancelled (tp_exchanges u) \<and>
      ex_cancelled (last (tp_exchanges (begin_exchange u)))"
proof -
  have ok: "\<forall>i < length (tp_exchanges t). exchange_ok True (tp_exchanges t ! i)"
    using transport_run_ok[OF assms(1) new_transport_ok] assms(2) by (simp add: transport_ok_def list_all_length)
  have sorted: "sorted_wrt (<) (pending t)" by (simp add: pending_def sorted_wrt_filter)
  have mem: "\<forall>i \<in> set (pending t). i < length (tp_exchanges t) \<and> ex_registered (tp_exchanges t ! i)"
    by (simp add: pending_def)
  from callback_run[OF assms(2) sorted mem] obtain u where
    u: "transport_run (map CallbackRuns (pending t)) t u" "tp_done u" "length (tp_exchanges u) = length (tp_exchanges t)"
      "\<forall>i < length (tp_exchanges t). tp_exchanges u ! i = (if i \<in> set (pending t)
        then (tp_exchanges t ! i)\<lparr>ex_registered := False, ex_cancelled := True\<rparr> else tp_exchanges t ! i)" by blast
  have "ex_cancelled (tp_exchanges u ! i)" if i: "i < length (tp_exchanges t)" for i
  proof (cases "ex_registered (tp_exchanges t ! i)")
    case True
    then have "i \<in> set (pending t)" using i by (simp add: pending_def)
    with u(4) i show ?thesis by simp
  next
    case False
    then have "i \<notin> set (pending t)" by (simp add: pending_def)
    with u(4) i False ok show ?thesis by (cases "ex_phase (tp_exchanges t ! i)") (auto simp: exchange_ok_def)
  qed
  then have "list_all ex_cancelled (tp_exchanges u)" using u(3) by (simp add: list_all_length)
  with u(1,2) show ?thesis by (auto simp: begin_exchange_def)
qed

section \<open>The captured status\<close>

fun response_codes :: "transport_event list \<Rightarrow> int list" where
  "response_codes [] = []"
| "response_codes (EndRoundTrip i (Some c) failed # evs) = c # response_codes evs"
| "response_codes (_ # evs) = response_codes evs"

lemma response_codes_append [simp]: "response_codes (xs @ ys) = response_codes xs @ response_codes ys"
  by (induction xs rule: response_codes.induct) simp_all





section \<open>A sample run\<close>

definition sample_events :: "transport_event list" where
  "sample_events = [ResetStatus, BeginExchange, EndRoundTrip 0 (Some 401) False, ContextDone]"

definition sample_end :: statusTransport where
  "sample_end = \<lparr>tp_done = True, tp_status = 401,
     tp_exchanges = [\<lparr>ex_phase = BodyOpen, ex_cancelled = False, ex_registered = True\<rparr>]\<rparr>"

lemma sample_run: "transport_run sample_events (new_transport False) sample_end"
proof -
  let ?t0 = "new_transport False"
  let ?t1 = "?t0\<lparr>tp_status := 0\<rparr>"
  have 1: "transport_run [ResetStatus] ?t0 ?t1"
    using transport_run.snoc[OF transport_run.start transport_step.reset] by simp
  have 2: "transport_run [ResetStatus, BeginExchange] ?t0 (begin_exchange ?t1)"
    using transport_run.snoc[OF 1 transport_step.begins] by simp
  have "transport_step (EndRoundTrip 0 (Some 401) False) (begin_exchange ?t1) (end_round_trip 0 (Some 401) False (begin_exchange ?t1))"
    by (rule transport_step.returns) (simp_all add: transport_defs)
  from transport_run.snoc[OF transport_run.snoc[OF 2 this] transport_step.over]
  show ?thesis by (simp add: sample_events_def sample_end_def transport_defs Let_def)
qed

text \<open>One exchange is finished, of the two open ones one has been cancelled by the context.\<close>

definition live_events :: "transport_event list" where
  "live_events = [BeginExchange, BeginExchange, BeginExchange, EndRoundTrip 0 (Some 200) False, CloseBody 0]"

definition live_end :: statusTransport where
  "live_end = \<lparr>tp_done = False, tp_status = 200,
     tp_exchanges = [\<lparr>ex_phase = Finished, ex_cancelled = True, ex_registered = False\<rparr>,
       \<lparr>ex_phase = InFlight, ex_cancelled = False, ex_registered = True\<rparr>,
       \<lparr>ex_phase = InFlight, ex_cancelled = False, ex_registered = True\<rparr>]\<rparr>"

definition done_end :: statusTransport where
  "done_end = \<lparr>tp_done = True, tp_status = 200,
     tp_exchanges = [\<lparr>ex_phase = Finished, ex_cancelled = True, ex_registered = False\<rparr>,
       \<lparr>ex_phase = InFlight, ex_cancelled = True, ex_registered = False\<rparr>,
       \<lparr>ex_phase = InFlight, ex_cancelled = False, ex_registered = True\<rparr>]\<rparr>"

lemma live_run: "transport_run live_events (new_transport False) live_end"
proof -
  let ?t = "begin_exchange (begin_exchange (begin_exchange (new_transport False)))"
  let ?u = "end_round_trip 0 (Some 200) False ?t"
  have 1: "transport_run [BeginExchange, BeginExchange, BeginExchange] (new_transport False) ?t"
    using transport_run.snoc[OF transport_run.snoc[OF transport_run.snoc[OF transport_run.start
      transport_step.begins] transport_step.begins] transport_step.begins] by simp
  have 2: "transport_step (EndRoundTrip 0 (Some 200) False) ?t ?u"
    by (rule transport_step.returns) (simp_all add: transport_defs)
  have 3: "transport_step (CloseBody 0) ?u (on_exchange 0 release_exchange ?u)"
    by (rule transport_step.closes) (simp_all add: transport_defs Let_def)
  from transport_run.snoc[OF transport_run.snoc[OF 1 2] 3]
  show ?thesis by (simp add: live_events_def live_end_def release_exchange_def transport_defs Let_def)
qed

lemma done_run: "transport_run (live_events @ [ContextDone, CallbackRuns 1]) (new_transport False) done_end"
proof -
  let ?t = "live_end\<lparr>tp_done := True\<rparr>"
  have "transport_step (CallbackRuns 1) ?t (on_exchange 1 (\<lambda>x. x\<lparr>ex_registered := False, ex_cancelled := True\<rparr>) ?t)"
    by (rule transport_step.callback) (simp_all add: live_end_def)
  from transport_run.snoc[OF transport_run.snoc[OF live_run transport_step.over] this]
  show ?thesis by (simp add: live_end_def done_end_def on_exchange_def)
qed

theorem transport_releases_witness:
  "ex_cancelled (tp_exchanges done_end ! 0) \<and> \<not> ex_registered (tp_exchanges done_end ! 0) \<and>
   (ex_registered (tp_exchanges done_end ! 1) \<or> ex_cancelled (tp_exchanges done_end ! 1)) \<and>
   ex_registered (tp_exchanges live_end ! 1) \<and> \<not> ex_cancelled (tp_exchanges live_end ! 1)"
proof -
  have "RequestCancelled 1 \<notin> set live_events" by (simp add: live_events_def)
  then show ?thesis
    using transport_releases[OF done_run, of 0] transport_releases[OF done_run, of 1] transport_releases[OF live_run, of 1]
    by (simp add: done_end_def live_end_def)
qed

theorem cancellation_delivered_witness:
  "\<exists>u. transport_run [CallbackRuns 0] sample_end u \<and> list_all ex_cancelled (tp_exchanges u)"
proof -
  have "tp_done sample_end" "pending sample_end = [0]" by (simp_all add: sample_end_def pending_def)
  with cancellation_delivered[OF sample_run] show ?thesis by auto
qed


end
