(* ===== verification/Parallel.thy ===== *)
theory Parallel
  imports Benchmark
begin

text \<open>
  \<^verbatim>\<open>parallelWorkers\<close> of \<^verbatim>\<open>internal/democlient/benchmark.go\<close>: goroutines that wait on one
  channel until all of them exist, and a \<^verbatim>\<open>WaitGroup\<close> that the caller waits on. The model is a
  step relation over the caller and its goroutines, in any order. An action is given by its
  steps, \<open>act i x\<close> being the next content of the slot \<open>x\<close> that worker \<open>i\<close> owns, or \<open>None\<close> when
  the action returns. The closures of \<open>benchmarkPhase\<close> are such actions, and the results show
  that its maps over the workers are what every schedule computes.
\<close>

section \<open>The caller and its goroutines\<close>

text \<open>A goroutine before \<^verbatim>\<open><-start\<close>, in its action, and after \<^verbatim>\<open>wg.Done\<close>.\<close>

datatype goroutine = Blocked | Running | Finished

text \<open>The caller in the loop before iteration \<open>k\<close>, in \<^verbatim>\<open>wg.Wait\<close>, and after it.\<close>

datatype caller = Spawning nat | Waiting | CallReturned

record 'a parallel =
  pw_caller :: caller
  pw_closed :: bool
  pw_count :: int
  pw_workers :: "goroutine list"
  pw_slots :: "'a list"

type_synonym 'a action = "nat \<Rightarrow> 'a \<Rightarrow> 'a option"

definition caller_next :: "nat \<Rightarrow> 'a parallel \<Rightarrow> 'a parallel option" where
  "caller_next num st =
     (case pw_caller st of
        Spawning k \<Rightarrow>
          if k < num then
            Some (st\<lparr>pw_count := pw_count st + 1, pw_workers := pw_workers st @ [Blocked],
              pw_caller := Spawning (k + 1)\<rparr>)
          else Some (st\<lparr>pw_closed := True, pw_caller := Waiting\<rparr>)
      | Waiting \<Rightarrow> if pw_count st = 0 then Some (st\<lparr>pw_caller := CallReturned\<rparr>) else None
      | CallReturned \<Rightarrow> None)"

definition worker_next :: "'a action \<Rightarrow> nat \<Rightarrow> 'a parallel \<Rightarrow> 'a parallel option" where
  "worker_next act i st =
     (if i < length (pw_workers st) then
        (case pw_workers st ! i of
           Blocked \<Rightarrow> if pw_closed st then Some (st\<lparr>pw_workers := (pw_workers st)[i := Running]\<rparr>) else None
         | Running \<Rightarrow>
             (case act i (pw_slots st ! i) of
                Some x \<Rightarrow> Some (st\<lparr>pw_slots := (pw_slots st)[i := x]\<rparr>)
              | None \<Rightarrow> Some (st\<lparr>pw_workers := (pw_workers st)[i := Finished], pw_count := pw_count st - 1\<rparr>))
         | Finished \<Rightarrow> None)
      else None)"

inductive par_step :: "'a action \<Rightarrow> nat \<Rightarrow> 'a parallel \<Rightarrow> 'a parallel \<Rightarrow> bool" for act num where
  caller: "caller_next num st = Some st' \<Longrightarrow> par_step act num st st'"
| worker: "worker_next act i st = Some st' \<Longrightarrow> par_step act num st st'"

inductive_cases par_stepE: "par_step act num st st'"

definition parallelWorkers :: "'a list \<Rightarrow> 'a parallel" where
  "parallelWorkers slots = \<lparr>pw_caller = Spawning 0, pw_closed = False, pw_count = 0, pw_workers = [],
     pw_slots = slots\<rparr>"

text \<open>A schedule: \<open>None\<close> is a step of the caller, \<open>Some i\<close> one of worker \<open>i\<close>.\<close>

fun par_run :: "'a action \<Rightarrow> nat \<Rightarrow> nat option list \<Rightarrow> 'a parallel \<Rightarrow> 'a parallel option" where
  "par_run act num [] st = Some st"
| "par_run act num (None # cs) st = Option.bind (caller_next num st) (par_run act num cs)"
| "par_run act num (Some i # cs) st = Option.bind (worker_next act i st) (par_run act num cs)"

lemma par_run_steps: "par_run act num cs st = Some st' \<Longrightarrow> (par_step act num ^^ length cs) st st'"
proof (induction act num cs st rule: par_run.induct)
  case (2 act num cs st)
  then show ?case
    by (cases "caller_next num st") (auto simp del: relpowp.simps intro: par_step.caller relpowp_Suc_I2)
next
  case (3 act num i cs st)
  then show ?case
    by (cases "worker_next act i st") (auto simp del: relpowp.simps intro: par_step.worker relpowp_Suc_I2)
qed simp

section \<open>The barrier\<close>

definition barrier_inv :: "nat \<Rightarrow> 'a list \<Rightarrow> 'a parallel \<Rightarrow> bool" where
  "barrier_inv num slots st \<longleftrightarrow>
     length (pw_slots st) = length slots \<and>
     pw_count st = int (length (filter (\<lambda>w. w \<noteq> Finished) (pw_workers st))) \<and>
     (case pw_caller st of
        Spawning k \<Rightarrow> k \<le> num \<and> \<not> pw_closed st \<and> pw_workers st = replicate k Blocked \<and> pw_slots st = slots
      | Waiting \<Rightarrow> pw_closed st \<and> length (pw_workers st) = num
      | CallReturned \<Rightarrow> pw_closed st \<and> pw_workers st = replicate num Finished)"

lemma barrier_init: "barrier_inv num slots (parallelWorkers slots)"
  by (simp add: barrier_inv_def parallelWorkers_def)

lemma caller_barrier: "barrier_inv num slots st \<Longrightarrow> caller_next num st = Some st' \<Longrightarrow> barrier_inv num slots st'"
  by (auto simp: barrier_inv_def caller_next_def replicate_append_same filter_empty_conv
      split: caller.splits if_splits intro: replicate_eqI)

lemma pending_update:
  "i < length ws \<Longrightarrow> length (filter P (ws[i := w])) + (if P (ws ! i) then 1 else 0)
     = length (filter P ws) + (if P w then 1 else 0)"
proof (induction ws arbitrary: i)
  case (Cons v ws)
  then show ?case using Cons.IH[of "i - 1"] by (cases i) auto
qed simp

lemma worker_barrier: "barrier_inv num slots st \<Longrightarrow> worker_next act i st = Some st' \<Longrightarrow> barrier_inv num slots st'"
  using pending_update[of i "pw_workers st" "\<lambda>w. w \<noteq> Finished" Running]
    pending_update[of i "pw_workers st" "\<lambda>w. w \<noteq> Finished" Finished]
  by (auto simp: barrier_inv_def worker_next_def split: caller.splits if_splits goroutine.splits option.splits)

lemma reach_barrier:
  "(par_step act num)\<^sup>*\<^sup>* (parallelWorkers slots) st \<Longrightarrow> barrier_inv num slots st"
  by (induction rule: rtranclp_induct)
    (auto intro: barrier_init elim!: par_stepE intro: caller_barrier worker_barrier)

text \<open>No deadlock: somebody can always go on until the caller has returned.\<close>

lemma barrier_progress:
  assumes inv: "barrier_inv num slots st" and "pw_caller st \<noteq> CallReturned"
  shows "\<exists>st'. par_step act num st st'"
proof (cases "\<exists>i < length (pw_workers st). pw_workers st ! i \<noteq> Finished \<and> pw_closed st")
  case True
  then obtain i where "i < length (pw_workers st)" "pw_workers st ! i \<noteq> Finished" "pw_closed st" by blast
  then have "\<exists>st'. worker_next act i st = Some st'"
    by (auto simp: worker_next_def split: goroutine.splits option.splits)
  then show ?thesis by (blast intro: par_step.worker)
next
  case False
  have "\<exists>st'. caller_next num st = Some st'"
  proof (cases "pw_caller st")
    case Waiting
    with inv False have "\<forall>w \<in> set (pw_workers st). w = Finished"
      by (auto simp: barrier_inv_def in_set_conv_nth)
    with inv have "pw_count st = 0" by (simp add: barrier_inv_def)
    with Waiting show ?thesis by (simp add: caller_next_def)
  qed (use assms(2) in \<open>auto simp: caller_next_def\<close>)
  then show ?thesis by (blast intro: par_step.caller)
qed

section \<open>Actions on their own slots\<close>

text \<open>
  What an action computes: \<open>final i x\<close> is what its steps make of the slot \<open>x\<close> in the end, and
  \<open>todo i x\<close> bounds how many there are.
\<close>

locale worker_action =
  fixes act :: "'a action" and final :: "nat \<Rightarrow> 'a \<Rightarrow> 'a" and todo :: "nat \<Rightarrow> 'a \<Rightarrow> nat"
  assumes step_final: "act i x = Some y \<Longrightarrow> final i y = final i x"
    and stop_final: "act i x = None \<Longrightarrow> final i x = x"
    and step_less: "act i x = Some y \<Longrightarrow> todo i y < todo i x"
begin

definition slots_inv :: "'a list \<Rightarrow> 'a parallel \<Rightarrow> bool" where
  "slots_inv slots st \<longleftrightarrow> (\<forall>i < length slots. final i (pw_slots st ! i) = final i (slots ! i) \<and>
     (i < length (pw_workers st) \<and> pw_workers st ! i = Finished \<longrightarrow> pw_slots st ! i = final i (slots ! i)))"

lemma caller_slots: "slots_inv slots st \<Longrightarrow> caller_next num st = Some st' \<Longrightarrow> slots_inv slots st'"
  by (auto simp: slots_inv_def caller_next_def nth_append split: caller.splits if_splits)

lemma worker_slots:
  assumes "slots_inv slots st" and "worker_next act i st = Some st'"
    and "length (pw_slots st) = length slots" and "length (pw_workers st) \<le> length slots"
  shows "slots_inv slots st'"
  using assms step_final stop_final
  by (auto simp: slots_inv_def worker_next_def nth_list_update split: if_splits goroutine.splits option.splits)

lemma barrier_workers: "barrier_inv num slots st \<Longrightarrow> length (pw_workers st) \<le> num"
  by (auto simp: barrier_inv_def split: caller.splits)

lemma reach_slots:
  assumes "(par_step act (length slots))\<^sup>*\<^sup>* (parallelWorkers slots) st"
  shows "slots_inv slots st"
  using assms
proof (induction rule: rtranclp_induct)
  case base
  show ?case by (simp add: slots_inv_def parallelWorkers_def)
next
  case (step st st')
  from reach_barrier[OF step(1)] have "length (pw_slots st) = length slots" "length (pw_workers st) \<le> length slots"
    using barrier_workers by (auto simp: barrier_inv_def)
  with step(2,3) show ?case by (auto elim!: par_stepE intro: caller_slots worker_slots)
qed

lemma returned_slots:
  assumes reach: "(par_step act (length slots))\<^sup>*\<^sup>* (parallelWorkers slots) st" and "pw_caller st = CallReturned"
  shows "pw_slots st = map (\<lambda>i. final i (slots ! i)) [0..<length slots]"
proof -
  have "pw_workers st = replicate (length slots) Finished" "length (pw_slots st) = length slots"
    using reach_barrier[OF reach] assms(2) by (simp_all add: barrier_inv_def)
  with reach_slots[OF reach] show ?thesis by (auto simp: slots_inv_def intro: nth_equalityI)
qed

text \<open>Every step brings the return of the caller nearer.\<close>

definition slot_todo :: "'a parallel \<Rightarrow> nat \<Rightarrow> nat" where
  "slot_todo st i =
     (if i < length (pw_workers st) then
        (case pw_workers st ! i of Blocked \<Rightarrow> 2 + todo i (pw_slots st ! i) | Running \<Rightarrow> 1 + todo i (pw_slots st ! i)
         | Finished \<Rightarrow> 0)
      else 3 + todo i (pw_slots st ! i))"

definition par_todo :: "nat \<Rightarrow> 'a parallel \<Rightarrow> nat" where
  "par_todo num st = (\<Sum>i<num. slot_todo st i) +
     (case pw_caller st of Spawning k \<Rightarrow> 2 | Waiting \<Rightarrow> 1 | CallReturned \<Rightarrow> 0)"

lemma sum_smaller:
  assumes "(i :: nat) < num" and "g i < f i" and "\<And>j. j \<noteq> i \<Longrightarrow> g j = f j"
  shows "(\<Sum>j<num. g j) < (\<Sum>j<num. f j :: nat)"
proof (rule sum_strict_mono_ex1)
  show "\<forall>j \<in> {..<num}. g j \<le> f j" using assms(2,3) by (metis less_or_eq_imp_le)
qed (use assms(1,2) in \<open>auto intro: bexI[of _ i]\<close>)

lemma caller_less:
  assumes "barrier_inv num slots st" and "caller_next num st = Some st'"
  shows "par_todo num st' < par_todo num st"
proof (cases "\<exists>k. pw_caller st = Spawning k \<and> k < num")
  case True
  then obtain k where k: "pw_caller st = Spawning k" "k < num" by blast
  with assms have w: "length (pw_workers st) = k" and st': "st' = st\<lparr>pw_count := pw_count st + 1,
      pw_workers := pw_workers st @ [Blocked], pw_caller := Spawning (k + 1)\<rparr>"
    by (auto simp: barrier_inv_def caller_next_def)
  have "(\<Sum>i<num. slot_todo st' i) < (\<Sum>i<num. slot_todo st i)"
    using k(2) by (rule sum_smaller) (auto simp: slot_todo_def st' w nth_append split: goroutine.split)
  with k st' show ?thesis by (simp add: par_todo_def)
next
  case False
  with assms have "slot_todo st' = slot_todo st"
    by (auto simp: caller_next_def slot_todo_def fun_eq_iff split: caller.splits if_splits goroutine.split)
  with False assms(2) show ?thesis by (auto simp: par_todo_def caller_next_def split: caller.splits if_splits)
qed

lemma worker_less:
  assumes "barrier_inv num slots st" and "length slots = num" and "worker_next act i st = Some st'"
  shows "par_todo num st' < par_todo num st"
proof -
  have i: "i < length (pw_workers st)" "i < length (pw_slots st)" "i < num"
    using assms barrier_workers[OF assms(1)] by (auto simp: worker_next_def barrier_inv_def split: if_splits)
  have "slot_todo st' i < slot_todo st i" "\<And>j. j \<noteq> i \<Longrightarrow> slot_todo st' j = slot_todo st j"
    using assms(3) i(1,2) step_less[of i "pw_slots st ! i"]
    by (cases "pw_workers st ! i"; cases "act i (pw_slots st ! i)";
        auto simp: worker_next_def slot_todo_def split: if_splits goroutine.split)+
  with i(3) have "(\<Sum>i<num. slot_todo st' i) < (\<Sum>i<num. slot_todo st i)" by (rule sum_smaller)
  moreover have "pw_caller st' = pw_caller st"
    using assms(3) by (auto simp: worker_next_def split: if_splits goroutine.splits option.splits)
  ultimately show ?thesis by (simp add: par_todo_def)
qed

lemma steps_bounded:
  assumes "(par_step act (length slots) ^^ k) (parallelWorkers slots) st"
  shows "k + par_todo (length slots) st \<le> (\<Sum>i<length slots. 3 + todo i (slots ! i)) + 2"
  using assms
proof (induction k arbitrary: st)
  case 0
  then have "st = parallelWorkers slots" by simp
  then show ?case by (simp add: par_todo_def slot_todo_def parallelWorkers_def)
next
  case (Suc k)
  then obtain st1 where st1: "(par_step act (length slots) ^^ k) (parallelWorkers slots) st1"
    "par_step act (length slots) st1 st" by auto
  then have "barrier_inv (length slots) slots st1" by (blast intro: reach_barrier dest: relpowp_imp_rtranclp)
  with st1(2) have "par_todo (length slots) st < par_todo (length slots) st1"
    by (auto elim!: par_stepE intro: caller_less worker_less)
  with Suc.IH[OF st1(1)] show ?case by simp
qed

lemma can_return:
  assumes "(par_step act (length slots))\<^sup>*\<^sup>* (parallelWorkers slots) st"
  shows "\<exists>st'. (par_step act (length slots))\<^sup>*\<^sup>* (parallelWorkers slots) st' \<and> pw_caller st' = CallReturned"
  using assms
proof (induction "par_todo (length slots) st" arbitrary: st rule: less_induct)
  case less
  note inv = reach_barrier[OF less(2)]
  show ?case
  proof (cases "pw_caller st = CallReturned")
    case False
    then obtain st1 where step: "par_step act (length slots) st st1" using barrier_progress[OF inv] by blast
    then have "par_todo (length slots) st1 < par_todo (length slots) st"
      using inv by (auto elim!: par_stepE intro: caller_less worker_less)
    moreover have "(par_step act (length slots))\<^sup>*\<^sup>* (parallelWorkers slots) st1" using less(2) step by simp
    ultimately show ?thesis by (rule less(1))
  qed (use less(2) in blast)
qed

end

section \<open>The workers of a phase\<close>

text \<open>A closure that writes its slot once, as those of the set-up and of the close do.\<close>

definition once_act :: "(nat \<Rightarrow> 'a) \<Rightarrow> (bool \<times> 'a) action" where
  "once_act f i x = (if fst x then None else Some (True, f i))"

definition once_final :: "(nat \<Rightarrow> 'a) \<Rightarrow> nat \<Rightarrow> bool \<times> 'a \<Rightarrow> bool \<times> 'a" where
  "once_final f i x = (if fst x then x else (True, f i))"

interpretation once: worker_action "once_act f" "once_final f" "\<lambda>_ x. if fst x then 0 else 1" for f
  by unfold_locales (auto simp: once_act_def once_final_def split: if_splits)

text \<open>The closures that call the tool append one sample per iteration to their slot.\<close>

type_synonym call_slot = "int \<times> benchmarkWorker \<times> BenchmarkSample list"

definition call_act :: "string \<Rightarrow> string \<Rightarrow> (int \<Rightarrow> worker_env) \<Rightarrow> int \<Rightarrow> call_slot action" where
  "call_act tool phase env limit i x =
     (case x of (call, w, samples) \<Rightarrow>
        if call < limit \<and> \<not> we_stop (env (int i)) phase call then
          (let (s, w1) = bench_call tool (int i) call phase (we_call (env (int i)) phase call) w
           in Some (call + 1, w1, samples @ [s]))
        else None)"

function call_final :: "string \<Rightarrow> string \<Rightarrow> (int \<Rightarrow> worker_env) \<Rightarrow> int \<Rightarrow> nat \<Rightarrow> call_slot \<Rightarrow> call_slot" where
  "call_final tool phase env limit i (call, w, samples) =
     (case call_act tool phase env limit i (call, w, samples) of
        Some y \<Rightarrow> call_final tool phase env limit i y
      | None \<Rightarrow> (call, w, samples))"
  by pat_completeness auto
termination
  by (relation "measure (\<lambda>(_, _, _, limit, _, call, _). nat (limit - call))")
    (auto simp: call_act_def Let_def split: prod.splits if_splits)

declare call_final.simps [simp del]

interpretation calls: worker_action "call_act tool phase env limit" "call_final tool phase env limit"
    "\<lambda>_ x. nat (limit - fst x)" for tool phase env limit
proof unfold_locales
  fix i x y
  show "call_final tool phase env limit i y = call_final tool phase env limit i x"
    if "call_act tool phase env limit i x = Some y"
    using that by (cases x) (simp add: call_final.simps)
  show "call_final tool phase env limit i x = x" if "call_act tool phase env limit i x = None"
    using that by (cases x) (simp add: call_final.simps)
  show "nat (limit - fst y) < nat (limit - fst x)" if "call_act tool phase env limit i x = Some y"
    using that by (auto simp: call_act_def Let_def split: prod.splits if_splits)
qed

lemma call_final_samples:
  "snd (snd (call_final tool phase env limit i (call, w, samples))) =
     samples @ call_loop tool phase (int i) (env (int i)) limit call w"
proof (induction tool phase env limit i "(call, w, samples)" arbitrary: call w samples rule: call_final.induct)
  case (1 tool phase env limit i call w samples)
  show ?case
  proof (cases "call < limit \<and> \<not> we_stop (env (int i)) phase call")
    case True
    obtain s w1 where b: "bench_call tool (int i) call phase (we_call (env (int i)) phase call) w = (s, w1)" by fastforce
    with True have act: "call_act tool phase env limit i (call, w, samples) = Some (call + 1, w1, samples @ [s])"
      by (simp add: call_act_def)
    from 1[OF act] True b act show ?thesis
      by (subst call_final.simps, subst call_loop.simps) simp
  next
    case False
    then have "call_act tool phase env limit i (call, w, samples) = None" by (auto simp: call_act_def)
    with False show ?thesis by (subst call_final.simps, subst call_loop.simps) auto
  qed
qed

text \<open>A call starts from a clean worker, whatever the worker did before.\<close>

lemma bench_call_any: "bench_call tool worker call phase e w = bench_call tool worker call phase e new_worker"
proof -
  have "w\<lparr>bw_token := [], bw_first := 0, bw_updates := 0\<rparr> = new_worker\<lparr>bw_token := [], bw_first := 0, bw_updates := 0\<rparr>"
    by (cases w) (simp add: new_worker_def)
  then show ?thesis unfolding bench_call_def by (simp only:)
qed

lemma call_loop_any: "call_loop tool phase worker e limit call w = call_loop tool phase worker e limit call new_worker"
  by (subst (1 2) call_loop.simps) (subst bench_call_any, simp)

text \<open>\<open>par_returns act slots st\<close>: some schedule of the call returns with \<open>st\<close>.\<close>

definition par_returns :: "'a action \<Rightarrow> 'a list \<Rightarrow> 'a parallel \<Rightarrow> bool" where
  "par_returns act slots st \<longleftrightarrow>
     (par_step act (length slots))\<^sup>*\<^sup>* (parallelWorkers slots) st \<and> pw_caller st = CallReturned"

lemma once_returns:
  assumes "par_returns (once_act f) (replicate n (False, x)) st"
  shows "map snd (pw_slots st) = map f [0..<n]"
  using once.returned_slots[where slots = "replicate n (False, x)" and f = f and st = st] assms
  by (auto simp: par_returns_def once_final_def intro: map_cong)

lemma calls_return:
  assumes "par_returns (call_act tool phase env limit) (map (\<lambda>w. (0, w, [])) ws) st"
  shows "map (snd \<circ> snd) (pw_slots st) =
    map (\<lambda>i. call_loop tool phase (int i) (env (int i)) limit 0 new_worker) [0..<length ws]"
  using calls.returned_slots[where slots = "map (\<lambda>w. (0, w, [])) ws" and st = st] assms
  by (auto simp: par_returns_def call_final_samples intro: call_loop_any)

lemma upto_int: "[0..int n - 1] = map int [0..<n]"
  by (induction n) (simp_all add: upto_rec2)

section \<open>Properties\<close>

text \<open>
  C24. The barrier: in every schedule and for every action, no worker has begun its action
  before the last worker exists, the call returns only when every worker is finished, the
  count of the WaitGroup is the number of unfinished workers and so never negative, and as
  long as the call has not returned somebody can go on.
\<close>

theorem workers_start_together:
  assumes "(par_step act n)\<^sup>*\<^sup>* (parallelWorkers slots) st"
  shows "(pw_slots st \<noteq> slots \<or> (\<exists>w \<in> set (pw_workers st). w \<noteq> Blocked) \<longrightarrow> length (pw_workers st) = n) \<and>
    (pw_caller st = CallReturned \<longrightarrow> pw_workers st = replicate n Finished) \<and>
    pw_count st = int (length (filter (\<lambda>w. w \<noteq> Finished) (pw_workers st))) \<and>
    (pw_caller st \<noteq> CallReturned \<longrightarrow> (\<exists>st'. par_step act n st st'))"
proof -
  have inv: "barrier_inv n slots st" using assms by (rule reach_barrier)
  with barrier_progress[OF inv] show ?thesis
    by (auto simp: barrier_inv_def split: caller.splits)
qed

definition sample_setup :: "(bool \<times> string) action" where
  "sample_setup = once_act (\<lambda>i. setup_worker ReadTool sample_worker)"

lemma sample_setup_run:
  "par_run sample_setup 2 [None, None, None, Some 1, Some 1] (parallelWorkers [(False, []), (False, [])]) =
     Some \<lparr>pw_caller = Waiting, pw_closed = True, pw_count = 2, pw_workers = [Blocked, Running],
       pw_slots = [(False, []), (True, [])]\<rparr>"
  by (simp add: parallelWorkers_def caller_next_def worker_next_def sample_setup_def once_act_def
      setup_worker_def sample_worker_def ReadTool_def)

theorem workers_start_together_witness:
  "(\<exists>st'. par_step sample_setup 2 \<lparr>pw_caller = Waiting, pw_closed = True, pw_count = 2,
     pw_workers = [Blocked, Running], pw_slots = [(False, []), (True, [])]\<rparr> st')"
  using workers_start_together[OF relpowp_imp_rtranclp[OF par_run_steps[OF sample_setup_run]]] by simp

text \<open>
  C22. A phase does not depend on how its workers are scheduled: whatever order the steps of
  the goroutines take in the four parallel parts of a phase (set-up, warm-up, measured
  calls, with the workers as the warm-up left them, and close), the report made from the slots
  they filled is the one that \<open>benchmarkPhase\<close> computes worker by worker.
\<close>

theorem phase_any_schedule:
  assumes "env = (case target_of c target of (endpoint, credentials) \<Rightarrow> ph_worker P endpoint credentials)"
    and "par_returns (once_act (\<lambda>i. setup_worker tool (env (int i)))) (replicate n (False, [])) setups"
    and "par_returns (call_act tool ''warmup'' env (WarmupPerWorker c)) (replicate n (0, new_worker, [])) warmup"
    and "par_returns (call_act tool ''measured'' env (CallsPerWorker c))
          (map (\<lambda>w. (0, w, [])) (map (fst \<circ> snd) (pw_slots warmup))) measured"
    and "par_returns (once_act (\<lambda>i. close_worker (env (int i)))) (replicate n (False, [])) close"
  shows "phase_measurement P c target tool (int n) repetition (map snd (pw_slots setups))
      (map (snd \<circ> snd) (pw_slots warmup)) (map (snd \<circ> snd) (pw_slots measured)) (map snd (pw_slots close))
    = benchmarkPhase P c target tool (int n) repetition"
proof -
  from assms(3) have "par_returns (call_act tool ''warmup'' env (WarmupPerWorker c))
      (map (\<lambda>w. (0, w, [])) (replicate n new_worker)) warmup" by simp
  from calls_return[OF this] have warm: "map (snd \<circ> snd) (pw_slots warmup) =
      map (\<lambda>i. call_loop tool ''warmup'' (int i) (env (int i)) (WarmupPerWorker c) 0 new_worker) [0..<n]"
    by simp
  from arg_cong[OF warm, of length] have "length (pw_slots warmup) = n" by simp
  then have run: "map (snd \<circ> snd) (pw_slots measured) =
      map (\<lambda>i. call_loop tool ''measured'' (int i) (env (int i)) (CallsPerWorker c) 0 new_worker) [0..<n]"
    using calls_return[OF assms(4)] by simp
  obtain endpoint credentials where target: "target_of c target = (endpoint, credentials)" by fastforce
  then have "ph_worker P endpoint credentials = env" using assms(1) by simp
  with target show ?thesis
    unfolding warm run once_returns[OF assms(2)] once_returns[OF assms(5)] benchmarkPhase_def upto_int
    by (simp add: comp_def)
qed

lemma once_returns_exist: "\<exists>st. par_returns (once_act f) slots st"
  using once.can_return[OF rtranclp.rtrancl_refl] by (auto simp: par_returns_def)

lemma calls_return_exist: "\<exists>st. par_returns (call_act tool phase env limit) slots st"
  using calls.can_return[OF rtranclp.rtrancl_refl] by (auto simp: par_returns_def)

theorem phase_any_schedule_witness:
  "\<exists>(setups :: (bool \<times> string) parallel) (warmup :: call_slot parallel) (measured :: call_slot parallel)
      (close :: (bool \<times> string) parallel). phase_measurement sample_phase sample_config ''direct'' ReadTool 2 1
      (map snd (pw_slots setups)) (map (snd \<circ> snd) (pw_slots warmup)) (map (snd \<circ> snd) (pw_slots measured))
      (map snd (pw_slots close))
    = benchmarkPhase sample_phase sample_config ''direct'' ReadTool 2 1 \<and>
    length (pw_slots setups) = 2"
proof -
  let ?env = "\<lambda>i :: int. sample_worker"
  let ?f = "\<lambda>i :: nat. setup_worker ReadTool (?env (int i))"
  have env: "?env = (case target_of sample_config ''direct'' of (endpoint, credentials) \<Rightarrow>
      ph_worker sample_phase endpoint credentials)"
    by (simp add: sample_phase_def split_beta)
  obtain setups where 1: "par_returns (once_act ?f) (replicate 2 (False, [])) setups" using once_returns_exist by blast
  obtain warmup where 2: "par_returns (call_act ReadTool ''warmup'' ?env (WarmupPerWorker sample_config))
      (replicate 2 (0, new_worker, [])) warmup" using calls_return_exist by blast
  obtain measured where 3: "par_returns (call_act ReadTool ''measured'' ?env (CallsPerWorker sample_config))
      (map (\<lambda>w. (0, w, [])) (map (fst \<circ> snd) (pw_slots warmup))) measured" using calls_return_exist by blast
  obtain close where 4: "par_returns (once_act (\<lambda>i. close_worker (?env (int i)))) (replicate 2 (False, [])) close"
    using once_returns_exist by blast
  have "length (pw_slots setups) = 2" using once_returns[OF 1] by (metis length_map length_upt minus_nat.diff_0)
  moreover have "phase_measurement sample_phase sample_config ''direct'' ReadTool 2 1 (map snd (pw_slots setups))
      (map (snd \<circ> snd) (pw_slots warmup)) (map (snd \<circ> snd) (pw_slots measured)) (map snd (pw_slots close))
    = benchmarkPhase sample_phase sample_config ''direct'' ReadTool 2 1"
    using phase_any_schedule[OF env 1 2 3 4, of 1] by simp
  ultimately show ?thesis by blast
qed

end
