(* ===== verification/Redirects.thy ===== *)
theory Redirects
  imports Client "HOL-Library.Sublist"
begin

text \<open>
  The HTTP client of the demo client (\<^verbatim>\<open>httpClient\<close> of \<^verbatim>\<open>internal/democlient/client.go\<close>): its
  transport and its redirect policy, in the loop of \<^verbatim>\<open>net/http\<close>'s \<^verbatim>\<open>Client.Do\<close> that consults
  them. The network is \<open>base\<close>, the answer of \<^verbatim>\<open>http.DefaultTransport\<close> to a request after those
  already sent; the token file may change between requests, so \<open>files\<close> depends on them too.
\<close>

section \<open>Requests and responses\<close>

record hop =
  hop_method :: string
  hop_url :: string
  hop_header :: header
  hop_body :: string

record response =
  rs_status :: int
  rs_location :: string
  rs_body :: string

datatype redirect_error = ErrUseLastResponse | PolicyError string

type_synonym outcome_of = "string + response"

record http_client =
  hc_transport :: "hop list \<Rightarrow> hop \<Rightarrow> outcome_of \<times> hop list"
  hc_policy :: "hop \<Rightarrow> hop list \<Rightarrow> redirect_error option"

section \<open>The client\<close>

text \<open>\<^verbatim>\<open>credentialTransport.RoundTrip\<close>: the headers, then the default transport.\<close>

definition credential_transport ::
  "(hop list \<Rightarrow> string \<Rightarrow> string + string) \<Rightarrow> (hop list \<Rightarrow> hop \<Rightarrow> outcome_of) \<Rightarrow> Credentials
     \<Rightarrow> hop list \<Rightarrow> hop \<Rightarrow> outcome_of \<times> hop list" where
  "credential_transport files base credentials sent req =
     (case RoundTrip (files sent) credentials (hop_header req) of
        Inl err \<Rightarrow> (Inl err, sent)
      | Inr h \<Rightarrow>
          (let out = req\<lparr>hop_header := h\<rparr> in (base sent out, sent @ [out])))"

definition httpClient ::
  "(hop list \<Rightarrow> string \<Rightarrow> string + string) \<Rightarrow> (hop list \<Rightarrow> hop \<Rightarrow> outcome_of) \<Rightarrow> Credentials \<Rightarrow> http_client" where
  "httpClient files base credentials =
     \<lparr>hc_transport = credential_transport files base credentials,
      hc_policy = \<lambda>req via. Some ErrUseLastResponse\<rparr>"

section \<open>The loop of the library\<close>

text \<open>
  A 307 or 308 is only followed when the body of the first request can be sent again. The next
  request, its URL resolved and its headers copied, is the parameter \<open>redirected\<close>.
\<close>

definition should_redirect :: "int \<Rightarrow> bool \<Rightarrow> bool" where
  "should_redirect status replayable \<longleftrightarrow> status \<in> {301, 302, 303} \<or> (status \<in> {307, 308} \<and> replayable)"

text \<open>A policy that accepts every redirect may follow them for ever: then there is no value.\<close>

partial_function (option) client_do ::
  "http_client \<Rightarrow> (hop list \<Rightarrow> response \<Rightarrow> string + hop) \<Rightarrow> bool \<Rightarrow> hop list \<Rightarrow> hop \<Rightarrow> hop list
     \<Rightarrow> (outcome_of \<times> hop list) option" where
  [code]: "client_do c redirected replayable via req sent =
     (case hc_transport c sent req of
        (Inl err, sent1) \<Rightarrow> Some (Inl err, sent1)
      | (Inr resp, sent1) \<Rightarrow>
          if \<not> should_redirect (rs_status resp) replayable \<or> rs_location resp = [] then Some (Inr resp, sent1)
          else (case redirected (via @ [req]) resp of
              Inl err \<Rightarrow> Some (Inl err, sent1)
            | Inr next_req \<Rightarrow>
                (case hc_policy c next_req (via @ [req]) of
                   Some ErrUseLastResponse \<Rightarrow> Some (Inr resp, sent1)
                 | Some (PolicyError err) \<Rightarrow> Some (Inl err, sent1)
                 | None \<Rightarrow> client_do c redirected replayable (via @ [req]) next_req sent1)))"

text \<open>The requests of a session, one after the other, each followed as the policy says.\<close>

fun client_requests ::
  "http_client \<Rightarrow> (hop list \<Rightarrow> response \<Rightarrow> string + hop) \<Rightarrow> bool \<Rightarrow> hop list \<Rightarrow> hop list
     \<Rightarrow> (outcome_of list \<times> hop list) option" where
  "client_requests c redirected replayable [] sent = Some ([], sent)"
| "client_requests c redirected replayable (req # reqs) sent =
     (case client_do c redirected replayable [] req sent of
        None \<Rightarrow> None
      | Some (r, sent1) \<Rightarrow>
          (case client_requests c redirected replayable reqs sent1 of
             None \<Rightarrow> None
           | Some (rs, sent2) \<Rightarrow> Some (r # rs, sent2)))"

section \<open>Redirects are not followed\<close>

text \<open>
  The one case in which the policy is not the last word: a redirect whose location cannot be
  resolved is an error before the policy is asked.
\<close>

definition resolved :: "(hop list \<Rightarrow> response \<Rightarrow> string + hop) \<Rightarrow> bool \<Rightarrow> hop \<Rightarrow> outcome_of \<Rightarrow> outcome_of" where
  "resolved redirected replayable req r =
     (case r of
        Inl err \<Rightarrow> Inl err
      | Inr resp \<Rightarrow>
          if should_redirect (rs_status resp) replayable \<and> rs_location resp \<noteq> [] then
            (case redirected [req] resp of Inl err \<Rightarrow> Inl err | Inr _ \<Rightarrow> Inr resp)
          else Inr resp)"

lemma client_do_once:
  "client_do (httpClient files base credentials) redirected replayable [] req sent =
     (case credential_transport files base credentials sent req of
        (r, sent1) \<Rightarrow> Some (resolved redirected replayable req r, sent1))"
  by (subst client_do.simps) (auto simp: httpClient_def resolved_def split: prod.splits sum.splits)

text \<open>
  What reaches the network in a run of requests: for each of them at most one request, at
  the URL it was made for, with headers computed from the token file at that moment.
\<close>

inductive sent_for :: "(hop list \<Rightarrow> string \<Rightarrow> string + string) \<Rightarrow> Credentials \<Rightarrow> hop list \<Rightarrow> hop list \<Rightarrow> hop list \<Rightarrow> bool"
  for files credentials where
  none: "sent_for files credentials [] sent sent"
| sends: "RoundTrip (files sent) credentials (hop_header req) = Inr h \<Longrightarrow>
     sent_for files credentials reqs (sent @ [req\<lparr>hop_header := h\<rparr>]) sent' \<Longrightarrow>
     sent_for files credentials (req # reqs) sent sent'"
| fails: "RoundTrip (files sent) credentials (hop_header req) = Inl err \<Longrightarrow>
     sent_for files credentials reqs sent sent' \<Longrightarrow> sent_for files credentials (req # reqs) sent sent'"

inductive_cases sent_forE: "sent_for files credentials (req # reqs) sent sent'"

lemma client_requests_sent:
  "\<exists>rs sent'. client_requests (httpClient files base credentials) redirected replayable reqs sent = Some (rs, sent') \<and>
     length rs = length reqs \<and> sent_for files credentials reqs sent sent'"
proof (induction reqs arbitrary: sent)
  case (Cons req reqs)
  show ?case
  proof (cases "RoundTrip (files sent) credentials (hop_header req)")
    case (Inl err)
    with Cons[of sent] show ?thesis
      by (auto simp: client_do_once credential_transport_def Let_def intro: sent_for.fails)
  next
    case (Inr h)
    with Cons[of "sent @ [req\<lparr>hop_header := h\<rparr>]"] show ?thesis
      by (auto simp: client_do_once credential_transport_def Let_def intro: sent_for.sends)
  qed
qed (auto intro: sent_for.none)

text \<open>The credentials of the client, and no others, with the token as the file has it.\<close>

definition own_credentials :: "(string \<Rightarrow> string + string) \<Rightarrow> Credentials \<Rightarrow> header \<Rightarrow> bool" where
  "own_credentials read_file cr h \<longleftrightarrow>
     header_values h ''X-Agent-ID'' = (if AgentID cr = [] then [] else [AgentID cr]) \<and>
     (TokenFile cr = [] \<longrightarrow> header_values h ''Authorization'' = []) \<and>
     (TokenFile cr \<noteq> [] \<longrightarrow> (\<exists>data. read_file (TokenFile cr) = Inr data \<and> go_trim_space data \<noteq> [] \<and>
        header_values h ''Authorization'' = [''Bearer '' @ go_trim_space data]))"

lemma RoundTrip_credentials: "RoundTrip rf cr inh = Inr outh \<Longrightarrow> own_credentials rf cr outh"
  by (auto simp: own_credentials_def RoundTrip_def Let_def split: if_splits sum.splits)

lemma sent_for_hops:
  "sent_for files cr reqs sent sent' \<Longrightarrow>
     \<exists>hops. sent' = sent @ hops \<and> subseq (map hop_url hops) (map hop_url reqs) \<and>
       (\<forall>k < length hops. own_credentials (files (sent @ take k hops)) cr (hop_header (hops ! k)))"
proof (induction rule: sent_for.induct)
  case (sends sent req h reqs sent')
  let ?out = "req\<lparr>hop_header := h\<rparr>"
  obtain hops where hops: "sent' = (sent @ [?out]) @ hops" "subseq (map hop_url hops) (map hop_url reqs)"
    "\<forall>k < length hops. own_credentials (files ((sent @ [?out]) @ take k hops)) cr (hop_header (hops ! k))"
    using sends.IH by blast
  have "own_credentials (files sent) cr h" using sends(1) by (rule RoundTrip_credentials)
  with hops show ?case
    by (intro exI[of _ "?out # hops"]) (auto simp: nth_Cons' less_Suc_eq_0_disj)
qed auto

text \<open>
  C23. Redirects are never followed: whatever the peers answer to the requests that the MCP
  session makes, with whatever redirects to wherever, the client returns, each of the requests
  reaches the network at most once and at the URL it was made for, and what is sent carries
  the agent identity and the token of the client as the file had it at that moment, and no
  others. So no credential reaches the destination of a redirect.
\<close>

theorem redirects_never_followed:
  "\<exists>rs sent. client_requests (httpClient files base credentials) redirected replayable reqs [] = Some (rs, sent) \<and>
     length rs = length reqs \<and> subseq (map hop_url sent) (map hop_url reqs) \<and>
     (\<forall>k < length sent. own_credentials (files (take k sent)) credentials (hop_header (sent ! k)))"
proof -
  obtain rs sent where run: "client_requests (httpClient files base credentials) redirected replayable reqs [] = Some (rs, sent)"
    "length rs = length reqs" "sent_for files credentials reqs [] sent"
    using client_requests_sent by blast
  with sent_for_hops[OF run(3)] show ?thesis by auto
qed

definition redirecting_peer :: "hop list \<Rightarrow> hop \<Rightarrow> outcome_of" where
  "redirecting_peer sent req = Inr \<lparr>rs_status = 307, rs_location = ''http://evil/'', rs_body = []\<rparr>"

definition follow_location :: "hop list \<Rightarrow> response \<Rightarrow> string + hop" where
  "follow_location via resp = Inr ((last via)\<lparr>hop_url := rs_location resp\<rparr>)"

theorem redirects_never_followed_witness:
  "\<exists>rs sent. client_requests (httpClient (\<lambda>sent _. Inr ''tok'') redirecting_peer \<lparr>TokenFile = ''/token'', AgentID = []\<rparr>)
      follow_location True [\<lparr>hop_method = ''POST'', hop_url = ''http://gw/'', hop_header = [], hop_body = ''x''\<rparr>] []
      = Some (rs, sent) \<and> set (map hop_url sent) \<subseteq> {''http://gw/''}"
proof -
  let ?req = "\<lparr>hop_method = ''POST'', hop_url = ''http://gw/'', hop_header = [], hop_body = ''x''\<rparr>"
  let ?cr = "\<lparr>TokenFile = ''/token'', AgentID = []\<rparr>"
  obtain rs sent where run: "client_requests (httpClient (\<lambda>sent _. Inr ''tok'') redirecting_peer ?cr)
      follow_location True [?req] [] = Some (rs, sent)" "subseq (map hop_url sent) (map hop_url [?req])"
    using redirects_never_followed[of "\<lambda>sent _. Inr ''tok''" redirecting_peer ?cr follow_location True "[?req]"] by blast
  have "set (map hop_url sent) \<subseteq> {''http://gw/''}"
  proof
    fix u
    assume "u \<in> set (map hop_url sent)"
    from list_emb_set[OF run(2) this] show "u \<in> {''http://gw/''}" by auto
  qed
  with run(1) show ?thesis by blast
qed

end
