(* ===== verification/ClientMain.thy ===== *)
theory ClientMain
  imports Benchmark Numbers
begin

text \<open>
  The client command (\<^verbatim>\<open>hack/mcp-client/main.go\<close>): the flags with their defaults, the checks
  on their combinations, and the dispatch to the workflow, the status wait, the network probe
  or the benchmark of \<^verbatim>\<open>internal/democlient\<close>.

  \<^verbatim>\<open>flag.Parse\<close> is the list of the settings it accepts, in the order of the command line: the
  later setting of a flag wins. What the network, the token file and the output do is the
  record \<open>client_world\<close>, with the results the theories \<open>Client\<close> and \<open>Benchmark\<close> are given.
\<close>

section \<open>Flags\<close>

record options =
  op_endpoint :: string
  op_agent :: string
  op_token_file :: string
  op_topic :: string
  op_timeout :: duration
  op_expect_status :: int
  op_expect_network :: string
  op_benchmark :: bool
  op_direct_endpoint :: string
  op_concurrency :: string
  op_calls :: int
  op_warmup :: int
  op_repetitions :: int

datatype flag_setting =
    SetEndpoint string
  | SetAgent string
  | SetTokenFile string
  | SetTopic string
  | SetTimeout duration
  | SetExpectStatus int
  | SetExpectNetwork string
  | SetBenchmark bool
  | SetDirectEndpoint string
  | SetConcurrency string
  | SetCalls int
  | SetWarmup int
  | SetRepetitions int

definition default_options :: options where
  "default_options = \<lparr>op_endpoint = ''http://127.0.0.1:8080/portkeeper-demo/runbooks/mcp'', op_agent = [],
     op_token_file = [], op_topic = ''gateway-routing'', op_timeout = 30 * second, op_expect_status = 0,
     op_expect_network = [], op_benchmark = False, op_direct_endpoint = [], op_concurrency = ''1,4,8'',
     op_calls = 20, op_warmup = 3, op_repetitions = 2\<rparr>"

fun set_flag :: "flag_setting \<Rightarrow> options \<Rightarrow> options" where
  "set_flag (SetEndpoint s) p = p\<lparr>op_endpoint := s\<rparr>"
| "set_flag (SetAgent s) p = p\<lparr>op_agent := s\<rparr>"
| "set_flag (SetTokenFile s) p = p\<lparr>op_token_file := s\<rparr>"
| "set_flag (SetTopic s) p = p\<lparr>op_topic := s\<rparr>"
| "set_flag (SetTimeout d) p = p\<lparr>op_timeout := d\<rparr>"
| "set_flag (SetExpectStatus n) p = p\<lparr>op_expect_status := n\<rparr>"
| "set_flag (SetExpectNetwork s) p = p\<lparr>op_expect_network := s\<rparr>"
| "set_flag (SetBenchmark b) p = p\<lparr>op_benchmark := b\<rparr>"
| "set_flag (SetDirectEndpoint s) p = p\<lparr>op_direct_endpoint := s\<rparr>"
| "set_flag (SetConcurrency s) p = p\<lparr>op_concurrency := s\<rparr>"
| "set_flag (SetCalls n) p = p\<lparr>op_calls := n\<rparr>"
| "set_flag (SetWarmup n) p = p\<lparr>op_warmup := n\<rparr>"
| "set_flag (SetRepetitions n) p = p\<lparr>op_repetitions := n\<rparr>"

fun is_timeout :: "flag_setting \<Rightarrow> bool" where
  "is_timeout (SetTimeout d) = True"
| "is_timeout _ = False"

text \<open>The options after parsing: a benchmark without a timeout of its own gets ten minutes.\<close>

definition parse_options :: "flag_setting list \<Rightarrow> options" where
  "parse_options settings =
     (let p = fold set_flag settings default_options in
      if op_benchmark p \<and> \<not> list_ex is_timeout settings then p\<lparr>op_timeout := 10 * 60 * second\<rparr> else p)"

text \<open>The comma-separated worker counts.\<close>

fun parse_workers :: "string list \<Rightarrow> int list option" where
  "parse_workers [] = Some []"
| "parse_workers (value # vals) =
     (case Atoi (go_trim_space value) of
        None \<Rightarrow> None
      | Some n \<Rightarrow> map_option (Cons n) (parse_workers vals))"

section \<open>The command\<close>

record client_world =
  cw_parse :: url_parser
  cw_writer :: writer
  cw_connect :: "string \<Rightarrow> Credentials \<Rightarrow> string + session"
  cw_attempts :: "string \<Rightarrow> Credentials \<Rightarrow> attempt list"
  cw_resolve :: "string \<Rightarrow> string + string list"
  cw_dial :: "string \<Rightarrow> string \<Rightarrow> dial"
  cw_phases :: "phase_id \<Rightarrow> phase_env"
  cw_over :: "phase_id \<Rightarrow> bool"
  cw_encode :: "BenchmarkReport \<Rightarrow> string option"

text \<open>
  How the command ends: with a fatal message, silently with code 1 after a failure report, or
  well; with what it printed or reported. \<open>StillWaiting\<close> is a status wait whose observed
  rounds have not decided it.
\<close>

datatype client_end =
    Fatal string "string list"
  | FailedReport BenchmarkReport
  | Done "string list" "BenchmarkReport option"
  | StillWaiting

definition benchmark_config :: "options \<Rightarrow> int list \<Rightarrow> BenchmarkConfig" where
  "benchmark_config p workers = \<lparr>DirectEndpoint = op_direct_endpoint p, GatewayEndpoint = op_endpoint p,
     BCredentials = \<lparr>TokenFile = op_token_file p, AgentID = op_agent p\<rparr>, Concurrency = workers,
     CallsPerWorker = op_calls p, WarmupPerWorker = op_warmup p, Repetitions = op_repetitions p,
     Topic = op_topic p\<rparr>"

definition end_of :: "string option \<times> string list \<Rightarrow> client_end" where
  "end_of r = (case r of (Some err, out) \<Rightarrow> Fatal err out | (None, out) \<Rightarrow> Done out None)"

definition client_main :: "(string \<Rightarrow> string) \<Rightarrow> client_world \<Rightarrow> flag_setting list \<Rightarrow> string list \<Rightarrow> client_end" where
  "client_main quote cw settings positional =
     (let p = parse_options settings;
          credentials = \<lparr>TokenFile = op_token_file p, AgentID = op_agent p\<rparr>
      in if op_timeout p \<le> 0 \<or> positional \<noteq> [] then
           Fatal ''timeout must be positive and positional arguments are not supported'' []
         else if op_benchmark p then
           (if op_expect_status p \<noteq> 0 \<or> op_expect_network p \<noteq> [] then
              Fatal ''benchmark, expect-status and expect-network are mutually exclusive'' []
            else
              (case parse_workers (split_on CHR '','' (op_concurrency p)) of
                 None \<Rightarrow> Fatal ''concurrency must be comma-separated integers'' []
               | Some workers \<Rightarrow>
                   (case Benchmark (cw_parse cw) (cw_phases cw) (cw_over cw) (cw_encode cw) (benchmark_config p workers) of
                      (None, report) \<Rightarrow> Done [] report
                    | (Some err, Some report) \<Rightarrow> FailedReport report
                    | (Some err, None) \<Rightarrow> Fatal err [])))
         else if op_expect_network p \<noteq> [] then
           (if (op_expect_network p \<noteq> ''allowed'' \<and> op_expect_network p \<noteq> ''blocked'')
               \<or> op_expect_status p \<noteq> 0 \<or> op_token_file p \<noteq> [] then
              Fatal ''expect-network must be allowed or blocked, without expect-status or token-file'' []
            else end_of (ProbeNetwork (cw_parse cw) (cw_resolve cw) (cw_dial cw) (cw_writer cw) (op_endpoint p)
                   (op_expect_network p = ''blocked'') []))
         else if op_expect_status p \<noteq> 0 then
           (case WaitForStatus (cw_parse cw) (cw_writer cw) (op_endpoint p) (op_expect_status p)
                   (cw_attempts cw (op_endpoint p) credentials) [] of
              None \<Rightarrow> StillWaiting
            | Some r \<Rightarrow> end_of r)
         else end_of (Run (cw_parse cw) quote (cw_writer cw) (cw_connect cw (op_endpoint p) credentials)
                (op_endpoint p) credentials (op_topic p) []))"

section \<open>Properties\<close>

lemma visible_space_width: "\<forall>c \<in> set s. 33 \<le> (of_char c :: nat) \<and> (of_char c :: nat) < 128 \<Longrightarrow> space_width s = 0"
  by (cases s) (auto simp: ascii_space_def Let_def split: list.split)

lemma trim_visible:
  assumes "\<forall>c \<in> set s. 33 \<le> (of_char c :: nat) \<and> (of_char c :: nat) < 128"
  shows "go_trim_space s = s"
proof -
  have w0: "space_width (drop k s) = 0" for k
    using assms by (intro visible_space_width) (auto dest: in_set_dropD)
  then have "trim_left s = s" "space_suffix s = 0"
    by (subst trim_left.simps, simp add: visible_space_width[OF assms]) (simp add: space_suffix_def w0)
  then show ?thesis by (simp add: go_trim_space_def trim_right.simps)
qed

lemma itoa_bytes: "c \<in> set (itoa n) \<Longrightarrow> c = CHR ''-'' \<or> is_digit c"
  using nat_digits_all[of "nat n"] nat_digits_all[of "nat (- n)"]
  by (auto simp: itoa_def list_all_iff split: if_splits)

lemma itoa_trim: "go_trim_space (itoa n) = itoa n"
  by (rule trim_visible) (auto simp: is_digit_def dest!: itoa_bytes)

lemma itoa_no_comma: "CHR '','' \<notin> set (itoa n)"
  by (auto simp: is_digit_def dest!: itoa_bytes)

text \<open>
  A list of worker counts survives the trip through the command line: joined by commas, it
  is parsed back to the same counts, whatever their sign, if each fits an int.
\<close>

theorem workers_roundtrip:
  assumes "ns \<noteq> []" and "\<forall>n \<in> set ns. min_int \<le> n \<and> n \<le> max_int"
  shows "parse_workers (split_on CHR '','' (join_on CHR '','' (map itoa ns))) = Some ns"
proof -
  have "parse_workers (map itoa ns) = Some ns"
    using assms(2) by (induction ns) (auto simp: itoa_trim Atoi_itoa)
  moreover have "split_on CHR '','' (join_on CHR '','' (map itoa ns)) = map itoa ns"
    using assms(1) itoa_no_comma by (intro split_join) auto
  ultimately show ?thesis by simp
qed

theorem workers_roundtrip_witness:
  "parse_workers (split_on CHR '','' (join_on CHR '','' (map itoa [1, 4, 8]))) = Some [1, 4, 8]"
  by (rule workers_roundtrip) (simp_all add: min_int_def max_int_def)

definition refused :: "flag_setting list \<Rightarrow> string list \<Rightarrow> bool" where
  "refused settings positional \<longleftrightarrow>
     (let p = parse_options settings in
      op_timeout p \<le> 0 \<or> positional \<noteq> [] \<or>
      (if op_benchmark p then
         op_expect_status p \<noteq> 0 \<or> op_expect_network p \<noteq> [] \<or>
         parse_workers (split_on CHR '','' (op_concurrency p)) = None
       else
         op_expect_network p \<noteq> [] \<and>
         (op_expect_network p \<notin> {''allowed'', ''blocked''} \<or> op_expect_status p \<noteq> 0 \<or> op_token_file p \<noteq> [])))"

text \<open>
  A command line without a positive timeout, with positional arguments, with two modes at
  once, or with a malformed value for its mode is refused before anything happens: the fatal
  message does not depend on the network, the files or the output, and nothing is printed.
\<close>

theorem bad_command_line_refused:
  assumes "refused settings positional"
  shows "\<exists>msg. \<forall>cw. client_main quote cw settings positional = Fatal msg []"
proof -
  let ?p = "parse_options settings"
  from assms consider "op_timeout ?p \<le> 0 \<or> positional \<noteq> []"
    | "\<not> (op_timeout ?p \<le> 0 \<or> positional \<noteq> [])" "op_benchmark ?p" "op_expect_status ?p \<noteq> 0 \<or> op_expect_network ?p \<noteq> []"
    | "\<not> (op_timeout ?p \<le> 0 \<or> positional \<noteq> [])" "op_benchmark ?p" "\<not> (op_expect_status ?p \<noteq> 0 \<or> op_expect_network ?p \<noteq> [])"
      "parse_workers (split_on CHR '','' (op_concurrency ?p)) = None"
    | "\<not> (op_timeout ?p \<le> 0 \<or> positional \<noteq> [])" "\<not> op_benchmark ?p" "op_expect_network ?p \<noteq> []"
      "(op_expect_network ?p \<noteq> ''allowed'' \<and> op_expect_network ?p \<noteq> ''blocked'')
         \<or> op_expect_status ?p \<noteq> 0 \<or> op_token_file ?p \<noteq> []"
    unfolding refused_def Let_def by (metis insert_iff)
  then show ?thesis by cases (simp_all add: client_main_def Let_def)
qed

theorem bad_command_line_refused_witness:
  "\<exists>msg. \<forall>cw. client_main id cw [SetBenchmark True, SetExpectStatus 200] [] = Fatal msg []"
proof -
  have "refused [SetBenchmark True, SetExpectStatus 200] []"
    by (simp add: refused_def parse_options_def Let_def default_options_def)
  from bad_command_line_refused[OF this, of id] show ?thesis .
qed

section \<open>Where the credentials go\<close>

definition credentials_of :: "options \<Rightarrow> Credentials" where
  "credentials_of p = \<lparr>TokenFile = op_token_file p, AgentID = op_agent p\<rparr>"

definition no_credentials :: Credentials where
  "no_credentials = \<lparr>TokenFile = [], AgentID = []\<rparr>"

text \<open>
  The worlds answer alike to everything but an exchange in which the credentials are presented
  elsewhere than to the endpoint of the command line.
\<close>

definition same_channel :: "options \<Rightarrow> client_world \<Rightarrow> client_world \<Rightarrow> bool" where
  "same_channel p cw cw' \<longleftrightarrow>
     cw_parse cw = cw_parse cw' \<and> cw_writer cw = cw_writer cw' \<and> cw_over cw = cw_over cw' \<and>
     cw_encode cw = cw_encode cw' \<and> cw_resolve cw = cw_resolve cw' \<and> cw_dial cw = cw_dial cw' \<and>
     cw_connect cw (op_endpoint p) (credentials_of p) = cw_connect cw' (op_endpoint p) (credentials_of p) \<and>
     cw_attempts cw (op_endpoint p) (credentials_of p) = cw_attempts cw' (op_endpoint p) (credentials_of p) \<and>
     (\<forall>ph. ph_start (cw_phases cw ph) = ph_start (cw_phases cw' ph) \<and>
        ph_end (cw_phases cw ph) = ph_end (cw_phases cw' ph) \<and>
        ph_worker (cw_phases cw ph) (op_endpoint p) (credentials_of p)
          = ph_worker (cw_phases cw' ph) (op_endpoint p) (credentials_of p) \<and>
        ph_worker (cw_phases cw ph) (op_direct_endpoint p) no_credentials
          = ph_worker (cw_phases cw' ph) (op_direct_endpoint p) no_credentials)"

definition phase_agrees :: "BenchmarkConfig \<Rightarrow> phase_env \<Rightarrow> phase_env \<Rightarrow> bool" where
  "phase_agrees c P P' \<longleftrightarrow> ph_start P = ph_start P' \<and> ph_end P = ph_end P' \<and>
     ph_worker P (GatewayEndpoint c) (BCredentials c) = ph_worker P' (GatewayEndpoint c) (BCredentials c) \<and>
     ph_worker P (DirectEndpoint c) no_credentials = ph_worker P' (DirectEndpoint c) no_credentials"

lemma benchmarkPhase_agrees:
  assumes "phase_agrees c P P'"
  shows "benchmarkPhase P c target tool n rep = benchmarkPhase P' c target tool n rep"
proof -
  obtain endpoint credentials where t: "target_of c target = (endpoint, credentials)" by fastforce
  then have "ph_worker P endpoint credentials = ph_worker P' endpoint credentials"
    using assms by (auto simp: phase_agrees_def target_of_def no_credentials_def split: if_splits)
  moreover have "ph_start P = ph_start P'" "ph_end P = ph_end P'" using assms by (simp_all add: phase_agrees_def)
  ultimately show ?thesis by (simp only: benchmarkPhase_def phase_measurement_def t prod.case Let_def)
qed

lemma run_phases_agrees:
  "(\<And>ph. phase_agrees c (P ph) (P' ph)) \<Longrightarrow> run_phases P over c phs r = run_phases P' over c phs r"
proof (induction phs arbitrary: r)
  case (Cons ph phs)
  obtain target tool n rep where ph: "ph = (target, tool, n, rep)" by (metis prod_cases4)
  show ?case
    using Cons.IH[OF Cons.prems] benchmarkPhase_agrees[OF Cons.prems[of ph], of target tool n rep]
    by (simp add: ph Let_def)
qed simp

lemma with_defaults_channel:
  "DirectEndpoint (with_defaults c) = DirectEndpoint c" "GatewayEndpoint (with_defaults c) = GatewayEndpoint c"
  "BCredentials (with_defaults c) = BCredentials c"
  by (simp_all add: with_defaults_def Let_def)

lemma normalizeBenchmark_Inr: "normalizeBenchmark parse c0 = Inr c \<Longrightarrow> c = with_defaults c0"
  by (auto simp: normalizeBenchmark_def Let_def split: if_splits sum.splits)

lemma Benchmark_agrees:
  assumes "\<And>ph. phase_agrees c (P ph) (P' ph)"
  shows "Benchmark parse P over encode c = Benchmark parse P' over encode c"
proof (cases "normalizeBenchmark parse c")
  case (Inr d)
  have "phase_agrees d (P ph) (P' ph)" for ph
    using assms[of ph] unfolding normalizeBenchmark_Inr[OF Inr] phase_agrees_def with_defaults_channel .
  from run_phases_agrees[of d P P', OF this] Inr show ?thesis by (simp add: Benchmark_def)
qed (simp add: Benchmark_def)

text \<open>
  C34. The command presents the token file and the agent identity to nobody but the endpoint it
  was given: in no mode does its result depend on an exchange with the direct endpoint, or any
  other, that would carry them.
\<close>

theorem credentials_only_to_endpoint:
  assumes "same_channel (parse_options settings) cw cw'"
  shows "client_main quote cw settings positional = client_main quote cw' settings positional"
proof -
  let ?p = "parse_options settings"
  have "phase_agrees (benchmark_config ?p ws) (cw_phases cw ph) (cw_phases cw' ph)" for ws ph
    using assms
    by (cases ph rule: prod_cases4) (simp add: same_channel_def phase_agrees_def benchmark_config_def credentials_of_def)
  then have bench: "Benchmark (cw_parse cw) (cw_phases cw) (cw_over cw) (cw_encode cw) (benchmark_config ?p ws)
      = Benchmark (cw_parse cw) (cw_phases cw') (cw_over cw) (cw_encode cw) (benchmark_config ?p ws)" for ws
    by (rule Benchmark_agrees)
  have eqs: "cw_parse cw' = cw_parse cw" "cw_writer cw' = cw_writer cw" "cw_over cw' = cw_over cw"
    "cw_encode cw' = cw_encode cw" "cw_resolve cw' = cw_resolve cw" "cw_dial cw' = cw_dial cw"
    "cw_connect cw' (op_endpoint ?p) \<lparr>TokenFile = op_token_file ?p, AgentID = op_agent ?p\<rparr>
      = cw_connect cw (op_endpoint ?p) \<lparr>TokenFile = op_token_file ?p, AgentID = op_agent ?p\<rparr>"
    "cw_attempts cw' (op_endpoint ?p) \<lparr>TokenFile = op_token_file ?p, AgentID = op_agent ?p\<rparr>
      = cw_attempts cw (op_endpoint ?p) \<lparr>TokenFile = op_token_file ?p, AgentID = op_agent ?p\<rparr>"
    using assms by (simp_all add: same_channel_def credentials_of_def)
  show ?thesis unfolding client_main_def Let_def eqs bench ..
qed

definition sample_world :: "(string \<Rightarrow> Credentials \<Rightarrow> string + session) \<Rightarrow> client_world" where
  "sample_world connect = \<lparr>cw_parse = sample_parser, cw_writer = \<lambda>_ _. None, cw_connect = connect,
     cw_attempts = \<lambda>_ _. [], cw_resolve = \<lambda>_. Inl ''no such host'',
     cw_dial = \<lambda>_ _. \<lparr>dl_result = DialOk, dl_ctx = False\<rparr>, cw_phases = \<lambda>_. sample_phase, cw_over = \<lambda>_. False,
     cw_encode = \<lambda>_. None\<rparr>"

theorem credentials_only_to_endpoint_witness:
  "client_main id (sample_world (\<lambda>endpoint _. if endpoint = ''http://gateway/mcp'' then Inl ''refused'' else Inl ''stolen''))
      [SetEndpoint ''http://gateway/mcp'', SetTokenFile ''/token''] []
   = client_main id (sample_world (\<lambda>_ _. Inl ''refused''))
      [SetEndpoint ''http://gateway/mcp'', SetTokenFile ''/token''] []"
  by (rule credentials_only_to_endpoint)
    (simp add: same_channel_def sample_world_def parse_options_def default_options_def Let_def)

end
