(* ===== verification/Commands.thy ===== *)
theory Commands
  imports Mux Runbook Client Router
begin

text \<open>
  The small commands: the toy server (\<^verbatim>\<open>hack/toy-mcp-server/main.go\<close>) with its in-place
  reversal, the runbook server (\<^verbatim>\<open>hack/runbook-mcp-server/main.go\<close>) behind the cross-origin
  check, with the tools that \<^verbatim>\<open>internal/runbookmcp/server.go\<close> registers, and the start of the
  controller (\<^verbatim>\<open>cmd/controller/main.go\<close>).
\<close>

section \<open>The toy server\<close>

text \<open>\<^verbatim>\<open>body[i], body[j] = body[j], body[i]\<close>; an index out of range panics.\<close>

definition swap_at :: "int \<Rightarrow> int \<Rightarrow> string \<Rightarrow> string option" where
  "swap_at i j body =
     (if 0 \<le> i \<and> i < int (length body) \<and> 0 \<le> j \<and> j < int (length body)
      then Some (body[nat i := body ! nat j, nat j := body ! nat i]) else None)"

function reverse_loop :: "int \<Rightarrow> int \<Rightarrow> string \<Rightarrow> string option" where
  "reverse_loop i j body =
     (if i < j then
        (case swap_at i j body of
           None \<Rightarrow> None
         | Some body1 \<Rightarrow> reverse_loop (i + 1) (j - 1) body1)
      else Some body)"
  by pat_completeness auto
termination
  by (relation "measure (\<lambda>(i, j, body). nat (j - i))") auto

declare reverse_loop.simps [simp del]

definition reverse_body :: "string \<Rightarrow> string option" where
  "reverse_body body = reverse_loop 0 (int (length body) - 1) body"

datatype toy_handler = EchoHandler | ReverseHandler | HealthzHandler

definition toy_mux :: "toy_handler mux" where
  "toy_mux = [(''/echo'', EchoHandler), (''/reverse-string'', ReverseHandler), (''/healthz'', HealthzHandler)]"

text \<open>What reading the request body gave: the error's message or the bytes.\<close>

definition toy_echo :: "string + string \<Rightarrow> response_writer \<Rightarrow> response_writer" where
  "toy_echo read w =
     (case read of
        Inl err \<Rightarrow> error_response ''failed to read body'' 400 w
      | Inr body \<Rightarrow> writer_write body (writer_set ''Content-Type'' ''application/octet-stream'' w))"

definition toy_reverse :: "string + string \<Rightarrow> response_writer \<Rightarrow> response_writer option" where
  "toy_reverse read w =
     (case read of
        Inl err \<Rightarrow> Some (error_response ''failed to read body'' 400 w)
      | Inr body \<Rightarrow>
          (case reverse_body body of
             None \<Rightarrow> None
           | Some reversed \<Rightarrow> Some (writer_write reversed w)))"

definition toy_healthz :: "response_writer \<Rightarrow> response_writer" where
  "toy_healthz w = writer_write (''ok'' @ [CHR 0x0A]) w"

datatype toy_answer = ToyAnswered response_writer | ToyPanicked | ToyMoved string | ToyRefused int

definition toy_serve :: "string + string \<Rightarrow> mux_request \<Rightarrow> response_writer \<Rightarrow> toy_answer" where
  "toy_serve read q w =
     (case mux_dispatch toy_mux q of
        Dispatch h \<Rightarrow>
          (case h of
             EchoHandler \<Rightarrow> ToyAnswered (toy_echo read w)
           | ReverseHandler \<Rightarrow> (case toy_reverse read w of None \<Rightarrow> ToyPanicked | Some r \<Rightarrow> ToyAnswered r)
           | HealthzHandler \<Rightarrow> ToyAnswered (toy_healthz w))
      | Redirect path \<Rightarrow> ToyMoved path
      | MuxNotFound \<Rightarrow> ToyRefused 404
      | MuxBadRequest \<Rightarrow> ToyRefused 400)"

definition toy_addr :: "(string \<Rightarrow> string) \<Rightarrow> string" where
  "toy_addr getenv = '':'' @ (if getenv ''PORT'' = [] then ''9000'' else getenv ''PORT'')"

text \<open>The loop reverses the part of the slice between its indices.\<close>

lemma reverse_loop_middle:
  "reverse_loop (int (length xs)) (int (length xs) + int (length m) - 1) (xs @ m @ ys) = Some (xs @ rev m @ ys)"
proof (induction "length m" arbitrary: xs m ys rule: less_induct)
  case less
  show ?case
  proof (cases "length m < 2")
    case True
    then have "rev m = m" by (cases m) auto
    with True show ?thesis by (subst reverse_loop.simps) simp
  next
    case False
    then obtain x m1 where m1: "m = x # m1" "m1 \<noteq> []" by (cases m) auto
    then obtain m' y where m: "m = x # m' @ [y]" by (cases m1 rule: rev_cases) auto
    let ?i = "int (length xs)" and ?j = "int (length xs) + int (length m) - 1"
    have j: "nat ?j = length xs + Suc (length m')" "nat ?i = length xs" by (simp_all add: m)
    have "swap_at ?i ?j (xs @ m @ ys) = Some ((xs @ [y]) @ m' @ (x # ys))"
      unfolding swap_at_def j by (simp add: m nth_append list_update_append)
    moreover have "reverse_loop (?i + 1) (?j - 1) ((xs @ [y]) @ m' @ (x # ys)) = Some ((xs @ [y]) @ rev m' @ x # ys)"
      using less(1)[of m' "xs @ [y]" "x # ys"] by (simp add: m algebra_simps)
    moreover have "?i < ?j" by (simp add: m)
    ultimately show ?thesis by (subst reverse_loop.simps) (simp add: m)
  qed
qed

lemma reverse_body_rev: "reverse_body body = Some (rev body)"
  using reverse_loop_middle[of "[]" body "[]"] by (simp add: reverse_body_def)

text \<open>
  The in-place reversal ends, stays inside the slice and reverses it, so the toy server never
  panics, and what it answers to a reversed body is the original one.
\<close>

theorem toy_server_reverses:
  "reverse_body body = Some (rev body) \<and> toy_serve read q w \<noteq> ToyPanicked \<and>
   (\<exists>r. toy_reverse (Inr body) fresh_writer = Some r \<and> w_body r = rev body \<and>
      (\<exists>r'. toy_reverse (Inr (w_body r)) fresh_writer = Some r' \<and> w_body r' = body))"
  by (auto simp: toy_serve_def toy_reverse_def reverse_body_rev writer_write_def fresh_writer_def
      split: mux_result.split toy_handler.split sum.split)

section \<open>The runbook server\<close>

text \<open>
  The metrics of the server in a Prometheus registry, which is the list of the registered
  names: \<^verbatim>\<open>MustRegister\<close> panics at the first name that is taken, and what was registered before
  stays.
\<close>

definition tool_metric_names :: "string list" where
  "tool_metric_names = [''mcp_backend_tool_invocations_total'', ''mcp_backend_tool_duration_seconds'']"

fun MustRegister :: "string list \<Rightarrow> string list \<Rightarrow> bool \<times> string list" where
  "MustRegister [] registry = (False, registry)"
| "MustRegister (n # ns) registry =
     (if n \<in> set registry then (True, registry) else MustRegister ns (registry @ [n]))"

definition newToolMetrics :: "string list \<Rightarrow> bool \<times> string list" where
  "newToolMetrics registry = MustRegister tool_metric_names registry"

text \<open>
  A server maps a tool to the name its executions are counted under and its handler; adding a
  tool replaces one of the same name. \<open>None\<close> is the panic.
\<close>

datatype tool_body = ReadBody | StreamBody

type_synonym tool_server = "(string, string \<times> tool_body) gomap"

definition NewObservedHandler :: "string list \<Rightarrow> tool_server option \<times> string list" where
  "NewObservedHandler registry =
     (let (panicked, registry1) = newToolMetrics registry in
      if panicked then (None, registry1)
      else (Some (AList.update StreamTool (StreamTool, StreamBody)
              (AList.update ReadTool (ReadTool, ReadBody) [])), registry1))"

definition NewHandler :: "tool_server option" where
  "NewHandler = fst (NewObservedHandler [])"

definition registered_tools :: "string list" where
  "registered_tools = (case NewHandler of None \<Rightarrow> [] | Some srv \<Rightarrow> map fst srv)"

text \<open>One call: only a registered tool runs a handler and is counted; the SDK answers the others.\<close>

record tool_call_env =
  tc_ctx :: "tool_error option"
  tc_elapsed :: duration
  tc_steps :: "int \<Rightarrow> step_env"

definition run_tool :: "(string \<Rightarrow> string) \<Rightarrow> file_system \<Rightarrow> tool_call_env \<Rightarrow> tool_server \<Rightarrow> string \<Rightarrow> string
    \<Rightarrow> tool_event list \<Rightarrow> (handler_outcome \<times> progress list \<times> tool_event list) option" where
  "run_tool quote fs tc srv tool topic evs =
     (case map_of srv tool of
        None \<Rightarrow> None
      | Some (label, ReadBody) \<Rightarrow>
          (let (h, evs') = observe label (tc_ctx tc) (tc_elapsed tc) (HandlerReturned (readRunbook quote fs topic)) evs
           in Some (h, [], evs'))
      | Some (label, StreamBody) \<Rightarrow>
          (let (r, sent) = streamRunbook quote fs (tc_steps tc) topic;
               (h, evs') = observe label (tc_ctx tc) (tc_elapsed tc) (HandlerReturned r) evs
           in Some (h, sent, evs')))"

lemma tool_names_differ: "ReadTool \<noteq> StreamTool"
  by (simp add: ReadTool_def StreamTool_def)

lemma new_handler_tools: "NewHandler = Some [(ReadTool, ReadTool, ReadBody), (StreamTool, StreamTool, StreamBody)]"
  using tool_names_differ by (simp add: NewHandler_def NewObservedHandler_def newToolMetrics_def tool_metric_names_def)

lemma registered_tools_eq: "registered_tools = [ReadTool, StreamTool]"
  by (simp add: registered_tools_def new_handler_tools)

text \<open>
  A handler can be made exactly when neither name is taken, and then not again with the same
  registry; a handler with a registry of its own can always be made, and serves the same tools.
\<close>

theorem handler_registers_once:
  "(fst (NewObservedHandler registry) = None \<longleftrightarrow> set tool_metric_names \<inter> set registry \<noteq> {}) \<and>
   (fst (NewObservedHandler registry) \<noteq> None \<longrightarrow>
      fst (NewObservedHandler registry) = NewHandler \<and>
      fst (NewObservedHandler (snd (NewObservedHandler registry))) = None) \<and>
   NewHandler \<noteq> None"
  using tool_names_differ
  by (auto simp: new_handler_tools NewObservedHandler_def newToolMetrics_def tool_metric_names_def)

datatype runbook_handler = McpHandler | RunbookMetricsHandler

definition runbook_mux :: "runbook_handler mux" where
  "runbook_mux = [(''/mcp'', McpHandler), (''/metrics'', RunbookMetricsHandler)]"

datatype runbook_answer = ToMcp | ToMetrics | CrossOriginRefused | RunbookMoved string | RunbookRefused int

definition runbook_serve :: "(string \<Rightarrow> string option) \<Rightarrow> mux_request \<Rightarrow> runbook_answer" where
  "runbook_serve origin_host q =
     (if \<not> cross_origin_allowed origin_host (q_method q) (q_http q) then CrossOriginRefused
      else
        (case mux_dispatch runbook_mux q of
           Dispatch h \<Rightarrow> (case h of McpHandler \<Rightarrow> ToMcp | RunbookMetricsHandler \<Rightarrow> ToMetrics)
         | Redirect path \<Rightarrow> RunbookMoved path
         | MuxNotFound \<Rightarrow> RunbookRefused 404
         | MuxBadRequest \<Rightarrow> RunbookRefused 400))"

definition runbook_addr :: "(string \<Rightarrow> string) \<Rightarrow> string" where
  "runbook_addr getenv = (if getenv ''RUNBOOK_ADDR'' = [] then ''127.0.0.1:9001'' else getenv ''RUNBOOK_ADDR'')"

text \<open>The request that a backend receives for an outbound request of the gateway.\<close>

definition received :: "request \<Rightarrow> outbound \<Rightarrow> request" where
  "received req out = req\<lparr>r_path := o_url_path out, r_header := o_header out, r_host := o_host out\<rparr>"

lemma browser_keys [simp]:
  "canonical_key ''Sec-Fetch-Site'' = ''Sec-Fetch-Site''" "canonical_key ''Origin'' = ''Origin''"
  by code_simp+

lemma rewrite_keeps_browser_headers:
  "header_get (o_header (rewrite addr agent req h)) ''Sec-Fetch-Site'' = header_get h ''Sec-Fetch-Site''"
  "header_get (o_header (rewrite addr agent req h)) ''Origin'' = header_get h ''Origin''"
  "o_host (rewrite addr agent req h) = r_host req"
  by (simp_all add: header_get_def rewrite_def SetXForwarded_def Let_def split: option.split)

text \<open>
  The gateway neither launders nor breaks the cross-origin check of the runbook server: behind
  it the check has the verdict that it has on the request as the gateway prepared it. So a
  browser's cross-site POST to the tool endpoint is refused also when it comes through the
  gateway, and a client that sends neither browser header is served.
\<close>

theorem cross_origin_verdict_preserved:
  assumes "q_http q = received req (rewrite addr agent req h)"
  shows "(runbook_serve oh q = CrossOriginRefused \<longleftrightarrow>
      \<not> cross_origin_allowed oh (q_method q) (req\<lparr>r_header := h\<rparr>))
    \<and> (q_method q = ''POST'' \<and> header_get h ''Sec-Fetch-Site'' = ''cross-site'' \<longrightarrow>
        runbook_serve oh q = CrossOriginRefused)
    \<and> (header_get h ''Sec-Fetch-Site'' = [] \<and> header_get h ''Origin'' = [] \<and> \<not> q_star q \<and> q_escaped q = ''/mcp'' \<longrightarrow>
        runbook_serve oh q = ToMcp)"
proof -
  have same: "cross_origin_allowed oh (q_method q) (q_http q) = cross_origin_allowed oh (q_method q) (req\<lparr>r_header := h\<rparr>)"
    using assms by (simp add: cross_origin_allowed_def received_def rewrite_keeps_browser_headers Let_def)
  have refused: "runbook_serve oh q = CrossOriginRefused \<longleftrightarrow>
      \<not> cross_origin_allowed oh (q_method q) (req\<lparr>r_header := h\<rparr>)"
    unfolding same[symmetric] by (simp add: runbook_serve_def split: mux_result.split runbook_handler.split)
  have cross: "\<not> cross_origin_allowed oh (q_method q) (req\<lparr>r_header := h\<rparr>)"
    if "q_method q = ''POST''" "header_get h ''Sec-Fetch-Site'' = ''cross-site''"
    using that by (simp add: cross_origin_allowed_def)
  have "runbook_serve oh q = ToMcp" if none: "header_get h ''Sec-Fetch-Site'' = []" "header_get h ''Origin'' = []"
    and mcp: "\<not> q_star q" "q_escaped q = ''/mcp''"
  proof -
    have "cleanPath ''/mcp'' = ''/mcp''" "mux_match runbook_mux ''/mcp'' = Some McpHandler" by code_simp+
    with mcp have "mux_dispatch runbook_mux q = Dispatch McpHandler" by (simp add: mux_dispatch_def)
    moreover have "cross_origin_allowed oh (q_method q) (q_http q)"
      unfolding same using none by (simp add: cross_origin_allowed_def)
    ultimately show ?thesis by (simp add: runbook_serve_def)
  qed
  with refused cross show ?thesis by blast
qed

definition sample_post :: mux_request where
  "sample_post = \<lparr>q_star = False, q_method = ''POST'', q_escaped = ''/mcp'',
     q_http = received \<lparr>r_path = ''/mcp'', r_header = [], r_host = ''gw'', r_client_ip = None, r_tls = False,
         r_proto_major = 1, r_has_body = True\<rparr>
       (rewrite ''runbooks:9001'' ''agent'' \<lparr>r_path = ''/mcp'', r_header = [], r_host = ''gw'', r_client_ip = None,
         r_tls = False, r_proto_major = 1, r_has_body = True\<rparr> [(''Sec-Fetch-Site'', [''cross-site''])])\<rparr>"

theorem cross_origin_verdict_preserved_witness:
  "runbook_serve (\<lambda>_. None) sample_post = CrossOriginRefused"
  using cross_origin_verdict_preserved[of sample_post _ "''runbooks:9001''" "''agent''" "[(''Sec-Fetch-Site'', [''cross-site''])]" "\<lambda>_. None"]
  by (simp add: sample_post_def header_get_def header_values_def)

section \<open>The client against the runbook server\<close>

text \<open>The field of \<^verbatim>\<open>readInput\<close> in the arguments of a call.\<close>

definition topic_field :: string where
  "topic_field = ''topic''"

text \<open>
  What the MCP SDK does between a client's session and the handlers of a server: it decodes the
  arguments of a call into a tool's input, delivers what the handler returns, and answers itself
  a call of an unknown tool, one whose arguments do not decode, and one whose handler panicked.
\<close>

record mcp_sdk =
  sdk_decode :: "string \<Rightarrow> (string \<times> string) list \<Rightarrow> string option"
  sdk_result :: "tool_error + tool_result \<Rightarrow> string + call_tool_result"
  sdk_unknown :: "string \<Rightarrow> string + call_tool_result"
  sdk_invalid :: "(string \<times> string) list \<Rightarrow> string + call_tool_result"
  sdk_panicked :: "string + call_tool_result"
  sdk_close :: "string option"

definition call_failed :: "string + call_tool_result \<Rightarrow> bool" where
  "call_failed r = (case r of Inl _ \<Rightarrow> True | Inr c \<Rightarrow> ctr_is_error c)"

text \<open>
  The input is the argument under the field's name; a result is delivered as it is; every error
  is a failed call or a result with the error flag.
\<close>

definition sdk_law :: "mcp_sdk \<Rightarrow> bool" where
  "sdk_law S \<longleftrightarrow>
     (\<forall>f v. sdk_decode S f [(f, v)] = Some v) \<and>
     (\<forall>f args v. sdk_decode S f args = Some v \<longrightarrow> map_of args f = Some v) \<and>
     (\<forall>r. sdk_result S (Inr r) = Inr \<lparr>ctr_is_error = tr_is_error r, ctr_content = map TextContent (tr_text r)\<rparr>) \<and>
     (\<forall>e. call_failed (sdk_result S (Inl e))) \<and>
     (\<forall>tool. call_failed (sdk_unknown S tool)) \<and> (\<forall>args. call_failed (sdk_invalid S args)) \<and>
     call_failed (sdk_panicked S)"

text \<open>A session of a client with the server: what it lists and what it calls are the server's tools.\<close>

definition serve_call :: "mcp_sdk \<Rightarrow> (string \<Rightarrow> string) \<Rightarrow> file_system \<Rightarrow> tool_call_env \<Rightarrow> tool_server \<Rightarrow> string
    \<Rightarrow> (string \<times> string) list \<Rightarrow> string + call_tool_result" where
  "serve_call S quote fs tc srv tool args =
     (if map_of srv tool = None then sdk_unknown S tool
      else
        (case sdk_decode S topic_field args of
           None \<Rightarrow> sdk_invalid S args
         | Some topic \<Rightarrow>
             (case run_tool quote fs tc srv tool topic [] of
                None \<Rightarrow> sdk_unknown S tool
              | Some (h, sent, evs) \<Rightarrow>
                  (case h of HandlerReturned r \<Rightarrow> sdk_result S r | HandlerPanicked \<Rightarrow> sdk_panicked S))))"

definition runbook_session :: "mcp_sdk \<Rightarrow> (string \<Rightarrow> string) \<Rightarrow> file_system \<Rightarrow> tool_call_env \<Rightarrow> tool_server \<Rightarrow> session" where
  "runbook_session S quote fs tc srv =
     \<lparr>ss_list_tools = Inr (map fst srv), ss_call = serve_call S quote fs tc srv, ss_close = sdk_close S\<rparr>"

lemma new_server: "fst (NewObservedHandler registry) = Some srv \<Longrightarrow> srv = [(ReadTool, ReadTool, ReadBody), (StreamTool, StreamTool, StreamBody)]"
  using tool_names_differ by (auto simp: NewObservedHandler_def Let_def split: prod.splits if_splits)

lemma serve_read_call:
  assumes "fst (NewObservedHandler registry) = Some srv" and "sdk_law S"
  shows "serve_call S quote fs tc srv ReadTool [(topic_field, topic)] = sdk_result S (readRunbook quote fs topic)"
  using assms(2) by (simp add: new_server[OF assms(1)] serve_call_def run_tool_def observe_def sdk_law_def split_beta)

lemma read_call_accepted:
  assumes "sdk_law S"
  shows "(\<exists>r. sdk_result S (readRunbook quote fs topic) = Inr r \<and> \<not> ctr_is_error r \<and> ctr_content r = map TextContent texts) \<longleftrightarrow>
    topic \<in> {''gateway-routing'', ''rate-limiting''} \<and>
    (\<exists>content. fs (''runbooks/'' @ topic @ ''.md'') = Inr content \<and> texts = [content])"
proof -
  have "sdk_result S (Inl e) \<noteq> Inr c \<or> ctr_is_error c" for e c
    using assms by (force simp: sdk_law_def call_failed_def split: sum.splits)
  with assms show ?thesis unfolding readRunbook_def sdk_law_def by (auto split: sum.splits)
qed

text \<open>
  C39. Client and server fit together: the client's workflow, run against the tools that the
  runbook server registers, calls one of them, under a name the server lists, with arguments that
  its input type decodes to the topic. It succeeds exactly for a topic the server knows whose file
  can be read and is not empty, when the session closes without an error; then its output shows
  both tools and the file.
\<close>

theorem client_reads_runbook:
  assumes "fst (NewObservedHandler registry) = Some srv" and "sdk_law S"
    and "validateTarget parse endpoint = None" and "TokenFile credentials \<noteq> []"
  shows "Run parse quote (\<lambda>_ _. None) (Inr (runbook_session S quote' fs tc srv)) endpoint credentials topic [] = (None, out) \<longleftrightarrow>
     topic \<in> {''gateway-routing'', ''rate-limiting''} \<and> sdk_close S = None \<and>
     (\<exists>content. fs (''runbooks/'' @ topic @ ''.md'') = Inr content \<and> content \<noteq> [] \<and>
        out = [''Connected to '' @ endpoint, ''Discovered tool: read_runbook'', ''Discovered tool: stream_runbook'',
          content, ''MCP discovery and tool call completed.''])"
proof -
  let ?s = "runbook_session S quote' fs tc srv"
  have call: "ss_call ?s ''read_runbook'' [(''topic'', topic)] = sdk_result S (readRunbook quote' fs topic)"
    using serve_read_call[OF assms(1,2)] by (simp add: runbook_session_def ReadTool_def topic_field_def)
  have "ss_list_tools ?s = Inr [''read_runbook'', ''stream_runbook'']" "ss_close ?s = sdk_close S"
    by (simp_all add: runbook_session_def new_server[OF assms(1)] ReadTool_def StreamTool_def)
  then show ?thesis
    unfolding Run_success_iff using assms(3,4) call read_call_accepted[OF assms(2), of quote' fs topic] by auto
qed

definition sample_sdk :: mcp_sdk where
  "sample_sdk =
     (let failed = (\<lambda>msg. Inr \<lparr>ctr_is_error = True, ctr_content = [TextContent msg]\<rparr>)
      in \<lparr>sdk_decode = (\<lambda>f args. if map fst args = [f] then map_of args f else None),
          sdk_result = (\<lambda>res. case res of
             Inl e \<Rightarrow> failed (te_message e)
           | Inr r \<Rightarrow> Inr \<lparr>ctr_is_error = tr_is_error r, ctr_content = map TextContent (tr_text r)\<rparr>),
          sdk_unknown = (\<lambda>tool. Inl ''unknown tool''), sdk_invalid = (\<lambda>args. failed ''invalid arguments''),
          sdk_panicked = Inl ''connection closed'', sdk_close = None\<rparr>)"

definition sample_url :: url_parser where
  "sample_url raw = Some \<lparr>u_scheme = ''http'', u_host = ''gw:8080'', u_hostname = ''gw'', u_port = ''8080'',
     u_user = None, u_query = [], u_fragment = []\<rparr>"

definition sample_server_tools :: tool_server where
  "sample_server_tools = [(ReadTool, ReadTool, ReadBody), (StreamTool, StreamTool, StreamBody)]"

theorem client_reads_runbook_witness:
  "Run sample_url id (\<lambda>_ _. None)
     (Inr (runbook_session sample_sdk id (\<lambda>_. Inr ''retry'')
        \<lparr>tc_ctx = None, tc_elapsed = 1, tc_steps = \<lambda>_. \<lparr>se_ctx = None, se_token = None, se_notify = None, se_done = None\<rparr>\<rparr>
        sample_server_tools))
     ''http://gw:8080'' \<lparr>TokenFile = ''token'', AgentID = []\<rparr> ''rate-limiting'' []
   = (None, [''Connected to http://gw:8080'', ''Discovered tool: read_runbook'', ''Discovered tool: stream_runbook'',
        ''retry'', ''MCP discovery and tool call completed.''])"
proof -
  have "fst (NewObservedHandler []) = Some sample_server_tools"
    using new_handler_tools by (simp add: NewHandler_def sample_server_tools_def)
  moreover have "sdk_law sample_sdk" by (auto simp: sdk_law_def sample_sdk_def call_failed_def)
  moreover have "validateTarget sample_url ''http://gw:8080'' = None" by (simp add: validateTarget_def sample_url_def)
  moreover have "sdk_close sample_sdk = None" by (simp add: sample_sdk_def)
  ultimately show ?thesis
    using client_reads_runbook[of "[]" sample_server_tools sample_sdk sample_url "''http://gw:8080''" "\<lparr>TokenFile = ''token'', AgentID = []\<rparr>"]
    by simp
qed

text \<open>One execution of a registered tool is one event under the tool's own name.\<close>

lemma run_tool_counts:
  assumes "NewHandler = Some srv"
  shows "(case run_tool quote fs tc srv tool topic evs of
      None \<Rightarrow> tool \<notin> set registered_tools
    | Some (h, sent, evs') \<Rightarrow> tool \<in> set registered_tools \<and> (\<exists>ev. evs' = evs @ [ev] \<and> tv_tool ev = tool))"
  using assms tool_names_differ
  by (auto simp: new_handler_tools run_tool_def registered_tools_eq observe_def Let_def split_beta)

section \<open>The start of the controller\<close>

text \<open>
  What the library calls of \<^verbatim>\<open>init\<close> and \<^verbatim>\<open>main\<close> return, an error by its message, and how
  the process ends: with a panic, with an exit code, or by returning from \<^verbatim>\<open>main\<close> when the
  manager was stopped by a signal. The log lines are those of the command itself.
\<close>

record controller_env =
  ce_core_scheme :: "string option"
  ce_api_scheme :: "string option"
  ce_config :: "string option"
  ce_manager :: "string \<Rightarrow> string option"
  ce_setup :: "string option"
  ce_run :: "string option"

text \<open>The address of the manager's metrics, the one option that the command sets.\<close>

definition metrics_address :: string where
  "metrics_address = '':8081''"

datatype process_end = ProcPanicked string | ProcExited int "string list" | ProcReturned "string list"

definition controller_main :: "controller_env \<Rightarrow> process_end" where
  "controller_main e =
     (case ce_core_scheme e of
        Some err \<Rightarrow> ProcPanicked err
      | None \<Rightarrow>
     (case ce_api_scheme e of
        Some err \<Rightarrow> ProcPanicked err
      | None \<Rightarrow>
     (case ce_config e of
        Some err \<Rightarrow> ProcExited 1 []
      | None \<Rightarrow>
     (case ce_manager e metrics_address of
        Some err \<Rightarrow> ProcExited 1 [''unable to start manager'']
      | None \<Rightarrow>
     (case ce_setup e of
        Some err \<Rightarrow> ProcExited 1 [''unable to create controller'']
      | None \<Rightarrow>
     (case ce_run e of
        Some err \<Rightarrow> ProcExited 1 [''starting manager'', ''problem running manager'']
      | None \<Rightarrow> ProcReturned [''starting manager'']))))))"

lemma controller_starts_iff:
  "(\<exists>code. controller_main e = ProcExited code [''starting manager'', ''problem running manager'']) \<or>
   controller_main e = ProcReturned [''starting manager''] \<longleftrightarrow>
     ce_core_scheme e = None \<and> ce_api_scheme e = None \<and> ce_config e = None \<and> ce_manager e metrics_address = None \<and> ce_setup e = None"
  by (auto simp: controller_main_def split: option.splits)

end
