(* ===== verification/Spec2Isabelle.thy ===== *)
theory Spec2Isabelle
  imports GatewayMain Binary64 InterleavedLimit EndToEnd Scheme DeepCopy Transport Parallel Redirects ClientMain Commands
begin

text \<open>
  Portkeeper: a verification development.

  Portkeeper runs MCP servers on Kubernetes. A controller turns every \<^verbatim>\<open>MCPServer\<close> object
  into a Deployment and a Service and writes its status; a gateway polls the objects and
  forwards authenticated, authorised, rate-limited requests to the ready ones; a runbook
  server is an example backend, and a demo client and benchmark exercise the whole.

  The theories and the code they model:

    \<^item> \<open>Prelude\<close>: the Go strings, maps, times and errors the components share.
    \<^item> \<open>Float64\<close>: \<^verbatim>\<open>float64\<close> rounding (nearest, ties to even) and \<^verbatim>\<open>Duration.Seconds\<close>;
      the locale \<open>float_rounding\<close> is what the users of the arithmetic rely on.
    \<^item> \<open>Http\<close>: header maps, requests, the response writer and the status-capturing writer of
      \<^verbatim>\<open>internal/gateway/router.go\<close>.
    \<^item> \<open>Api\<close>: \<^verbatim>\<open>api/v1alpha1\<close>, the object types and \<open>IsReady\<close>.
    \<^item> \<open>Registry\<close>: \<^verbatim>\<open>internal/gateway/registry.go\<close>; \<open>refresh\<close> is one poll, \<open>Start\<close> the polls
      so far, \<open>Resolve\<close> the route lookup; the locale \<open>server_directory\<close> is its interface.
    \<^item> \<open>Auth\<close>: \<^verbatim>\<open>internal/gateway/auth.go\<close>; \<open>Authenticate\<close> for one request, and the step
      relation \<open>auth_step\<close> for interleaved requests over the bounded slots; the locale
      \<open>authenticator\<close> is Go's interface of that name.
    \<^item> \<open>Limiter\<close>: \<^verbatim>\<open>internal/gateway/ratelimit.go\<close>; \<open>allowAt\<close> with its eviction; the locale
      \<open>agent_limiter\<close>.
    \<^item> \<open>Metrics\<close>: \<^verbatim>\<open>internal/gateway/metrics.go\<close>; the bounded label sets and the recorded
      events; the locale \<open>label_admission\<close>.
    \<^item> \<open>Router\<close>: \<^verbatim>\<open>internal/gateway/router.go\<close>; \<open>parsePath\<close>, \<open>rewrite\<close>, and \<open>ServeHTTP\<close> as its
      body (\<open>serve_body\<close>, from the resolved backend on \<open>serve_backend\<close>) and its deferred
      functions (\<open>deferred\<close>), on the state \<open>Gateway\<close>: registry, limiter, metrics, log.
    \<^item> \<open>GatewaySystem\<close>: runs of polls and requests from the gateway that
      \<^verbatim>\<open>cmd/gateway/main.go\<close> builds; \<open>Samples\<close> has a concrete run of it.
    \<^item> \<open>Interleaving\<close>: the same handler as steps between its shared operations, one thread per
      request (\<open>thread_step\<close>), and the states that any interleaving of requests and polls reaches
      (\<open>system_step\<close>, \<open>reachable\<close>).
    \<^item> \<open>Binary64\<close>: the limiter on the bounded format, with subnormals and overflow.
    \<^item> \<open>LimiterClock\<close> and \<open>InterleavedLimit\<close>: the limiter when the clock is read before the
      lock, so that readings arrive in any order, its budget in any window of a longer run, and the
      log of the limiter's calls in a run of the gateway (\<open>logged_run\<close>) with the budget in any
      window of any interleaving.
    \<^item> \<open>Mux\<close> and \<open>Numbers\<close>: what the commands use of Go's library, the path cleaning and
      matching of \<^verbatim>\<open>net/http\<close>'s mux and its cross-origin check, and \<^verbatim>\<open>strconv\<close>'s \<open>Atoi\<close> and
      \<open>ParseFloat\<close> with the ranges of the machine types.
    \<^item> \<open>GatewayMain\<close>: \<^verbatim>\<open>cmd/gateway/main.go\<close>; the settings from the environment, the start
      with each of its errors, the mux and the readiness endpoint, and \<open>NewRegistry\<close>.
    \<^item> \<open>Controller\<close>: \<^verbatim>\<open>internal/controller/mcpserver_controller.go\<close>; \<open>Reconcile\<close> on a cluster
      of servers, Deployments and Services; the locale \<open>owned_object\<close> is the pattern both
      workloads follow. \<open>Convergence\<close>: its successive passes over one server. \<open>Watches\<close>:
      \<^verbatim>\<open>SetupWithManager\<close>, the requests that the watched changes ask for, and passes whose reads
      come from caches (\<open>with_cache\<close>). \<open>Manager\<close>: \<open>Reconcile\<close> in steps between its reads and
      writes (\<open>pass_step\<close>), and the loop of the manager (\<open>manager_step\<close>): the states the API
      server goes through, one cache per watched kind that follows them at its own pace, the
      queue of requests that their events and failed passes fill, and the pass that runs.
      \<open>EndToEnd\<close>: controller and gateway together.
    \<^item> \<open>Scheme\<close>: \<^verbatim>\<open>api/v1alpha1/groupversion_info.go\<close>, the registration of the types, and that the
      owner references it leads to are the ones the controller recognises.
    \<^item> \<open>DeepCopy\<close>: \<^verbatim>\<open>api/v1alpha1/zz_generated.deepcopy.go\<close> on an explicit heap of slices and
      pointers; the locales \<open>deep_copy\<close>, \<open>api_copies\<close> and \<open>list_copies\<close> are the contract of a
      deep copy, of one field, of an object and of a list.
    \<^item> \<open>Client\<close> and \<open>Benchmark\<close>: \<^verbatim>\<open>internal/democlient\<close>; \<open>Transport\<close>: its status-capturing
      transport as a state machine over the exchanges in flight; \<open>Parallel\<close>: \<^verbatim>\<open>parallelWorkers\<close>
      as a step relation over the caller and its goroutines (\<open>par_step\<close>), with the locale
      \<open>worker_action\<close> for a closure that works on its own slot; \<open>Redirects\<close>: \<^verbatim>\<open>httpClient\<close> in
      the redirect loop of \<^verbatim>\<open>net/http\<close>.
    \<^item> \<open>ClientMain\<close>: \<^verbatim>\<open>hack/mcp-client/main.go\<close>, from the parsed flags to the exit.
    \<^item> \<open>Runbook\<close>: \<^verbatim>\<open>internal/runbookmcp\<close>.
    \<^item> \<open>Commands\<close>: \<^verbatim>\<open>hack/toy-mcp-server\<close>, \<^verbatim>\<open>hack/runbook-mcp-server\<close> and
      \<^verbatim>\<open>cmd/controller\<close>, the registration of the runbook tools and their metrics, and the client's
      workflow against the runbook server.

  What the groups of lemmas show. The registry is the snapshot of the last successful list
  and its answers do not depend on map order. The authenticator accepts exactly the verified
  ServiceAccounts and holds at most 32 reviews. The limiter is a token bucket per agent,
  isolated from the other agents, with at most 10000 buckets. The router answers by the first
  check that fails, forwards only what passes all of them, and accounts for every request.
  The controller touches only its own workloads, converges, and reports ready exactly what is
  rolled out; when its manager is at rest nothing has drifted, and then every route of the gateway leads
  to the Service of its server, and a request that the policy allows arrives there. A handler that runs alone is the sum of its steps, and authorisation, accounting
  and the memory bounds hold in every interleaving. A started gateway has settings in the
  ranges of their types, and its mux passes to the router exactly the clean paths, and those of CONNECT requests, that are
  not operational endpoints. A deep copy
  shares no memory with its original. The statistics of the benchmark are exact nearest ranks,
  a nil error means that every call of every worker succeeded, its transport releases every
  exchange, its report does not depend on the schedule of the
  workers, redirects are not followed, and the client command shows its credentials to
  nobody but the endpoint. This theory states the
  properties that span the components of the gateway, from the polled objects to the
  forwarded request; \<open>EndToEnd\<close> those that span the two programs.

  What is a parameter, with its documented behaviour as a named hypothesis where something is
  relied on: the Kubernetes API and its libraries (\<open>condition_finder\<close> with
  \<open>finds_conditions\<close>, \<open>reviewer\<close>, \<open>name_check\<close>, \<open>kube\<close> with \<open>kube_law\<close>, \<open>condition_law\<close>,
  \<open>set_controller_law\<close>, \<open>settling_law\<close>, \<open>scheme_library\<close> with \<open>scheme_law\<close> and, for writes from a cache, \<open>cached_law\<close>), the reverse proxy and the upstream (\<open>env\<close>), the MCP SDK (\<open>mcp_sdk\<close> with \<open>sdk_law\<close>), the network
  and the file system of the clients. For the limit in a window, that a call waits for the lock no
  longer than some \<open>D\<close> after its reading (\<open>prompt\<close>). The clock is an input: each reading is its own value.

  Bounds. The loops of the program are structural or decrease a counter, so no fuel is used;
  \<open>wait_loop\<close> is the loop over the rounds observed so far. The redirect loop of \<^verbatim>\<open>net/http\<close> may run
  for ever under another policy, so it is a partial function whose value is proved to exist
  for this client; a run of the workers has a proved bound on its steps. Counters of the benchmark are
  unbounded integers, which the checks on its configuration keep far below the width of Go's
  int. The exponents of \<open>f64\<close>, the arithmetic of limiter and statistics, are unbounded. For the
  limiter this is proved not to matter (\<open>Binary64\<close>) for rates between \<open>2 powr -800\<close> and
  \<open>2 powr 800\<close>; beyond those, and in the statistics, overflow, subnormals and NaN are outside
  the model. What the parsers of the settings return is of the exact binary64 and binary32
  formats, with NaN and the infinities.
  A request needs at most eleven of its steps, which is proved, so the runs of one request
  are bounded by that number.

  Not modelled: the registration of the gateway's metrics, single library calls at start-up; the tokenisation of the command line by
  the \<^verbatim>\<open>flag\<close> package (the settings are a list); the listeners; a panic inside a worker of the
  benchmark, which ends the process; the two diagnostic lines that the gateway logs besides the
  line of each request (\<^verbatim>\<open>authentication_unavailable\<close>, \<^verbatim>\<open>gateway_full_duplex_unavailable\<close>). Locks are not modelled as such: each operation of the
  gateway that takes one is one step. A cache takes over the states of its kind one by one and in
  their order; a cache that lists anew after a lost connection, and so skips states, is outside
  the model.
\<close>

section \<open>Forwarding\<close>

text \<open>
  C1. End to end: whatever polls and requests the gateway has served before, a request is
  forwarded only when its verified principal is a ServiceAccount that a current, ready server
  of the last successful list names in its policy, the list is at most 15 seconds old, the
  route names that server, and the outbound request goes to that server's address, at the
  endpoint's path, with the principal as its only agent identity.
\<close>

theorem forwarded_only_if_authorized:
  assumes "finds_conditions f"
    and "s_out (ServeHTTP (Some (\<lambda>req. fst (Authenticate dl ds rv a req))) e req w
           (gw_run f evs (new_gateway rps b))) = Some out"
  shows "\<exists>account p items item ns tool.
    fst (Authenticate dl ds rv a req) = (sa_username account, None) \<and>
    header_values (o_header out) ''X-Agent-ID'' = [sa_username account] \<and>
    last_poll (polls_of evs) = Some p \<and> e_policy e - p_observed p \<le> 15 * second \<and>
    p_list p = Inr items \<and> item \<in> set items \<and> current_ready item \<and>
    account \<in> set (spec_allowed (m_spec item)) \<and>
    parsePath (r_path req) = (ns, m_name item, tool, True) \<and> (ns = [] \<or> ns = m_namespace item) \<and>
    o_url_host out = backend_address (p_host p) item \<and> o_url_path out = ''/'' @ tool"
proof -
  have reg: "g_registry (gw_run f evs (new_gateway rps b)) = Start f (polls_of evs) NewRegistry"
    by (simp add: gw_run_registry new_gateway_def NewRouter_def)
  from assms(2) obtain p ns server tool bk where
    "fst (Authenticate dl ds rv a req) = (p, None)" "parsePath (r_path req) = (ns, server, tool, True)"
    "Resolve (Start f (polls_of evs) NewRegistry) ns server = Inr bk" "may_proxy e req p bk"
    "out = rewrite (b_address bk) p (req\<lparr>r_path := ''/'' @ tool\<rparr>) (e_hop e (r_header req))"
    unfolding ServeHTTP_out reg by auto
  from listed_backend[OF assms(1) this(3-5)] this(1,2) show ?thesis by metis
qed

theorem forwarded_only_if_authorized_witness:
  "\<exists>account item. fst (Authenticate (\<lambda>_. []) (\<lambda>_. []) sample_reviewer
       \<lparr>sa_audience = ''portkeeper'', sa_inflight = 0\<rparr> sample_request) = (sa_username account, None) \<and>
     header_values (o_header sample_out) ''X-Agent-ID'' = [sa_username account] \<and>
     current_ready item \<and> account \<in> set (spec_allowed (m_spec item))"
  using forwarded_only_if_authorized[OF finds_first_condition
      sample_forwarded[unfolded sample_auth_def]] by blast

text \<open>
  C3. No credential of the client leaves the gateway, and no identity but the verified one:
  whatever the reverse proxy prepared, the outbound headers have no Authorization and no
  Proxy-Authorization field, in any spelling of a canonical header map, and exactly one
  agent identity, the principal the authenticator returned.
\<close>

theorem credentials_never_forwarded:
  assumes "s_out (ServeHTTP auth e req w g) = Some out"
  shows "''Authorization'' \<notin> gomap_keys (o_header out) \<and> ''Proxy-Authorization'' \<notin> gomap_keys (o_header out)
    \<and> (\<exists>a p. auth = Some a \<and> a req = (p, None) \<and> p \<noteq> [] \<and> map_of (o_header out) ''X-Agent-Id'' = Some [p])
    \<and> ((\<forall>k \<in> gomap_keys (e_hop e (r_header req)). canonical_key k = k) \<longrightarrow>
        (\<forall>k \<in> gomap_keys (o_header out).
           canonical_key k \<notin> {''Authorization'', ''Proxy-Authorization''} \<and>
           (canonical_key k = ''X-Agent-Id'' \<longrightarrow> k = ''X-Agent-Id'')))"
proof -
  from assms obtain a p tool bk where auth: "auth = Some a" "a req = (p, None)" "p \<noteq> []"
    and out: "out = rewrite bk p (req\<lparr>r_path := ''/'' @ tool\<rparr>) (e_hop e (r_header req))"
    unfolding ServeHTTP_out by blast
  have keys: "gomap_keys (o_header out) \<subseteq>
      (gomap_keys (e_hop e (r_header req)) \<union> {''X-Forwarded-For'', ''X-Forwarded-Host'', ''X-Forwarded-Proto''}
        - {''Authorization'', ''Proxy-Authorization''}) \<union> {''X-Agent-Id''}"
    by (auto simp: out rewrite_def SetXForwarded_def Let_def split: option.splits)
  have agent: "map_of (o_header out) ''X-Agent-Id'' = Some [p]"
    by (simp add: out rewrite_def Let_def header_set_def update_conv)
  have canon: "canonical_key ''X-Agent-Id'' = ''X-Agent-Id''" by code_simp
  have "\<forall>k \<in> gomap_keys (o_header out). canonical_key k = k"
    if "\<forall>k \<in> gomap_keys (e_hop e (r_header req)). canonical_key k = k"
  proof
    fix k
    assume "k \<in> gomap_keys (o_header out)"
    with keys have "k \<in> gomap_keys (e_hop e (r_header req)) \<or>
        k \<in> {''X-Forwarded-For'', ''X-Forwarded-Host'', ''X-Forwarded-Proto'', ''X-Agent-Id''}" by blast
    with that show "canonical_key k = k" using canon by (elim disjE) auto
  qed
  with keys agent auth show ?thesis by auto
qed

theorem credentials_never_forwarded_witness:
  "''Authorization'' \<notin> gomap_keys (o_header sample_out) \<and>
   list_all (\<lambda>(k, _). canonical_key k \<notin> {''Authorization'', ''Proxy-Authorization''}) (o_header sample_out)"
proof -
  have "\<forall>k \<in> gomap_keys (e_hop sample_env (r_header sample_request)). canonical_key k = k"
    by (simp add: sample_env_def sample_request_def)
  with credentials_never_forwarded[OF sample_forwarded] show ?thesis
    by (fastforce simp: list_all_iff)
qed

section \<open>Answers\<close>

text \<open>
  C7. The answer of the gateway is the one of the first check that fails, in this order:
  authentication, path, rate limit, route, age of the policy, policy, readiness, transport.
  A refused request is answered with that status and the matching Retry-After, never reaches
  an upstream and is logged as complete with the status sent. Otherwise the client gets what
  the upstream exchange writes, after any informational codes the last code is logged, and an
  aborted exchange panics and is logged as incomplete.
\<close>

theorem answers_by_decision:
  "case answer_code (decide auth e req g) of
     Some code \<Rightarrow>
       s_out (ServeHTTP auth e req fresh_writer g) = None \<and>
       w_codes (s_response (ServeHTTP auth e req fresh_writer g)) = [code] \<and>
       header_values (w_header (s_response (ServeHTTP auth e req fresh_writer g))) ''Retry-After''
         = answer_retry (decide auth e req g) \<and>
       \<not> s_panicked (ServeHTTP auth e req fresh_writer g) \<and>
       (\<exists>line. g_log (s_gateway (ServeHTTP auth e req fresh_writer g)) = g_log g @ [line] \<and>
          l_status line = code \<and> l_completed line)
   | None \<Rightarrow>
       (\<exists>out line. s_out (ServeHTTP auth e req fresh_writer g) = Some out \<and>
          w_codes (s_response (ServeHTTP auth e req fresh_writer g)) = u_codes (e_upstream e out) \<and>
          s_panicked (ServeHTTP auth e req fresh_writer g) = u_aborted (e_upstream e out) \<and>
          g_log (s_gateway (ServeHTTP auth e req fresh_writer g)) = g_log g @ [line] \<and>
          l_completed line = (\<not> u_aborted (e_upstream e out)) \<and>
          l_status line = last (200 # filter (\<lambda>c. 200 \<le> c) (u_codes (e_upstream e out))))"
proof -
  let ?g = "g\<lparr>g_metrics := emit [InFlightInc] (g_metrics g)\<rparr>"
  have dec: "decide auth e req ?g = decide auth e req g" by simp
  have fresh: "header_values (w_header fresh_writer) ''Retry-After'' = []" "w_codes fresh_writer = []"
    by (simp_all add: fresh_writer_def header_values_def)
  show ?thesis
  proof (cases "answer_code (decide auth e req g)")
    case None
    then obtain b where "decide auth e req ?g = Proxied b" by (cases "decide auth e req g") auto
    from serve_body_proxied[OF this, of fresh_writer] show ?thesis
      unfolding None
      by (auto simp: ServeHTTP_def Let_def deferred_log serve_body_log proxy_response_status fresh
          split: list.splits)
  next
    case (Some code)
    from serve_body_answer[of auth e req ?g, unfolded dec, OF Some fresh(1)] show ?thesis
      unfolding Some by (simp add: ServeHTTP_def Let_def deferred_log serve_body_log fresh)
  qed
qed

text \<open>
  C19. A request that is not authenticated leaves nothing behind but its own count: no bucket
  of the limiter, no label of the metrics and nothing of the registry changes, and it is
  counted under fixed labels, so that unauthenticated clients can neither exhaust the limiter
  nor the label sets, whatever path and headers they send.
\<close>

theorem unauthenticated_leaves_no_trace:
  assumes "decide auth e req g \<in> {Unauthenticated, AuthUnavailable}"
  shows "g_limiter (s_gateway (ServeHTTP auth e req w g)) = g_limiter g \<and>
    g_registry (s_gateway (ServeHTTP auth e req w g)) = g_registry g \<and>
    serverMetricLabels (g_metrics (s_gateway (ServeHTTP auth e req w g))) = serverMetricLabels (g_metrics g) \<and>
    agentMetricLabels (g_metrics (s_gateway (ServeHTTP auth e req w g))) = agentMetricLabels (g_metrics g) \<and>
    s_out (ServeHTTP auth e req w g) = None \<and>
    events (g_metrics (s_gateway (ServeHTTP auth e req w g))) = events (g_metrics g) @
      [InFlightInc,
       RequestInc [] ''_unauthenticated'' ''other''
         (if decide auth e req g = Unauthenticated then ''401'' else ''503'') ''complete'',
       DurationObserve [] ''_unauthenticated'' ''other'' (Seconds f64 (time_sub (e_end e) (e_start e))),
       InFlightDec]"
proof -
  let ?g = "g\<lparr>g_metrics := emit [InFlightInc] (g_metrics g)\<rparr>"
  let ?h = "serve_body auth e req w ?g"
  have h: "h_gateway ?h = ?g \<and> h_labels ?h = ([], ''_unauthenticated'', ''other'') \<and> h_completed ?h
      \<and> h_out ?h = None \<and> rec_status (h_rec ?h) = (if decide auth e req g = Unauthenticated then 401 else 503)"
    using unauthenticated_body[of auth e req ?g w] assms by simp
  have codes: "status_label 401 = ''401''" "status_label 503 = ''503''" by code_simp+
  from h show ?thesis
    by (auto simp: ServeHTTP_def Let_def deferred_state deferred_events result_label_def codes)
      (simp_all add: deferred_def recordRequest_def emit_def Let_def split_beta)
qed

theorem unauthenticated_leaves_no_trace_witness:
  "g_limiter (s_gateway (ServeHTTP None sample_env sample_request fresh_writer (new_gateway 5 10)))
     = NewAgentLimiter f64 5 10"
proof -
  have "decide None sample_env sample_request (new_gateway 5 10) \<in> {Unauthenticated, AuthUnavailable}"
    by (simp add: decide_def sample_route)
  from unauthenticated_leaves_no_trace[OF this, of fresh_writer, THEN conjunct1] show ?thesis
    by (simp add: new_gateway_def NewRouter_def)
qed

section \<open>Runs\<close>

text \<open>
  Observability is bounded: after any polls of valid objects and any requests, the
  gateway has allocated at most \<open>259 * 2 * 21 * 2\<close> request counters, \<open>259 * 2\<close> duration
  histograms and 129 rate-limit counters, whatever servers, paths, agents and status codes it
  has seen.
\<close>

theorem series_bounded:
  assumes "0 < rps" and "0 \<le> b" and "\<forall>p \<in> set (polls_of evs). plain_poll p"
  shows "card (request_series (events (g_metrics (gw_run f evs (new_gateway rps b))))) \<le> 259 * 2 * 21 * 2
    \<and> card (duration_series (events (g_metrics (gw_run f evs (new_gateway rps b))))) \<le> 259 * 2
    \<and> card (agent_series (events (g_metrics (gw_run f evs (new_gateway rps b))))) \<le> 129"
proof -
  have "gateway_ok (gw_run f evs (new_gateway rps b))"
    by (rule gw_run_ok[OF new_gateway_ok[OF assms(1,2)] assms(3)])
  then have "metrics_ok (g_metrics (gw_run f evs (new_gateway rps b)))" by (simp add: gateway_ok_def)
  from series_card[OF this] show ?thesis by blast
qed

theorem series_bounded_witness:
  "card (agent_series (events (g_metrics (gw_run first_condition
     [Poll sample_poll, Request (Some sample_auth) sample_env sample_request fresh_writer]
     (new_gateway 5 10))))) \<le> 129"
  using series_bounded[of 5 10 "[Poll sample_poll, Request (Some sample_auth) sample_env sample_request fresh_writer]"
      first_condition]
  by (simp add: plain_poll_def sample_poll_def sample_server_def)

text \<open>
  Every request is accounted for, also one whose proxy panics: after any run the
  in-flight gauge is back at zero, the log has one line per request, and the request counter
  and the latency histogram agree with the log line by line.
\<close>

theorem requests_accounted:
  "gauge (events (g_metrics (gw_run f evs (new_gateway rps b)))) = 0 \<and>
   length (g_log (gw_run f evs (new_gateway rps b))) = requests_in evs \<and>
   counted (events (g_metrics (gw_run f evs (new_gateway rps b)))) =
     map (\<lambda>l. (status_label (l_status l), result_label (l_completed l)))
       (g_log (gw_run f evs (new_gateway rps b))) \<and>
   durations (events (g_metrics (gw_run f evs (new_gateway rps b)))) =
     map (\<lambda>l. Seconds f64 (l_latency l)) (g_log (gw_run f evs (new_gateway rps b)))"
proof -
  have "accounted (new_gateway rps b)"
    by (simp add: accounted_def new_gateway_def NewRouter_def init_metrics_def)
  from gw_run_accounted[OF this, of f evs] show ?thesis
    by (simp add: accounted_def gw_run_log) (simp add: new_gateway_def NewRouter_def)
qed

section \<open>From the controller to the gateway\<close>

text \<open>
  What the controller writes is what the gateway routes by: after a pass without an
  error, a poll that lists the stored servers gives the server a backend with its address and
  policy, which is ready exactly when the pass found nothing to change and the Deployment is
  fully rolled out.
\<close>

theorem reconciled_backend_ready:
  assumes "kube_law K" and "condition_law f K" and "k_get K cl req = Got m" and "time_is_zero (m_deletion m)"
    and "Reconcile K req cl = (Returned None, cl')" and "m_namespace m \<noteq> []"
    and "p_list p = Inr items" and "\<forall>i \<in> set items. map_of (cl_servers cl') (item_key i) = Some i"
    and "\<exists>i \<in> set items. item_key i = req"
  shows "\<exists>d changed bk. map_of (cl_deployments cl') req = Some d \<and>
    fst (reconcileDeployment K m cl) = (d, changed, None) \<and>
    Resolve (refresh f p r) (m_namespace m) (m_name m) = Inr bk \<and>
    (b_ready bk \<longleftrightarrow> \<not> changed \<and> rolled_out d) \<and>
    b_allowed bk = spec_allowed (m_spec m) \<and> b_address bk = backend_address (p_host p) m"
proof -
  have req: "req = NamespacedName (m_namespace m) (m_name m)"
    using assms(1,3) by (auto simp: kube_law_def get_law_def)
  obtain d s changed rd where R: "map_of (cl_deployments cl') (NamespacedName (m_namespace m) (m_name m)) = Some d"
    "fst (reconcileDeployment K m cl) = (d, changed, None)" "deploymentReadiness d changed = Some rd"
    "map_of (cl_servers cl') req = Some (set_status K m rd)"
    using Reconcile_success[OF assms(1,3-5)] by blast
  let ?m = "set_status K m rd"
  have res: "Resolve (refresh f p r) (m_namespace m) (m_name m)
      = Inr (item_backend f (p_host p) (p_observed p) ?m)"
    using listed_server_resolves[OF assms(7,8) _ _ assms(6)] assms(9) R(4) by (simp add: req)
  obtain phase status reason message where rd: "rd = (phase, status, reason, message)" by (metis prod_cases4)
  have "IsReady f (Some ?m) \<longleftrightarrow> \<not> changed \<and> rolled_out d"
    using set_status_ready[OF assms(2)] readiness_true_iff[OF R(3)[unfolded rd]] assms(4) by (simp add: rd)
  moreover have "backend_address h ?m = backend_address h m" for h
    by (simp add: backend_address_def Let_def)
  ultimately show ?thesis using res R(1,2) req by (simp add: item_backend_def)
qed

theorem reconciled_backend_ready_witness:
  "\<exists>bk. Resolve (refresh first_condition
       \<lparr>p_observed = 0, p_host = [], p_list = Inr (map snd (cl_servers (snd (Reconcile simple_kube sample_key sample_cluster))))\<rparr>
       NewRegistry) ''team'' ''tools'' = Inr bk
    \<and> b_allowed bk = [\<lparr>sa_namespace = ''team'', sa_name = ''agent''\<rparr>]"
proof -
  let ?cl = "snd (Reconcile simple_kube sample_key sample_cluster)"
  have "fst (Reconcile simple_kube sample_key sample_cluster) = Returned None" by code_simp
  then have run: "Reconcile simple_kube sample_key sample_cluster = (Returned None, ?cl)"
    by (metis prod.collapse)
  obtain m' where srv: "cl_servers ?cl = [(sample_key, m')]" "item_key m' = sample_key"
  proof -
    have "\<exists>m'. cl_servers ?cl = [(sample_key, m')] \<and> item_key m' = sample_key"
    proof -
      have "map fst (cl_servers ?cl) = [sample_key]" "map (item_key \<circ> snd) (cl_servers ?cl) = [sample_key]"
        by code_simp+
      then show ?thesis by (cases "cl_servers ?cl") auto
    qed
    then show thesis using that by blast
  qed
  have ne: "m_namespace sample_server \<noteq> []" by (simp add: sample_server_def)
  from reconciled_backend_ready[OF simple_kube_law simple_condition_law sample_got(1) sample_live run ne,
      of "\<lparr>p_observed = 0, p_host = [], p_list = Inr (map snd (cl_servers ?cl))\<rparr>" "map snd (cl_servers ?cl)"
        NewRegistry]
  show ?thesis using srv by (auto simp: sample_server_def)
qed

end
